(* ===== verification/Prelude.thy ===== *)
theory Prelude
  imports Main "HOL-Library.Word"
begin

text \<open>
  Shared vocabulary of the development: the machine integer types of
  \<^verbatim>\<open>ServerCore/Types.h\<close>, the results of code that may stop the process or leave the memory it
  owns, little-endian byte encodings (the server runs on x86-64), block writes into a byte buffer,
  and the contract of a fixed-width wire field (the locale \<open>wire_field\<close>) with its instances for
  the field types the packets use.
\<close>

named_theorems result_simps \<open>evaluation of code that can stop\<close>
named_theorems size_simps \<open>lengths of encodings and of buffers\<close>

section \<open>Machine integers\<close>

type_synonym byte = "8 word"
type_synonym u8 = "8 word"
type_synonym u16 = "16 word"
type_synonym u32 = "32 word"
type_synonym u64 = "64 word"

text \<open>
  Signed integers are words read with \<open>sint\<close>. A \<open>float\<close> is only copied by the program, never
  computed with, so it is its 32-bit pattern.
\<close>

type_synonym i32 = "32 word"
type_synonym i64 = "64 word"
type_synonym f32 = "32 word"

lemma unat_ucast_u16: "unat (ucast (w :: u16) :: u32) = unat w"
  using unsigned_less [of w, where ?'a = nat] by (simp add: unsigned_ucast_eq take_bit_nat_eq_self)

lemma unat_of_nat_u32: "n < 2 ^ 32 \<Longrightarrow> unat (of_nat n :: u32) = n"
  by (simp add: unat_of_nat)

lemma sint_diff:
  assumes "0 \<le> sint (y :: 'a::len word)" and "sint y \<le> sint x"
  shows "sint (x - y) = sint x - sint y"
proof -
  have "sint x - sint y < 2 ^ (LENGTH('a) - 1)" using sint_lt [of x] assms(1) by linarith
  moreover have "- (2 ^ (LENGTH('a) - 1)) \<le> sint x - sint y"
    using assms(2) by (simp add: order_trans [of _ 0])
  ultimately show ?thesis by (simp add: sint_word_ariths(2) signed_take_bit_int_eq_self)
qed

lemma sint_minus_1: "0 <s (x :: i32) \<Longrightarrow> sint (x - 1) = sint x - 1"
  using sint_diff [of 1 x] by (simp add: word_sless_alt)

section \<open>Results\<close>

text \<open>
  \<open>Crash c\<close> is the \<^verbatim>\<open>CRASH(c)\<close> macro of \<^verbatim>\<open>CoreMacro.h\<close> (a write through a null pointer);
  \<open>OutOfBounds\<close> is an access outside the memory the code owns, \<open>Overlap\<close> a \<^verbatim>\<open>memcpy\<close> between
  overlapping regions, \<open>NullDeref\<close> a dereference of a null
  pointer, and \<open>Uncaught\<close> a C++ exception that no frame catches.
\<close>

datatype fault = Crash string | OutOfBounds | Overlap | NullDeref | Uncaught string

type_synonym 'a result = "fault + 'a"

definition bindr :: "'a result \<Rightarrow> ('a \<Rightarrow> 'b result) \<Rightarrow> 'b result" where
  "bindr m f = (case m of Inl e \<Rightarrow> Inl e | Inr x \<Rightarrow> f x)"

lemma bindr_simps [simp, result_simps]:
  "bindr (Inl e) f = Inl e"
  "bindr (Inr x) f = f x"
  by (simp_all add: bindr_def)

lemma bindr_assoc: "bindr (bindr m f) g = bindr m (\<lambda>x. bindr (f x) g)"
  by (cases m) simp_all

lemma bindr_Inr_iff: "bindr m f = Inr y \<longleftrightarrow> (\<exists>x. m = Inr x \<and> f x = Inr y)"
  by (cases m) simp_all

lemma bindr_Inl_iff:
  "bindr m f = Inl e \<longleftrightarrow> m = Inl e \<or> (\<exists>x. m = Inr x \<and> f x = Inl e)"
  by (cases m) simp_all

lemma bindr_cong [fundef_cong]:
  "m = m' \<Longrightarrow> (\<And>x. m' = Inr x \<Longrightarrow> f x = f' x) \<Longrightarrow> bindr m f = bindr m' f'"
  by (cases m') simp_all

text \<open>A value that is there or a fault.\<close>

definition of_opt :: "fault \<Rightarrow> 'a option \<Rightarrow> 'a result" where
  "of_opt e x = (case x of None \<Rightarrow> Inl e | Some y \<Rightarrow> Inr y)"

lemma of_opt_simps [simp, result_simps]:
  "of_opt e None = Inl e"
  "of_opt e (Some x) = Inr x"
  by (simp_all add: of_opt_def)

section \<open>Little-endian bytes\<close>

fun le_enc :: "nat \<Rightarrow> nat \<Rightarrow> byte list" where
  "le_enc 0 x = []"
| "le_enc (Suc n) x = of_nat (x mod 256) # le_enc n (x div 256)"

fun le_dec :: "byte list \<Rightarrow> nat" where
  "le_dec [] = 0"
| "le_dec (b # bs) = unat b + 256 * le_dec bs"

lemma length_le_enc [simp, size_simps]: "length (le_enc n x) = n"
  by (induction n arbitrary: x) simp_all

lemma unat_of_nat_byte: "unat (of_nat (x mod 256) :: byte) = x mod 256"
  by (simp add: unat_of_nat)

lemma le_dec_enc: "le_dec (le_enc n x) = x mod 256 ^ n"
proof (induction n arbitrary: x)
  case (Suc n)
  have "x mod 256 ^ Suc n = x mod 256 + 256 * (x div 256 mod 256 ^ n)"
    by (simp add: mod_mult2_eq)
  with Suc.IH show ?case by (simp add: unat_of_nat_byte)
qed simp

lemma unat_byte_bound: "unat (b :: byte) < 256"
  using unsigned_less [of b, where ?'a = nat] by simp

lemma le_dec_bound: "le_dec bs < 256 ^ length bs"
proof (induction bs)
  case (Cons b bs)
  have "unat b + 256 * le_dec bs < 256 + 256 * le_dec bs"
    using unat_byte_bound [of b] by simp
  also have "\<dots> = 256 * Suc (le_dec bs)" by simp
  also have "\<dots> \<le> 256 * 256 ^ length bs"
    using Cons.IH by (intro mult_le_mono2) simp
  finally show ?case by simp
qed simp

lemma le_enc_dec: "le_enc (length bs) (le_dec bs) = bs"
proof (induction bs)
  case (Cons b bs)
  have "unat b < 256" by (rule unat_byte_bound)
  then have "(unat b + 256 * le_dec bs) mod 256 = unat b"
    and "(unat b + 256 * le_dec bs) div 256 = le_dec bs" by simp_all
  with Cons.IH show ?case by simp
qed simp

section \<open>Fixed-width wire fields\<close>

text \<open>
  What every typed read and write of the packet code relies on: a value has one encoding of a
  fixed width, reading it back gives the value, and every block of that width is the encoding of
  what it decodes to.
\<close>

locale wire_field =
  fixes enc :: "'a \<Rightarrow> byte list"
    and dec :: "byte list \<Rightarrow> 'a"
    and width :: nat
  assumes length_enc: "length (enc x) = width"
    and dec_enc: "dec (enc x) = x"
    and enc_dec: "length bs = width \<Longrightarrow> enc (dec bs) = bs"
begin

lemma dec_take: "dec (take width (enc x @ rest)) = x"
  by (simp add: length_enc dec_enc)

lemma drop_enc: "drop width (enc x @ rest) = rest"
  by (simp add: length_enc)

lemma enc_inject: "enc x = enc y \<longleftrightarrow> x = y"
  by (metis dec_enc)

end

lemma wire_field_word:
  assumes "(256::nat) ^ n = 2 ^ LENGTH('a::len)"
  shows "wire_field (\<lambda>w :: 'a word. le_enc n (unat w)) (\<lambda>bs. of_nat (le_dec bs)) n"
proof unfold_locales
  fix x :: "'a word"
  have "unat x < 256 ^ n" using assms unsigned_less [of x, where ?'a = nat] by simp
  then show "of_nat (le_dec (le_enc n (unat x))) = x" by (simp add: le_dec_enc)
next
  fix bs :: "byte list"
  assume "length bs = n"
  then have "le_dec bs < 2 ^ LENGTH('a)" using le_dec_bound [of bs] assms by simp
  then have "unat (of_nat (le_dec bs) :: 'a word) = le_dec bs" by (simp add: unat_of_nat)
  with \<open>length bs = n\<close> show "le_enc n (unat (of_nat (le_dec bs) :: 'a word)) = bs"
    using le_enc_dec [of bs] by simp
qed simp

definition enc_u8 :: "u8 \<Rightarrow> byte list" where "enc_u8 w = le_enc 1 (unat w)"
definition dec_u8 :: "byte list \<Rightarrow> u8" where "dec_u8 bs = of_nat (le_dec bs)"
definition enc_u16 :: "u16 \<Rightarrow> byte list" where "enc_u16 w = le_enc 2 (unat w)"
definition dec_u16 :: "byte list \<Rightarrow> u16" where "dec_u16 bs = of_nat (le_dec bs)"
definition enc_u32 :: "u32 \<Rightarrow> byte list" where "enc_u32 w = le_enc 4 (unat w)"
definition dec_u32 :: "byte list \<Rightarrow> u32" where "dec_u32 bs = of_nat (le_dec bs)"
definition enc_u64 :: "u64 \<Rightarrow> byte list" where "enc_u64 w = le_enc 8 (unat w)"
definition dec_u64 :: "byte list \<Rightarrow> u64" where "dec_u64 bs = of_nat (le_dec bs)"

interpretation wu8: wire_field enc_u8 dec_u8 1
  unfolding enc_u8_def dec_u8_def by (rule wire_field_word) simp

interpretation wu16: wire_field enc_u16 dec_u16 2
  unfolding enc_u16_def dec_u16_def by (rule wire_field_word) simp

interpretation wu32: wire_field enc_u32 dec_u32 4
  unfolding enc_u32_def dec_u32_def by (rule wire_field_word) simp

interpretation wu64: wire_field enc_u64 dec_u64 8
  unfolding enc_u64_def dec_u64_def by (rule wire_field_word) simp

lemmas length_enc_simps [simp, size_simps] =
  wu8.length_enc wu16.length_enc wu32.length_enc wu64.length_enc

lemmas dec_enc_simps [simp] = wu8.dec_enc wu16.dec_enc wu32.dec_enc wu64.dec_enc

section \<open>Strings of bytes\<close>

text \<open>\<^verbatim>\<open>std::string\<close> holds bytes; a \<open>char\<close> of HOL is one byte.\<close>

definition bytes_of :: "string \<Rightarrow> byte list" where
  "bytes_of = map (\<lambda>c. of_nat (of_char c))"

definition string_of :: "byte list \<Rightarrow> string" where
  "string_of = map (\<lambda>b. char_of (unat b))"

lemma length_bytes_of [simp, size_simps]: "length (bytes_of s) = length s"
  by (simp add: bytes_of_def)

lemma length_string_of [simp, size_simps]: "length (string_of bs) = length bs"
  by (simp add: string_of_def)

lemma string_of_bytes_of [simp]: "string_of (bytes_of s) = s"
proof -
  have "char_of (unat (of_nat (of_char c) :: byte)) = c" for c :: char
    by (simp add: unat_of_nat)
  then show ?thesis by (simp add: string_of_def bytes_of_def comp_def)
qed

lemma bytes_of_string_of [simp]: "bytes_of (string_of bs) = bs"
proof -
  have "of_nat (of_char (char_of (unat b))) = b" for b :: byte
    using unat_byte_bound [of b] by simp
  then show ?thesis by (simp add: string_of_def bytes_of_def comp_def)
qed

lemma bytes_of_append: "bytes_of (s @ t) = bytes_of s @ bytes_of t"
  by (simp add: bytes_of_def)

text \<open>What a C function reads through \<open>c_str()\<close>: the bytes before the first zero byte.\<close>

definition c_str :: "string \<Rightarrow> string" where
  "c_str s = takeWhile (\<lambda>c. c \<noteq> CHR 0x00) s"

section \<open>Memory blocks\<close>

text \<open>The \<open>n\<close> bytes at offset \<open>off\<close> of an object.\<close>

definition load_at :: "nat \<Rightarrow> nat \<Rightarrow> byte list \<Rightarrow> byte list result" where
  "load_at off n buf = (if off + n \<le> length buf then Inr (take n (drop off buf)) else Inl OutOfBounds)"

text \<open>A load inside the common part of two memories cannot tell them apart.\<close>

lemma load_at_take:
  "off + n \<le> m \<Longrightarrow> m \<le> length buf \<Longrightarrow> load_at off n buf = load_at off n (take m buf)"
  by (simp add: load_at_def drop_take)

definition blit :: "nat \<Rightarrow> 'a list \<Rightarrow> 'a list \<Rightarrow> 'a list" where
  "blit i xs buf = take i buf @ xs @ drop (i + length xs) buf"

lemma length_blit [size_simps]:
  "i + length xs \<le> length buf \<Longrightarrow> length (blit i xs buf) = length buf"
  by (simp add: blit_def)

lemma blit_append_prefix:
  "length pre = i \<Longrightarrow> blit i xs (pre @ rest) = pre @ xs @ drop (length xs) rest"
  by (simp add: blit_def)

lemma blit_inside:
  "length old = length xs \<Longrightarrow> length pre = i \<Longrightarrow> blit i xs (pre @ old @ rest) = pre @ xs @ rest"
  by (simp add: blit_def)

end
