(* ===== verification/Buffers.thy ===== *)
theory Buffers
  imports Prelude
begin

text \<open>
  \<^verbatim>\<open>SendBuffer\<close>, \<^verbatim>\<open>BufferReader\<close> and \<^verbatim>\<open>BufferWriter\<close> of ServerCore. A \<open>BYTE*\<close> with the memory
  behind it is the byte list from the pointer to the end of the object it points into; an access
  past that end is the fault \<open>OutOfBounds\<close>. \<open>filled cap pre\<close> is the writer over a fresh buffer of
  \<open>cap\<close> bytes after the bytes \<open>pre\<close> have been written, and the lemmas give every writer operation
  as an equation on it.
\<close>

section \<open>SendBuffer\<close>

record send_buffer =
  sb_buffer :: "byte list"
  sb_writeSize :: u32

definition SendBuffer :: "u32 \<Rightarrow> send_buffer" where
  "SendBuffer bufferSize = \<lparr>sb_buffer = replicate (unat bufferSize) 0, sb_writeSize = 0\<rparr>"

definition sb_AllocSize :: "send_buffer \<Rightarrow> u32" where
  "sb_AllocSize b = of_nat (length (sb_buffer b))"

definition sb_SetWriteSize :: "u32 \<Rightarrow> send_buffer \<Rightarrow> send_buffer" where
  "sb_SetWriteSize n b = b\<lparr>sb_writeSize := n\<rparr>"

text \<open>The bytes an operating-system call reads from \<open>Buffer()\<close> with length \<open>WriteSize()\<close>.\<close>

definition sb_wire :: "send_buffer \<Rightarrow> byte list result" where
  "sb_wire b = (if unat (sb_writeSize b) \<le> length (sb_buffer b)
                then Inr (take (unat (sb_writeSize b)) (sb_buffer b)) else Inl OutOfBounds)"

section \<open>BufferReader\<close>

record buffer_reader =
  br_buffer :: "byte list"
  br_size :: u32
  br_pos :: u32

definition BufferReader :: "byte list \<Rightarrow> u32 \<Rightarrow> u32 \<Rightarrow> buffer_reader" where
  "BufferReader buffer sz pos = \<lparr>br_buffer = buffer, br_size = sz, br_pos = pos\<rparr>"

definition br_FreeSize :: "buffer_reader \<Rightarrow> u32" where
  "br_FreeSize r = br_size r - br_pos r"

text \<open>\<open>memcpy\<close> or a typed load of \<open>n\<close> bytes at the cursor.\<close>

definition br_load :: "nat \<Rightarrow> buffer_reader \<Rightarrow> byte list result" where
  "br_load n r = load_at (unat (br_pos r)) n (br_buffer r)"

text \<open>\<open>None\<close> is the return value false, with the destination left as it was.\<close>

definition br_Peek :: "u32 \<Rightarrow> buffer_reader \<Rightarrow> byte list option result" where
  "br_Peek len r = (if br_FreeSize r < len then Inr None
                    else bindr (br_load (unat len) r) (\<lambda>bs. Inr (Some bs)))"

definition br_Read :: "u32 \<Rightarrow> buffer_reader \<Rightarrow> (byte list option \<times> buffer_reader) result" where
  "br_Read len r = bindr (br_Peek len r) (\<lambda>p. case p of
       None \<Rightarrow> Inr (None, r)
     | Some bs \<Rightarrow> Inr (Some bs, r\<lparr>br_pos := br_pos r + len\<rparr>))"

text \<open>\<open>operator>>\<close> at a type of \<open>n\<close> bytes: no size check.\<close>

definition br_shift :: "(byte list \<Rightarrow> 'a) \<Rightarrow> nat \<Rightarrow> buffer_reader \<Rightarrow> ('a \<times> buffer_reader) result" where
  "br_shift dec n r = bindr (br_load n r) (\<lambda>bs. Inr (dec bs, r\<lparr>br_pos := br_pos r + of_nat n\<rparr>))"

section \<open>BufferWriter\<close>

record buffer_writer =
  bw_buffer :: "byte list"
  bw_size :: u32
  bw_pos :: u32

definition BufferWriter :: "byte list \<Rightarrow> u32 \<Rightarrow> u32 \<Rightarrow> buffer_writer" where
  "BufferWriter buffer sz pos = \<lparr>bw_buffer = buffer, bw_size = sz, bw_pos = pos\<rparr>"

definition bw_FreeSize :: "buffer_writer \<Rightarrow> u32" where
  "bw_FreeSize w = bw_size w - bw_pos w"

definition bw_store :: "nat \<Rightarrow> byte list \<Rightarrow> buffer_writer \<Rightarrow> buffer_writer result" where
  "bw_store off bs w = (if off + length bs \<le> length (bw_buffer w)
                        then Inr (w\<lparr>bw_buffer := blit off bs (bw_buffer w)\<rparr>) else Inl OutOfBounds)"

definition bw_Write :: "byte list \<Rightarrow> buffer_writer \<Rightarrow> (bool \<times> buffer_writer) result" where
  "bw_Write src w =
     (if bw_FreeSize w < of_nat (length src) then Inr (False, w)
      else bindr (bw_store (unat (bw_pos w)) src w)
             (\<lambda>w. Inr (True, w\<lparr>bw_pos := bw_pos w + of_nat (length src)\<rparr>)))"

text \<open>\<open>Reserve<T>()\<close> for a type of \<open>n\<close> bytes: the offset of the reserved block, or a null pointer.\<close>

definition bw_Reserve :: "nat \<Rightarrow> buffer_writer \<Rightarrow> nat option \<times> buffer_writer" where
  "bw_Reserve n w = (if unat (bw_FreeSize w) < n then (None, w)
                     else (Some (unat (bw_pos w)), w\<lparr>bw_pos := bw_pos w + of_nat n\<rparr>))"

text \<open>\<open>operator<<\<close> of a value with the encoding \<open>bs\<close>: no size check.\<close>

definition bw_shift :: "byte list \<Rightarrow> buffer_writer \<Rightarrow> buffer_writer result" where
  "bw_shift bs w = bindr (bw_store (unat (bw_pos w)) bs w)
                     (\<lambda>w. Inr (w\<lparr>bw_pos := bw_pos w + of_nat (length bs)\<rparr>))"

text \<open>The loop that writes the bytes of a string one by one.\<close>

fun bw_shift_each :: "byte list \<Rightarrow> buffer_writer \<Rightarrow> buffer_writer result" where
  "bw_shift_each [] w = Inr w"
| "bw_shift_each (b # bs) w = bindr (bw_shift [b] w) (bw_shift_each bs)"

text \<open>A store through the pointer \<open>Reserve\<close> returned, at an offset inside the reserved block.\<close>

definition bw_poke :: "nat option \<Rightarrow> nat \<Rightarrow> byte list \<Rightarrow> buffer_writer \<Rightarrow> buffer_writer result" where
  "bw_poke p off bs w = (case p of None \<Rightarrow> Inl NullDeref | Some base \<Rightarrow> bw_store (base + off) bs w)"

section \<open>The writer as the bytes written so far\<close>

definition filled :: "nat \<Rightarrow> byte list \<Rightarrow> buffer_writer" where
  "filled cap pre = \<lparr>bw_buffer = pre @ replicate (cap - length pre) 0,
                     bw_size = of_nat cap, bw_pos = of_nat (length pre)\<rparr>"

lemma BufferWriter_fresh:
  "BufferWriter (sb_buffer (SendBuffer n)) (sb_AllocSize (SendBuffer n)) 0 = filled (unat n) []"
  by (simp add: BufferWriter_def SendBuffer_def sb_AllocSize_def filled_def)

lemma bw_store_filled:
  assumes "off + length bs \<le> length pre" and "length pre \<le> cap"
  shows "bw_store off bs (filled cap pre) = Inr (filled cap (blit off bs pre))"
  using assms by (simp add: bw_store_def filled_def blit_def)

lemma bw_shift_filled:
  assumes "length pre \<le> cap" and "cap < 2 ^ 32"
  shows "bw_shift bs (filled cap pre) =
           (if length pre + length bs \<le> cap then Inr (filled cap (pre @ bs)) else Inl OutOfBounds)"
proof -
  have "unat (of_nat (length pre) :: u32) = length pre"
    using assms by (intro unat_of_nat_u32) linarith
  then show ?thesis
    using assms by (simp add: bw_shift_def bw_store_def filled_def blit_def)
qed

lemma bw_shift_each_filled:
  assumes "length pre \<le> cap" and "cap < 2 ^ 32"
  shows "bw_shift_each bs (filled cap pre) =
           (if length pre + length bs \<le> cap then Inr (filled cap (pre @ bs)) else Inl OutOfBounds)"
  using assms(1)
proof (induction bs arbitrary: pre)
  case (Cons b bs)
  then show ?case using assms(2) by (simp add: bw_shift_filled)
qed simp

lemma bw_Reserve_filled:
  assumes "length pre + n \<le> cap" and "cap < 2 ^ 32"
  shows "bw_Reserve n (filled cap pre) = (Some (length pre), filled cap (pre @ replicate n 0))"
proof -
  have [simp]: "unat (of_nat (length pre) :: u32) = length pre"
    using assms by (intro unat_of_nat_u32) linarith
  have le: "(of_nat (length pre) :: u32) \<le> of_nat cap"
    using assms by (simp add: word_le_nat_alt unat_of_nat_u32)
  have "unat (of_nat cap - of_nat (length pre) :: u32) = cap - length pre"
    using le assms by (simp add: unat_sub unat_of_nat_u32)
  moreover have "replicate (cap - length pre) (0::byte) =
      replicate n 0 @ replicate (cap - (length pre + n)) 0"
    using assms by (simp flip: replicate_add)
  ultimately show ?thesis
    using assms by (simp add: bw_Reserve_def bw_FreeSize_def filled_def)
qed

lemma bw_poke_filled:
  assumes "base + off + length bs \<le> length pre" and "length pre \<le> cap"
  shows "bw_poke (Some base) off bs (filled cap pre) = Inr (filled cap (blit (base + off) bs pre))"
  using assms by (simp add: bw_poke_def bw_store_filled)

text \<open>
  \<open>writes f bs\<close>: on every buffer, \<open>f\<close> appends \<open>bs\<close> if it fits and otherwise writes past the end.
  A builder is a chain of such writes.
\<close>

definition writes :: "(buffer_writer \<Rightarrow> buffer_writer result) \<Rightarrow> byte list \<Rightarrow> bool" where
  "writes f bs \<longleftrightarrow> (\<forall>pre cap. length pre \<le> cap \<longrightarrow> cap < 2 ^ 32 \<longrightarrow>
     f (filled cap pre) =
       (if length pre + length bs \<le> cap then Inr (filled cap (pre @ bs)) else Inl OutOfBounds))"

lemma writes_shift: "writes (bw_shift bs) bs"
  by (simp add: writes_def bw_shift_filled)

lemma writes_shift_each: "writes (bw_shift_each bs) bs"
  by (simp add: writes_def bw_shift_each_filled)

lemma writes_bind:
  assumes "writes f bs" and "writes g cs"
  shows "writes (\<lambda>bw. bindr (f bw) g) (bs @ cs)"
  using assms by (simp add: writes_def)

lemma writesD:
  "writes f bs \<Longrightarrow> length pre \<le> cap \<Longrightarrow> cap < 2 ^ 32 \<Longrightarrow>
     f (filled cap pre) =
       (if length pre + length bs \<le> cap then Inr (filled cap (pre @ bs)) else Inl OutOfBounds)"
  by (simp add: writes_def)

lemma sb_wire_filled:
  assumes "length pre \<le> cap" and "cap < 2 ^ 32"
  shows "sb_wire \<lparr>sb_buffer = bw_buffer (filled cap pre), sb_writeSize = bw_pos (filled cap pre)\<rparr> = Inr pre"
  using assms by (simp add: sb_wire_def filled_def unat_of_nat_u32)

section \<open>The reader as the bytes still to come\<close>

definition advance :: "buffer_reader \<Rightarrow> nat \<Rightarrow> buffer_reader" where
  "advance r n = r\<lparr>br_pos := br_pos r + of_nat n\<rparr>"

definition ahead :: "buffer_reader \<Rightarrow> byte list \<Rightarrow> bool" where
  "ahead r bs \<longleftrightarrow> length (br_buffer r) < 2 ^ 32 \<and> unat (br_pos r) \<le> length (br_buffer r) \<and>
                 drop (unat (br_pos r)) (br_buffer r) = bs"

lemma ahead_room: "ahead r bs \<Longrightarrow> length (br_buffer r) = unat (br_pos r) + length bs"
  by (auto simp: ahead_def)

lemma ahead_advance:
  assumes "ahead r (xs @ rest)" and "length xs = n"
  shows "ahead (advance r n) rest"
proof -
  have l: "length (br_buffer r) = unat (br_pos r) + n + length rest"
    using ahead_room [OF assms(1)] assms(2) by simp
  with assms have "unat (br_pos r + of_nat n) = unat (br_pos r) + n"
    by (simp add: ahead_def unat_word_ariths(1) unat_of_nat)
  moreover have "drop (unat (br_pos r) + n) (br_buffer r) = rest"
    using assms by (simp add: ahead_def flip: drop_drop add.commute)
  ultimately show ?thesis using assms l by (simp add: advance_def ahead_def)
qed

lemma br_load_ahead: "ahead r (bs @ rest) \<Longrightarrow> length bs = n \<Longrightarrow> br_load n r = Inr bs"
  by (frule ahead_room) (simp add: ahead_def br_load_def load_at_def)

context wire_field
begin

lemma br_shift_enc: "ahead r (enc x @ rest) \<Longrightarrow> br_shift dec width r = Inr (x, advance r width)"
  by (simp add: br_shift_def br_load_ahead [where bs = "enc x"] length_enc dec_enc advance_def)

lemma ahead_enc: "ahead r (enc x @ rest) \<Longrightarrow> ahead (advance r width) rest"
  using ahead_advance [of r "enc x" rest width] by (simp add: length_enc)

end

end
