(* ===== verification/Decimal.thy ===== *)
theory Decimal
  imports Prelude
begin

text \<open>
  The decimal conversions of the C++ library the Redis client uses: \<^verbatim>\<open>std::to_string\<close> on
  integers and \<^verbatim>\<open>std::stoi\<close> / \<^verbatim>\<open>std::stoll\<close>, with the exceptions they throw. The round trip at the
  end is what makes a balance survive a write to Redis and a later read.
\<close>

section \<open>Writing\<close>

definition digit_char :: "nat \<Rightarrow> char" where
  "digit_char d = char_of (48 + d)"

fun digits :: "nat \<Rightarrow> string" where
  "digits n = (if n < 10 then [digit_char n] else digits (n div 10) @ [digit_char (n mod 10)])"

declare digits.simps [simp del]

definition to_string :: "int \<Rightarrow> string" where
  "to_string i = (if i < 0 then CHR ''-'' # digits (nat (- i)) else digits (nat i))"

section \<open>Reading\<close>

definition is_space :: "char \<Rightarrow> bool" where
  "is_space c \<longleftrightarrow> c \<in> {CHR '' '', CHR 0x09, CHR 0x0A, CHR 0x0B, CHR 0x0C, CHR 0x0D}"

definition is_digit :: "char \<Rightarrow> bool" where
  "is_digit c \<longleftrightarrow> 48 \<le> (of_char c :: nat) \<and> (of_char c :: nat) \<le> 57"

fun digits_value :: "nat \<Rightarrow> string \<Rightarrow> nat" where
  "digits_value acc [] = acc"
| "digits_value acc (c # cs) =
     (if is_digit c then digits_value (10 * acc + (of_char c - 48)) cs else acc)"

definition read_nat :: "string \<Rightarrow> nat option" where
  "read_nat s = (case s of [] \<Rightarrow> None | c # cs \<Rightarrow> if is_digit c then Some (digits_value 0 s) else None)"

text \<open>\<^verbatim>\<open>strtol\<close> in base 10: white space, a sign, digits; the rest of the text is ignored.\<close>

definition strtol :: "string \<Rightarrow> int option" where
  "strtol s =
     (case dropWhile is_space s of
        [] \<Rightarrow> None
      | c # cs \<Rightarrow>
          if c = CHR ''-'' then map_option (\<lambda>n. - int n) (read_nat cs)
          else if c = CHR ''+'' then map_option int (read_nat cs)
          else map_option int (read_nat (c # cs)))"

definition stoi :: "string \<Rightarrow> i32 result" where
  "stoi s = (case strtol s of
       None \<Rightarrow> Inl (Uncaught ''invalid_argument'')
     | Some v \<Rightarrow> if - (2 ^ 31) \<le> v \<and> v < 2 ^ 31 then Inr (of_int v) else Inl (Uncaught ''out_of_range''))"

definition stoll :: "string \<Rightarrow> i64 result" where
  "stoll s = (case strtol s of
       None \<Rightarrow> Inl (Uncaught ''invalid_argument'')
     | Some v \<Rightarrow> if - (2 ^ 63) \<le> v \<and> v < 2 ^ 63 then Inr (of_int v) else Inl (Uncaught ''out_of_range''))"

section \<open>Round trip\<close>

lemma of_char_digit_char: "d < 10 \<Longrightarrow> (of_char (digit_char d) :: nat) = 48 + d"
  by (simp add: digit_char_def)

lemma is_digit_digit_char: "d < 10 \<Longrightarrow> is_digit (digit_char d)"
  by (simp add: is_digit_def of_char_digit_char)

lemma digits_value_snoc:
  "\<forall>c \<in> set cs. is_digit c \<Longrightarrow> d < 10 \<Longrightarrow>
     digits_value acc (cs @ [digit_char d]) = 10 * digits_value acc cs + d"
  by (induction cs arbitrary: acc) (simp_all add: is_digit_digit_char of_char_digit_char)

lemma digits_are_digits: "\<forall>c \<in> set (digits n). is_digit c"
proof (induction n rule: digits.induct)
  case (1 n)
  then show ?case
    by (subst digits.simps) (auto simp: is_digit_digit_char)
qed

lemma digits_nonempty: "digits n \<noteq> []"
  by (subst digits.simps) simp

lemma digits_value_digits: "digits_value 0 (digits n) = n"
proof (induction n rule: digits.induct)
  case (1 n)
  show ?case
  proof (cases "n < 10")
    case True
    then show ?thesis
      by (subst digits.simps) (simp add: is_digit_digit_char of_char_digit_char)
  next
    case False
    with 1 have "digits_value 0 (digits (n div 10)) = n div 10" by simp
    with False show ?thesis
      by (subst digits.simps) (simp add: digits_value_snoc [OF digits_are_digits])
  qed
qed

lemma read_nat_digits: "read_nat (digits n) = Some n"
proof -
  obtain c cs where d: "digits n = c # cs" by (cases "digits n") (simp_all add: digits_nonempty)
  then have "is_digit c" using digits_are_digits [of n] by simp
  with d digits_value_digits [of n] show ?thesis by (simp add: read_nat_def)
qed

lemma hd_digits:
  assumes "digits n = c # cs"
  shows "\<not> is_space c" and "c \<noteq> CHR ''-''" and "c \<noteq> CHR ''+''" and "c \<noteq> CHR 0x00"
  using digits_are_digits [of n] assms by (auto simp: is_digit_def is_space_def)

lemma strtol_to_string: "strtol (to_string i) = Some i"
proof (cases "i < 0")
  case True
  then show ?thesis by (simp add: strtol_def to_string_def is_space_def read_nat_digits)
next
  case False
  obtain c cs where d: "digits (nat i) = c # cs"
    by (cases "digits (nat i)") (simp_all add: digits_nonempty)
  from hd_digits [OF d] read_nat_digits [of "nat i"] False d show ?thesis
    by (simp add: strtol_def to_string_def)
qed

lemma c_str_to_string [simp]: "c_str (to_string i) = to_string i"
proof -
  have "c \<in> set (to_string i) \<Longrightarrow> c \<noteq> CHR 0x00" for c
    using digits_are_digits [of "nat i"] digits_are_digits [of "nat (- i)"]
    by (auto simp: to_string_def is_digit_def split: if_splits)
  then show ?thesis unfolding c_str_def takeWhile_eq_all_conv by blast
qed

lemma stoll_to_string: "stoll (to_string (sint (w :: i64))) = Inr w"
  using sint_ge [of w] sint_lt [of w] by (simp add: stoll_def strtol_to_string)

lemma stoi_to_string: "stoi (to_string (sint (w :: i32))) = Inr w"
  using sint_ge [of w] sint_lt [of w] by (simp add: stoi_def strtol_to_string)

end
