(* ===== verification/RedisClient.thy ===== *)
theory RedisClient
  imports Decimal "HOL-Library.AList"
begin

text \<open>
  \<^verbatim>\<open>GameServer/RedisClient\<close>. hiredis is a library outside the repository: \<open>cmd\<close> stands for
  \<^verbatim>\<open>redisCommand\<close>, which takes the server, the format and the \<^verbatim>\<open>%s\<close> arguments (C strings, so cut
  at the first zero byte) and gives the server afterwards and the reply, \<open>None\<close> for a null pointer.
  \<open>stof\<close> stands for \<^verbatim>\<open>std::stof\<close>, whose rounding is the C runtime's; its result is only copied.
  \<open>redis_hashes\<close> states what the Redis manual promises of the three commands used; \<open>hash s k f\<close> is
  the field \<open>f\<close> of the hash at key \<open>k\<close>.
\<close>

section \<open>Replies and the connection\<close>

datatype redis_reply =
    RString string | RArray "redis_reply list" | RInteger int | RNil | RStatus string | RError string

type_synonym 's redis_command = "'s \<Rightarrow> string \<Rightarrow> string list \<Rightarrow> 's \<times> redis_reply option"

record 's redis_client =
  rc_ctx :: bool
  rc_server :: 's

datatype connect_outcome = ConnectNull | ConnectErr | ConnectOk

record player_redis_info =
  pi_userId :: string
  pi_nickname :: string
  pi_scene :: string
  pi_hp :: i32
  pi_balance :: i64
  pi_charType :: i32
  pi_posX :: f32
  pi_posY :: f32
  pi_posZ :: f32
  pi_rot :: f32
  pi_weapon :: i32
  pi_ammoType :: i32
  pi_ammo :: i32

definition f32_one :: f32 where "f32_one = 0x3F800000"

definition default_info :: player_redis_info where
  "default_info = \<lparr>pi_userId = [], pi_nickname = [], pi_scene = [], pi_hp = 0, pi_balance = 0,
     pi_charType = 0, pi_posX = 0, pi_posY = f32_one, pi_posZ = 0, pi_rot = 0, pi_weapon = 0,
     pi_ammoType = 0, pi_ammo = 0\<rparr>"

definition Disconnect :: "'s redis_client \<Rightarrow> 's redis_client" where
  "Disconnect c = (if rc_ctx c then c\<lparr>rc_ctx := False\<rparr> else c)"

definition Connect :: "connect_outcome \<Rightarrow> 's redis_client \<Rightarrow> bool \<times> 's redis_client" where
  "Connect outcome c =
     (let c = Disconnect c in
      case outcome of
        ConnectNull \<Rightarrow> (False, c\<lparr>rc_ctx := False\<rparr>)
      | ConnectErr \<Rightarrow> (False, c\<lparr>rc_ctx := False\<rparr>)
      | ConnectOk \<Rightarrow> (True, c\<lparr>rc_ctx := True\<rparr>))"

definition redis_run ::
  "'s redis_command \<Rightarrow> string \<Rightarrow> string list \<Rightarrow> 's redis_client \<Rightarrow> redis_reply option \<times> 's redis_client" where
  "redis_run cmd fmt args c =
     (let (srv, reply) = cmd (rc_server c) fmt (map c_str args) in (reply, c\<lparr>rc_server := srv\<rparr>))"

definition user_key :: "string \<Rightarrow> string" where
  "user_key userId = ''user:'' @ userId"

section \<open>Reading a player\<close>

text \<open>\<^verbatim>\<open>reply->elements\<close> is zero and \<^verbatim>\<open>reply->str\<close> a null pointer where the reply has none.\<close>

definition reply_elements :: "redis_reply \<Rightarrow> redis_reply list" where
  "reply_elements r = (case r of RArray rs \<Rightarrow> rs | _ \<Rightarrow> [])"

definition reply_str :: "redis_reply \<Rightarrow> string result" where
  "reply_str r = (case r of
       RString s \<Rightarrow> Inr (c_str s) | RStatus s \<Rightarrow> Inr (c_str s) | RError s \<Rightarrow> Inr (c_str s)
     | _ \<Rightarrow> Inl NullDeref)"

definition assign_field ::
  "(string \<Rightarrow> f32 result) \<Rightarrow> string \<Rightarrow> string \<Rightarrow> player_redis_info \<Rightarrow> player_redis_info result" where
  "assign_field stof field val info =
     (if field = ''nickname'' then Inr (info\<lparr>pi_nickname := val\<rparr>)
      else if field = ''scene'' then Inr (info\<lparr>pi_scene := val\<rparr>)
      else if field = ''hp'' then bindr (stoi val) (\<lambda>v. Inr (info\<lparr>pi_hp := v\<rparr>))
      else if field = ''balance'' then bindr (stoll val) (\<lambda>v. Inr (info\<lparr>pi_balance := v\<rparr>))
      else if field = ''char_type'' then bindr (stoi val) (\<lambda>v. Inr (info\<lparr>pi_charType := v\<rparr>))
      else if field = ''pos_x'' then bindr (stof val) (\<lambda>v. Inr (info\<lparr>pi_posX := v\<rparr>))
      else if field = ''pos_y'' then bindr (stof val) (\<lambda>v. Inr (info\<lparr>pi_posY := v\<rparr>))
      else if field = ''pos_z'' then bindr (stof val) (\<lambda>v. Inr (info\<lparr>pi_posZ := v\<rparr>))
      else if field = ''rot'' then bindr (stof val) (\<lambda>v. Inr (info\<lparr>pi_rot := v\<rparr>))
      else if field = ''weapon'' then bindr (stoi val) (\<lambda>v. Inr (info\<lparr>pi_weapon := v\<rparr>))
      else if field = ''ammo_type'' then bindr (stoi val) (\<lambda>v. Inr (info\<lparr>pi_ammoType := v\<rparr>))
      else if field = ''ammo'' then bindr (stoi val) (\<lambda>v. Inr (info\<lparr>pi_ammo := v\<rparr>))
      else Inr info)"

fun assign_fields ::
  "(string \<Rightarrow> f32 result) \<Rightarrow> redis_reply list \<Rightarrow> player_redis_info \<Rightarrow> player_redis_info result" where
  "assign_fields stof (f # v # rest) info =
     bindr (reply_str f) (\<lambda>field.
     bindr (reply_str v) (\<lambda>val.
     bindr (assign_field stof field val info) (assign_fields stof rest)))"
| "assign_fields stof _ info = Inr info"

definition GetPlayerInfo ::
  "'s redis_command \<Rightarrow> (string \<Rightarrow> f32 result) \<Rightarrow> string \<Rightarrow> player_redis_info \<Rightarrow> 's redis_client \<Rightarrow>
     (bool \<times> player_redis_info \<times> 's redis_client) result" where
  "GetPlayerInfo cmd stof userId info c =
     (if \<not> rc_ctx c then Inr (False, info, c)
      else
        let (reply, c) = redis_run cmd ''HGETALL %s'' [user_key userId] c
        in case reply of
             None \<Rightarrow> Inr (False, info, c)
           | Some (RError e) \<Rightarrow> Inr (False, info, c)
           | Some RNil \<Rightarrow> Inr (False, info, c)
           | Some r \<Rightarrow>
               bindr (assign_fields stof (reply_elements r) (info\<lparr>pi_userId := userId\<rparr>))
                 (\<lambda>info. Inr (True, info, c)))"

definition GetBalance ::
  "'s redis_command \<Rightarrow> string \<Rightarrow> i64 \<Rightarrow> 's redis_client \<Rightarrow> (bool \<times> i64 \<times> 's redis_client) result" where
  "GetBalance cmd userId out c =
     (if \<not> rc_ctx c then Inr (False, out, c)
      else
        let (reply, c) = redis_run cmd ''HGET %s balance'' [user_key userId] c
        in case reply of
             Some (RString s) \<Rightarrow> bindr (stoll (c_str s)) (\<lambda>b. Inr (True, b, c))
           | _ \<Rightarrow> Inr (False, out, c))"

section \<open>Writing a player\<close>

text \<open>One \<^verbatim>\<open>HSET\<close>: only a null reply counts as a failure, an error reply is printed.\<close>

definition hset ::
  "'s redis_command \<Rightarrow> string \<Rightarrow> string \<Rightarrow> string \<Rightarrow> 's redis_client \<Rightarrow> bool \<times> 's redis_client" where
  "hset cmd fmt userId val c =
     (let (reply, c) = redis_run cmd fmt [user_key userId, val] c in (reply \<noteq> None, c))"

definition SetAmmo :: "'s redis_command \<Rightarrow> string \<Rightarrow> i32 \<Rightarrow> 's redis_client \<Rightarrow> bool \<times> 's redis_client" where
  "SetAmmo cmd userId ammo c =
     (if \<not> rc_ctx c then (False, c)
      else hset cmd ''HSET %s ammo %s'' userId (to_string (sint ammo)) c)"

definition PurchaseWeapon ::
  "'s redis_command \<Rightarrow> string \<Rightarrow> i64 \<Rightarrow> i32 \<Rightarrow> i32 \<Rightarrow> i32 \<Rightarrow> 's redis_client \<Rightarrow> bool \<times> 's redis_client" where
  "PurchaseWeapon cmd userId newBalance weaponType magazineAmmo ammoEnhanceLevel c =
     (if \<not> rc_ctx c then (False, c)
      else
        let (ok1, c) = hset cmd ''HSET %s balance %s'' userId (to_string (sint newBalance)) c
        in if \<not> ok1 then (False, c)
        else let (ok2, c) = hset cmd ''HSET %s weapon %s'' userId (to_string (sint weaponType)) c
        in if \<not> ok2 then (False, c)
        else let (ok3, c) = hset cmd ''HSET %s ammo_type %s'' userId (to_string (sint ammoEnhanceLevel)) c
        in if \<not> ok3 then (False, c)
        else let (ok4, c) = hset cmd ''HSET %s ammo %s'' userId (to_string (sint magazineAmmo)) c
        in (ok4, c))"

definition ConsumeLobbyAmmo ::
  "'s redis_command \<Rightarrow> (string \<Rightarrow> f32 result) \<Rightarrow> string \<Rightarrow> i32 \<Rightarrow> 's redis_client \<Rightarrow>
     (bool \<times> i32 \<times> 's redis_client) result" where
  "ConsumeLobbyAmmo cmd stof userId out c =
     (if \<not> rc_ctx c then Inr (False, out, c)
      else bindr (GetPlayerInfo cmd stof userId default_info c) (\<lambda>(ok, info, c).
        if \<not> ok then Inr (False, out, c)
        else if pi_weapon info = 0 then Inr (False, 0, c)
        else
          let ammo = pi_ammo info
          in if ammo \<le>s 0 then Inr (False, 0, c)
          else
            let ammo = ammo - 1;
                (ok, c) = SetAmmo cmd userId ammo c
            in if \<not> ok then Inr (False, out, c) else Inr (True, ammo, c)))"

section \<open>What Redis promises\<close>

text \<open>
  A connected Redis whose player keys hold hashes answers every command, and with the reply type of the
  manual: the promise excludes null replies (a lost connection) and the error reply for a key of
  another type. What the code does in those cases is part of the definitions above.
\<close>

definition set_field ::
  "string \<Rightarrow> string \<Rightarrow> string \<Rightarrow> (string \<Rightarrow> string \<Rightarrow> string option) \<Rightarrow> string \<Rightarrow> string \<Rightarrow> string option" where
  "set_field k f v h = h(k := (h k)(f \<mapsto> v))"

definition redis_hashes ::
  "'s redis_command \<Rightarrow> ('s \<Rightarrow> string \<Rightarrow> string \<Rightarrow> string option) \<Rightarrow> bool" where
  "redis_hashes cmd hash \<longleftrightarrow>
     (\<forall>s k. \<exists>s'. hash s' = hash s \<and> cmd s ''HGET %s balance'' [k] =
        (s', Some (case hash s k ''balance'' of None \<Rightarrow> RNil | Some v \<Rightarrow> RString v))) \<and>
     (\<forall>s k. \<exists>s' fvs. hash s' = hash s \<and> distinct (map fst fvs) \<and> map_of fvs = hash s k \<and>
        cmd s ''HGETALL %s'' [k] =
          (s', Some (RArray (concat (map (\<lambda>(f, v). [RString f, RString v]) fvs))))) \<and>
     (\<forall>s k f v. f \<in> {''balance'', ''weapon'', ''ammo_type'', ''ammo''} \<longrightarrow>
        (\<exists>s' n. hash s' = set_field k f v (hash s) \<and>
           cmd s (''HSET %s '' @ f @ '' %s'') [k, v] = (s', Some (RInteger n))))"

section \<open>Commands under these promises\<close>

lemma redis_HGET:
  assumes "redis_hashes cmd hash"
  shows "\<exists>s'. hash s' = hash s \<and> cmd s ''HGET %s balance'' [k] =
           (s', Some (case hash s k ''balance'' of None \<Rightarrow> RNil | Some v \<Rightarrow> RString v))"
  using assms unfolding redis_hashes_def by (elim conjE allE) assumption

lemma redis_HGETALL:
  assumes "redis_hashes cmd hash"
  shows "\<exists>s' fvs. hash s' = hash s \<and> distinct (map fst fvs) \<and> map_of fvs = hash s k \<and>
           cmd s ''HGETALL %s'' [k] =
             (s', Some (RArray (concat (map (\<lambda>(f, v). [RString f, RString v]) fvs))))"
  using assms unfolding redis_hashes_def by (elim conjE allE) assumption

lemma redis_HSET:
  assumes "redis_hashes cmd hash" and "f \<in> {''balance'', ''weapon'', ''ammo_type'', ''ammo''}"
  shows "\<exists>s' n. hash s' = set_field k f v (hash s) \<and>
           cmd s (''HSET %s '' @ f @ '' %s'') [k, v] = (s', Some (RInteger n))"
  using assms unfolding redis_hashes_def by (elim conjE allE impE) assumption+

lemma redis_run_ctx [simp]: "redis_run cmd fmt args c = (r, c') \<Longrightarrow> rc_ctx c' = rc_ctx c"
  by (auto simp: redis_run_def split: prod.splits)

abbreviation rhash :: "('s \<Rightarrow> 'h) \<Rightarrow> 's redis_client \<Rightarrow> 'h" where
  "rhash hash c \<equiv> hash (rc_server c)"

lemma hset_hashes:
  assumes "redis_hashes cmd hash" and "f \<in> {''balance'', ''weapon'', ''ammo_type'', ''ammo''}"
  obtains c' where "hset cmd (''HSET %s '' @ f @ '' %s'') u v c = (True, c')"
    and "rc_ctx c' = rc_ctx c"
    and "rhash hash c' = set_field (c_str (user_key u)) f (c_str v) (rhash hash c)"
proof -
  obtain s' n where "hash s' = set_field (c_str (user_key u)) f (c_str v) (rhash hash c)"
    "cmd (rc_server c) (''HSET %s '' @ f @ '' %s'') [c_str (user_key u), c_str v] = (s', Some (RInteger n))"
    using redis_HSET [OF assms] by blast
  then show ?thesis by (intro that [of "c\<lparr>rc_server := s'\<rparr>"]) (simp_all add: hset_def redis_run_def)
qed

lemmas hset_fields =
  hset_hashes [of _ _ "''balance''", simplified]
  hset_hashes [of _ _ "''weapon''", simplified]
  hset_hashes [of _ _ "''ammo_type''", simplified]
  hset_hashes [of _ _ "''ammo''", simplified]

lemma PurchaseWeapon_stores:
  assumes law: "redis_hashes cmd hash" and "rc_ctx c"
  shows "\<exists>c'. PurchaseWeapon cmd u nb wt ma lvl c = (True, c') \<and> rc_ctx c' \<and>
     rhash hash c' = (rhash hash c)(c_str (user_key u) :=
       (rhash hash c (c_str (user_key u)))
         (''balance'' \<mapsto> to_string (sint nb), ''weapon'' \<mapsto> to_string (sint wt),
          ''ammo_type'' \<mapsto> to_string (sint lvl), ''ammo'' \<mapsto> to_string (sint ma)))"
proof -
  obtain c1 where 1: "hset cmd ''HSET %s balance %s'' u (to_string (sint nb)) c = (True, c1)"
    "rc_ctx c1 = rc_ctx c"
    "rhash hash c1 = set_field (c_str (user_key u)) ''balance'' (to_string (sint nb)) (rhash hash c)"
    using hset_fields(1) [OF law] c_str_to_string by metis
  obtain c2 where 2: "hset cmd ''HSET %s weapon %s'' u (to_string (sint wt)) c1 = (True, c2)"
    "rc_ctx c2 = rc_ctx c1"
    "rhash hash c2 = set_field (c_str (user_key u)) ''weapon'' (to_string (sint wt)) (rhash hash c1)"
    using hset_fields(2) [OF law] c_str_to_string by metis
  obtain c3 where 3: "hset cmd ''HSET %s ammo_type %s'' u (to_string (sint lvl)) c2 = (True, c3)"
    "rc_ctx c3 = rc_ctx c2"
    "rhash hash c3 = set_field (c_str (user_key u)) ''ammo_type'' (to_string (sint lvl)) (rhash hash c2)"
    using hset_fields(3) [OF law] c_str_to_string by metis
  obtain c4 where 4: "hset cmd ''HSET %s ammo %s'' u (to_string (sint ma)) c3 = (True, c4)"
    "rc_ctx c4 = rc_ctx c3"
    "rhash hash c4 = set_field (c_str (user_key u)) ''ammo'' (to_string (sint ma)) (rhash hash c3)"
    using hset_fields(4) [OF law] c_str_to_string by metis
  show ?thesis
    using assms(2) 1 2 3 4 by (simp add: PurchaseWeapon_def set_field_def)
qed

lemma GetBalance_reads:
  assumes law: "redis_hashes cmd hash" and "rc_ctx c"
  obtains c' where "rhash hash c' = rhash hash c" "rc_ctx c'"
    "GetBalance cmd u out c = (case rhash hash c (c_str (user_key u)) ''balance'' of
        None \<Rightarrow> Inr (False, out, c')
      | Some v \<Rightarrow> bindr (stoll (c_str v)) (\<lambda>b. Inr (True, b, c')))"
proof -
  obtain s' where s: "hash s' = rhash hash c" "cmd (rc_server c) ''HGET %s balance'' [c_str (user_key u)] =
        (s', Some (case rhash hash c (c_str (user_key u)) ''balance'' of None \<Rightarrow> RNil | Some v \<Rightarrow> RString v))"
    using redis_HGET [OF law] by blast
  show ?thesis
    by (rule that [of "c\<lparr>rc_server := s'\<rparr>"])
       (use s assms(2) in \<open>simp_all add: GetBalance_def redis_run_def split: option.splits\<close>)
qed

section \<open>Reading back\<close>

text \<open>Every field of the hash can be read: its number parses and its name has no zero byte.\<close>

definition readable :: "(string \<Rightarrow> f32 result) \<Rightarrow> (string \<Rightarrow> string option) \<Rightarrow> bool" where
  "readable stof h \<longleftrightarrow> (\<forall>f v. h f = Some v \<longrightarrow>
     c_str f = f \<and> (\<forall>info. \<exists>info'. assign_field stof f (c_str v) info = Inr info'))"

definition int_field :: "(string \<Rightarrow> string option) \<Rightarrow> string \<Rightarrow> i32 \<Rightarrow> i32" where
  "int_field h f dflt = (case h f of None \<Rightarrow> dflt | Some v \<Rightarrow> (case stoi (c_str v) of Inl e \<Rightarrow> dflt | Inr x \<Rightarrow> x))"

lemma assign_field_weapon:
  "assign_field stof f v info = Inr info' \<Longrightarrow>
     pi_weapon info' = (if f = ''weapon'' then projr (stoi v) else pi_weapon info) \<and>
     pi_ammo info' = (if f = ''ammo'' then projr (stoi v) else pi_ammo info)"
  unfolding assign_field_def by (auto simp: bindr_Inr_iff split: if_splits)

lemma assign_fields_readable:
  assumes "distinct (map fst fvs)" "\<And>f v. (f, v) \<in> set fvs \<Longrightarrow> c_str f = f \<and> (\<forall>info. \<exists>info'. assign_field stof f (c_str v) info = Inr info')"
  shows "\<exists>info'. assign_fields stof (concat (map (\<lambda>(f, v). [RString f, RString v]) fvs)) info = Inr info' \<and>
     pi_weapon info' = (case map_of fvs ''weapon'' of None \<Rightarrow> pi_weapon info | Some v \<Rightarrow> projr (stoi (c_str v))) \<and>
     pi_ammo info' = (case map_of fvs ''ammo'' of None \<Rightarrow> pi_ammo info | Some v \<Rightarrow> projr (stoi (c_str v)))"
  using assms
proof (induction fvs arbitrary: info)
  case Nil
  then show ?case by simp
next
  case (Cons fv fvs)
  obtain f v where fv: "fv = (f, v)" by fastforce
  with Cons.prems(2) obtain info1 where f: "c_str f = f" "assign_field stof f (c_str v) info = Inr info1"
    by (metis list.set_intros(1))
  from Cons.IH [of info1] Cons.prems obtain info' where
    "assign_fields stof (concat (map (\<lambda>(f, v). [RString f, RString v]) fvs)) info1 = Inr info'"
    "pi_weapon info' = (case map_of fvs ''weapon'' of None \<Rightarrow> pi_weapon info1 | Some v \<Rightarrow> projr (stoi (c_str v)))"
     "pi_ammo info' = (case map_of fvs ''ammo'' of None \<Rightarrow> pi_ammo info1 | Some v \<Rightarrow> projr (stoi (c_str v)))"
    by auto
  moreover have "f \<notin> fst ` set fvs" using Cons.prems(1) fv by simp
  then have "map_of fvs f = None" by (simp add: map_of_eq_None_iff)
  ultimately show ?case
    using f assign_field_weapon [OF f(2)] by (auto simp: fv reply_str_def split: option.splits)
qed

lemma GetPlayerInfo_reads:
  assumes law: "redis_hashes cmd hash" and "rc_ctx c"
    and "readable stof (rhash hash c (c_str (user_key u)))"
  obtains info c' where "GetPlayerInfo cmd stof u default_info c = Inr (True, info, c')"
    and "rhash hash c' = rhash hash c" and "rc_ctx c'"
    and "pi_weapon info = int_field (rhash hash c (c_str (user_key u))) ''weapon'' 0"
    and "pi_ammo info = int_field (rhash hash c (c_str (user_key u))) ''ammo'' 0"
proof -
  let ?h = "rhash hash c (c_str (user_key u))"
  obtain s' fvs where s: "hash s' = rhash hash c" "distinct (map fst fvs)" "map_of fvs = ?h"
     "cmd (rc_server c) ''HGETALL %s'' [c_str (user_key u)] =
          (s', Some (RArray (concat (map (\<lambda>(f, v). [RString f, RString v]) fvs))))"
    using redis_HGETALL [OF law] by blast
  have "(f, v) \<in> set fvs \<Longrightarrow> c_str f = f \<and> (\<forall>info. \<exists>info'. assign_field stof f (c_str v) info = Inr info')" for f v
    using assms(3) s(2) by (simp add: readable_def flip: s(3))
  note fields = this
  have d: "pi_weapon (default_info\<lparr>pi_userId := u\<rparr>) = 0" "pi_ammo (default_info\<lparr>pi_userId := u\<rparr>) = 0"
    by (simp_all add: default_info_def)
  from assign_fields_readable [OF s(2) fields, where info = "default_info\<lparr>pi_userId := u\<rparr>"]
  obtain info where i: "assign_fields stof (concat (map (\<lambda>(f, v). [RString f, RString v]) fvs)) (default_info\<lparr>pi_userId := u\<rparr>) = Inr info"
     "pi_weapon info = (case ?h ''weapon'' of None \<Rightarrow> 0 | Some v \<Rightarrow> projr (stoi (c_str v)))"
     "pi_ammo info = (case ?h ''ammo'' of None \<Rightarrow> 0 | Some v \<Rightarrow> projr (stoi (c_str v)))"
    unfolding s(3) d by blast
  have "stoi (c_str v) \<noteq> Inl e" if "?h f = Some v" "f \<in> {''weapon'', ''ammo''}" for f v e
    using assms(3) that by (fastforce simp: readable_def assign_field_def bindr_Inr_iff)
  then have "(case ?h f of None \<Rightarrow> 0 | Some v \<Rightarrow> projr (stoi (c_str v))) = int_field ?h f 0"
    if "f \<in> {''weapon'', ''ammo''}" for f
    using that by (force simp: int_field_def split: option.split sum.split)
  with i(2,3) have "pi_weapon info = int_field ?h ''weapon'' 0" "pi_ammo info = int_field ?h ''ammo'' 0"
    by simp_all
  then show ?thesis
    by (rule that [rotated -2, of _ "c\<lparr>rc_server := s'\<rparr>"])
       (use i(1) s(1,4) assms(2) in \<open>simp_all add: GetPlayerInfo_def redis_run_def reply_elements_def\<close>)
qed

lemma SetAmmo_stores:
  assumes "redis_hashes cmd hash" and "rc_ctx c"
  obtains c' where "SetAmmo cmd u n c = (True, c')" "rc_ctx c'"
    "rhash hash c' = set_field (c_str (user_key u)) ''ammo'' (to_string (sint n)) (rhash hash c)"
  using hset_fields(4) [OF assms(1), of u "to_string (sint n)" c] assms(2) c_str_to_string
  by (metis SetAmmo_def)

text \<open>One shot: the ammunition goes down by one when there is a weapon and ammunition.\<close>

lemma ConsumeLobbyAmmo_eq:
  assumes law: "redis_hashes cmd hash" and "rc_ctx c"
    and k: "k = c_str (user_key u)" and "readable stof (rhash hash c k)"
  shows "\<exists>c'. rc_ctx c' \<and>
     (if int_field (rhash hash c k) ''weapon'' 0 = 0 \<or> int_field (rhash hash c k) ''ammo'' 0 \<le>s 0
      then ConsumeLobbyAmmo cmd stof u out c = Inr (False, 0, c') \<and> rhash hash c' = rhash hash c
      else ConsumeLobbyAmmo cmd stof u out c = Inr (True, int_field (rhash hash c k) ''ammo'' 0 - 1, c') \<and>
           rhash hash c' = set_field k ''ammo'' (to_string (sint (int_field (rhash hash c k) ''ammo'' 0 - 1))) (rhash hash c))"
proof -
  from GetPlayerInfo_reads [OF assms(1,2)] assms(4) obtain info c1 where
    1: "GetPlayerInfo cmd stof u default_info c = Inr (True, info, c1)" "rhash hash c1 = rhash hash c" "rc_ctx c1"
     "pi_weapon info = int_field (rhash hash c k) ''weapon'' 0" "pi_ammo info = int_field (rhash hash c k) ''ammo'' 0"
    unfolding k by blast
  obtain c2 where 2: "SetAmmo cmd u (pi_ammo info - 1) c1 = (True, c2)" "rc_ctx c2"
    "rhash hash c2 = set_field k ''ammo'' (to_string (sint (pi_ammo info - 1))) (rhash hash c1)"
    using SetAmmo_stores [OF law 1(3)] unfolding k by blast
  show ?thesis using assms(2) 1 2 by (auto simp: ConsumeLobbyAmmo_def Let_def)
qed

lemma readable_upd:
  assumes "readable stof h" and "c_str f = f"
    and "\<And>info. \<exists>info'. assign_field stof f (c_str v) info = Inr info'"
  shows "readable stof (h(f \<mapsto> v))"
  using assms by (simp add: readable_def)

lemma assign_numbers:
  "assign_field stof ''weapon'' (to_string (sint (n :: i32))) info = Inr (info\<lparr>pi_weapon := n\<rparr>)"
  "assign_field stof ''ammo_type'' (to_string (sint n)) info = Inr (info\<lparr>pi_ammoType := n\<rparr>)"
  "assign_field stof ''ammo'' (to_string (sint n)) info = Inr (info\<lparr>pi_ammo := n\<rparr>)"
  "assign_field stof ''balance'' (to_string (sint (b :: i64))) info = Inr (info\<lparr>pi_balance := b\<rparr>)"
  by (simp_all add: assign_field_def stoi_to_string stoll_to_string)

lemma readable_numbers:
  assumes "readable stof h"
  shows "readable stof (h(''weapon'' \<mapsto> to_string (sint (n :: i32))))"
    and "readable stof (h(''ammo_type'' \<mapsto> to_string (sint n)))"
    and "readable stof (h(''ammo'' \<mapsto> to_string (sint n)))"
    and "readable stof (h(''balance'' \<mapsto> to_string (sint (b :: i64))))"
  using assms by (auto intro!: readable_upd simp: assign_numbers) (simp_all add: c_str_def)

lemma int_field_set [simp]: "int_field (h(f \<mapsto> to_string (sint n))) f d = n"
  by (simp add: int_field_def stoi_to_string)

lemma int_field_other [simp]: "g \<noteq> f \<Longrightarrow> int_field (h(f \<mapsto> v)) g d = int_field h g d"
  by (simp add: int_field_def)

text \<open>A player who fires \<open>n\<close> times: the results of the shots in order.\<close>

fun shots ::
  "'s redis_command \<Rightarrow> (string \<Rightarrow> f32 result) \<Rightarrow> string \<Rightarrow> nat \<Rightarrow> 's redis_client \<Rightarrow> (bool list \<times> 's redis_client) result" where
  "shots cmd stof u 0 c = Inr ([], c)"
| "shots cmd stof u (Suc n) c =
     bindr (ConsumeLobbyAmmo cmd stof u 0 c) (\<lambda>(ok, remaining, c).
     bindr (shots cmd stof u n c) (\<lambda>(oks, c). Inr (ok # oks, c)))"

lemma shots_eq:
  assumes law: "redis_hashes cmd hash" and "rc_ctx c"
    and k: "k = c_str (user_key u)" and "readable stof (rhash hash c k)"
    and "int_field (rhash hash c k) ''weapon'' 0 \<noteq> 0"
    and "sint (int_field (rhash hash c k) ''ammo'' 0) = int a"
  shows "\<exists>c'. shots cmd stof u n c = Inr (replicate (min n a) True @ replicate (n - a) False, c')"
  using assms(2-)
proof (induction n arbitrary: c a)
  case 0
  then show ?case by simp
next
  case (Suc n)
  let ?ammo = "int_field (rhash hash c k) ''ammo'' 0"
  from ConsumeLobbyAmmo_eq [OF law Suc.prems(1,2,3), of 0] obtain c1 where c1: "rc_ctx c1"
     "(if a = 0 then ConsumeLobbyAmmo cmd stof u 0 c = Inr (False, 0, c1) \<and> rhash hash c1 = rhash hash c
      else ConsumeLobbyAmmo cmd stof u 0 c = Inr (True, ?ammo - 1, c1) \<and>
           rhash hash c1 = set_field k ''ammo'' (to_string (sint (?ammo - 1))) (rhash hash c))"
    using Suc.prems(4,5) by (auto simp: word_sle_eq)
  show ?case
  proof (cases a)
    case 0
    with c1 Suc.IH [OF c1(1) Suc.prems(2), of 0] Suc.prems obtain c2 where
      "shots cmd stof u n c1 = Inr (replicate n False, c2)" by auto
    with 0 c1 show ?thesis by simp
  next
    case (Suc a')
    have "0 <s ?ammo" using Suc.prems(5) Suc by (simp add: word_sless_alt)
    then have "sint (?ammo - 1) = int a'" using sint_minus_1 [of ?ammo] Suc.prems(5) Suc by simp
    note ammo = this
    have h: "rhash hash c1 k = (rhash hash c k)(''ammo'' \<mapsto> to_string (sint (?ammo - 1)))"
      using c1 Suc by (simp add: set_field_def)
    have "readable stof (rhash hash c1 k)"
      unfolding h by (intro readable_numbers Suc.prems(3))
    moreover have "int_field (rhash hash c1 k) ''weapon'' 0 \<noteq> 0"
      unfolding h using Suc.prems(4) by simp
    moreover have "sint (int_field (rhash hash c1 k) ''ammo'' 0) = int a'"
      unfolding h int_field_set by (rule ammo)
    ultimately obtain c2 where
      "shots cmd stof u n c1 = Inr (replicate (min n a') True @ replicate (n - a') False, c2)"
      using Suc.IH [OF c1(1) Suc.prems(2), of a'] by blast
    with Suc c1 show ?thesis by simp
  qed
qed

section \<open>Presentable players\<close>

text \<open>What the stored players must be like for the info packet to be built.\<close>

definition text_len :: "(string \<Rightarrow> string option) \<Rightarrow> string \<Rightarrow> nat" where
  "text_len h f = (case h f of None \<Rightarrow> 0 | Some v \<Rightarrow> length (c_str v))"

text \<open>The numbers can be read and the two texts fit in the info packet.\<close>

definition presentable :: "(string \<Rightarrow> f32 result) \<Rightarrow> (string \<Rightarrow> string option) \<Rightarrow> bool" where
  "presentable stof h \<longleftrightarrow> readable stof h \<and> text_len h ''nickname'' + text_len h ''scene'' \<le> 1144"

lemma assign_fields_get:
  assumes "assign_fields stof (concat (map (\<lambda>(f, v). [RString f, RString v]) fvs)) info = Inr info'"
    and "distinct (map fst fvs)" and "\<And>f v. (f, v) \<in> set fvs \<Longrightarrow> c_str f = f"
    and get: "\<And>f v info info'. assign_field stof f v info = Inr info' \<Longrightarrow> get info' = (if f = name then v else get info)"
  shows "get info' = (case map_of fvs name of None \<Rightarrow> get info | Some v \<Rightarrow> c_str v)"
  using assms(1-3)
proof (induction fvs arbitrary: info)
  case (Cons fv fvs)
  obtain f v where fv: "fv = (f, v)" by fastforce
  with Cons.prems(3) have f: "c_str f = f" by (metis list.set_intros(1))
  obtain info1 where 1: "assign_field stof f (c_str v) info = Inr info1"
    "assign_fields stof (concat (map (\<lambda>(f, v). [RString f, RString v]) fvs)) info1 = Inr info'"
    using Cons.prems(1) by (auto simp: fv f reply_str_def bindr_Inr_iff)
  have "get info' = (case map_of fvs name of None \<Rightarrow> get info1 | Some v \<Rightarrow> c_str v)"
    by (rule Cons.IH [OF 1(2)]) (use Cons.prems in auto)
  moreover have "map_of fvs f = None" using Cons.prems(2) by (simp add: fv map_of_eq_None_iff)
  ultimately show ?case using get [OF 1(1)] by (auto simp: fv split: option.split)
qed simp

lemma assign_field_texts:
  "assign_field stof f v info = Inr info' \<Longrightarrow>
     pi_nickname info' = (if f = ''nickname'' then v else pi_nickname info) \<and>
     pi_scene info' = (if f = ''scene'' then v else pi_scene info)"
  unfolding assign_field_def by (auto simp: bindr_Inr_iff split: if_splits)

lemma GetPlayerInfo_fits:
  assumes law: "redis_hashes cmd hash" and "rc_ctx c" and "presentable stof (rhash hash c (c_str (user_key u)))"
  obtains info c' where "GetPlayerInfo cmd stof u default_info c = Inr (True, info, c')"
    and "rhash hash c' = rhash hash c" and "rc_ctx c'" and "length (pi_nickname info) + length (pi_scene info) \<le> 1144"
proof -
  let ?h = "rhash hash c (c_str (user_key u))"
  obtain s' fvs where s: "hash s' = rhash hash c" "distinct (map fst fvs)" "map_of fvs = ?h"
     "cmd (rc_server c) ''HGETALL %s'' [c_str (user_key u)] =
          (s', Some (RArray (concat (map (\<lambda>(f, v). [RString f, RString v]) fvs))))"
    using redis_HGETALL [OF law] by blast
  have fields: "(f, v) \<in> set fvs \<Longrightarrow> c_str f = f \<and> (\<forall>info. \<exists>info'. assign_field stof f (c_str v) info = Inr info')" for f v
    using assms(3) s(2) by (simp add: presentable_def readable_def flip: s(3))
  let ?info = "default_info\<lparr>pi_userId := u\<rparr>"
  from assign_fields_readable [OF s(2) fields, where info = ?info]
  obtain info where i: "assign_fields stof (concat (map (\<lambda>(f, v). [RString f, RString v]) fvs)) ?info = Inr info" by blast
  have names: "(f, v) \<in> set fvs \<Longrightarrow> c_str f = f" for f v using fields by blast
  have "pi_nickname info = (case map_of fvs ''nickname'' of None \<Rightarrow> pi_nickname ?info | Some v \<Rightarrow> c_str v)"
    by (rule assign_fields_get [OF i s(2) names]) (simp_all add: assign_field_texts)
  moreover have "pi_scene info = (case map_of fvs ''scene'' of None \<Rightarrow> pi_scene ?info | Some v \<Rightarrow> c_str v)"
    by (rule assign_fields_get [OF i s(2) names]) (simp_all add: assign_field_texts)
  ultimately have "length (pi_nickname info) + length (pi_scene info) \<le> 1144"
    using assms(3) by (auto simp: s(3) presentable_def text_len_def default_info_def split: option.splits)
  then show ?thesis
    by (rule that [rotated -1, of _ "c\<lparr>rc_server := s'\<rparr>"])
       (use i s(1,4) assms(2) in \<open>simp_all add: GetPlayerInfo_def redis_run_def reply_elements_def\<close>)
qed

text \<open>Storing a number keeps a player presentable.\<close>

lemma text_len_upd [simp]: "g \<noteq> f \<Longrightarrow> text_len (h(f \<mapsto> v)) g = text_len h g"
  by (simp add: text_len_def)

lemma presentable_numbers:
  assumes "presentable stof h"
  shows "presentable stof (h(''weapon'' \<mapsto> to_string (sint (n :: i32))))"
    and "presentable stof (h(''ammo_type'' \<mapsto> to_string (sint n)))"
    and "presentable stof (h(''ammo'' \<mapsto> to_string (sint n)))"
    and "presentable stof (h(''balance'' \<mapsto> to_string (sint (b :: i64))))"
  using assms readable_numbers [of stof h] by (simp_all add: presentable_def)

section \<open>A small Redis\<close>

text \<open>
  A server that keeps its hashes as association lists: it satisfies the promises, so they are not
  empty, and the concrete instances of the theorems run on it.
\<close>

type_synonym small_redis = "(string \<times> (string \<times> string) list) list"

definition small_hash :: "small_redis \<Rightarrow> string \<Rightarrow> string \<Rightarrow> string option" where
  "small_hash s k = (case map_of s k of None \<Rightarrow> Map.empty | Some fvs \<Rightarrow> map_of fvs)"

definition small_fields :: "small_redis \<Rightarrow> string \<Rightarrow> (string \<times> string) list" where
  "small_fields s k = (case map_of s k of None \<Rightarrow> [] | Some fvs \<Rightarrow> AList.clearjunk fvs)"

text \<open>The field name in an \<^verbatim>\<open>HSET\<close> format.\<close>

definition hset_field :: "string \<Rightarrow> string" where
  "hset_field fmt = takeWhile (\<lambda>c. c \<noteq> CHR '' '') (drop 8 fmt)"

definition small_cmd :: "small_redis redis_command" where
  "small_cmd s fmt args =
     (case args of
        [k] \<Rightarrow>
          if fmt = ''HGETALL %s''
          then (s, Some (RArray (concat (map (\<lambda>(f, v). [RString f, RString v]) (small_fields s k)))))
          else if fmt = ''HGET %s balance''
          then (s, Some (case small_hash s k ''balance'' of None \<Rightarrow> RNil | Some v \<Rightarrow> RString v))
          else (s, Some (RError fmt))
      | [k, v] \<Rightarrow>
          (AList.update k (AList.update (hset_field fmt) v (small_fields s k)) s, Some (RInteger 1))
      | _ \<Rightarrow> (s, Some (RError fmt)))"

lemma small_fields_hash: "map_of (small_fields s k) = small_hash s k"
  by (simp add: small_fields_def small_hash_def map_of_clearjunk split: option.split)

lemma small_redis_hashes: "redis_hashes small_cmd small_hash"
  unfolding redis_hashes_def
proof (intro conjI allI impI)
  fix s k
  show "\<exists>s'. small_hash s' = small_hash s \<and> small_cmd s ''HGET %s balance'' [k] =
        (s', Some (case small_hash s k ''balance'' of None \<Rightarrow> RNil | Some v \<Rightarrow> RString v))"
    by (simp add: small_cmd_def)
  show "\<exists>s' fvs. small_hash s' = small_hash s \<and> distinct (map fst fvs) \<and> map_of fvs = small_hash s k \<and>
        small_cmd s ''HGETALL %s'' [k] =
          (s', Some (RArray (concat (map (\<lambda>(f, v). [RString f, RString v]) fvs))))"
    by (intro exI [of _ s] exI [of _ "small_fields s k"])
       (auto simp: small_cmd_def small_fields_hash, simp add: small_fields_def distinct_clearjunk split: option.split)
next
  fix s k f v
  assume "f \<in> {''balance'', ''weapon'', ''ammo_type'', ''ammo''}"
  then have "hset_field (''HSET %s '' @ f @ '' %s'') = f" by (auto simp: hset_field_def)
  then show "\<exists>s' n. small_hash s' = set_field k f v (small_hash s) \<and>
           small_cmd s (''HSET %s '' @ f @ '' %s'') [k, v] = (s', Some (RInteger n))"
    by (simp add: small_cmd_def) 
      (auto simp: fun_eq_iff small_hash_def set_field_def AList.update_conv' small_fields_hash)
qed

end
