(* ===== verification/Packets.thy ===== *)
theory Packets
  imports Buffers RedisClient
begin

text \<open>
  The UDP packets: the identifiers of \<^verbatim>\<open>GameServer/packetTypes.h\<close>, the packed header of
  \<^verbatim>\<open>ServerCore/UdpSession.h\<close> and the packet builders of \<^verbatim>\<open>UdpServerPacketHandler.cpp\<close>. The lemmas
  give the exact bytes of every packet, and for the two packets with strings in them the length at
  which the builder writes past its buffer.
\<close>

section \<open>Packet types and header\<close>

datatype packet_type =
    C_LOGIN | S_LOGIN | C_REGISTER | S_REGISTER
  | C_GET_ROOM_LIST | S_GET_ROOM_LIST | C_CREATE_ROOM | S_CREATE_ROOM | C_JOIN_ROOM | S_JOIN_ROOM
  | C_LEAVE_ROOM | S_LEAVE_ROOM | C_START_GAME | S_START_GAME | C_BET_ACTION | S_BET_TURN
  | S_BET_RESULT | S_OPEN_COMMUNITY_CARDS | S_GAME_RESULT | S_NOTICE
  | C_UDP_HELLO | C_LOBBY_MOVE | C_LOBBY_HEARTBEAT | C_PURCHASE_WEAPON | C_GUN_SHOT_LOBBY
  | S_UDP_HANDSHAKE_ACK | S_LOBBY_PLAYER_MOVE | S_LOBBY_PLAYER_LEAVE | S_PLAYER_INFO
  | S_PURCHASE_WEAPON_RESULT

fun packet_id :: "packet_type \<Rightarrow> u16" where
  "packet_id C_LOGIN = 100" | "packet_id S_LOGIN = 101"
| "packet_id C_REGISTER = 102" | "packet_id S_REGISTER = 103"
| "packet_id C_GET_ROOM_LIST = 200" | "packet_id S_GET_ROOM_LIST = 201"
| "packet_id C_CREATE_ROOM = 202" | "packet_id S_CREATE_ROOM = 203"
| "packet_id C_JOIN_ROOM = 204" | "packet_id S_JOIN_ROOM = 205"
| "packet_id C_LEAVE_ROOM = 206" | "packet_id S_LEAVE_ROOM = 207"
| "packet_id C_START_GAME = 208" | "packet_id S_START_GAME = 209"
| "packet_id C_BET_ACTION = 210" | "packet_id S_BET_TURN = 211"
| "packet_id S_BET_RESULT = 212" | "packet_id S_OPEN_COMMUNITY_CARDS = 213"
| "packet_id S_GAME_RESULT = 214" | "packet_id S_NOTICE = 215"
| "packet_id C_UDP_HELLO = 300" | "packet_id C_LOBBY_MOVE = 301"
| "packet_id C_LOBBY_HEARTBEAT = 302" | "packet_id C_PURCHASE_WEAPON = 303"
| "packet_id C_GUN_SHOT_LOBBY = 305"
| "packet_id S_UDP_HANDSHAKE_ACK = 350" | "packet_id S_LOBBY_PLAYER_MOVE = 352"
| "packet_id S_LOBBY_PLAYER_LEAVE = 353" | "packet_id S_PLAYER_INFO = 354"
| "packet_id S_PURCHASE_WEAPON_RESULT = 355"

record udp_packet_header =
  ph_sessionId :: u64
  ph_sequence :: u32
  ph_id :: u16

definition UDP_HEADER_SIZE :: nat where "UDP_HEADER_SIZE = 14"
definition UDP_MAX_PAYLOAD :: u32 where "UDP_MAX_PAYLOAD = 1200"
definition UDP_MAX_PACKET :: u32 where "UDP_MAX_PACKET = of_nat UDP_HEADER_SIZE + UDP_MAX_PAYLOAD"

definition load_header :: "byte list \<Rightarrow> udp_packet_header result" where
  "load_header buf =
     bindr (load_at 0 8 buf) (\<lambda>sid.
     bindr (load_at 8 4 buf) (\<lambda>sq.
     bindr (load_at 12 2 buf) (\<lambda>pid.
       Inr \<lparr>ph_sessionId = dec_u64 sid, ph_sequence = dec_u32 sq, ph_id = dec_u16 pid\<rparr>)))"

definition store_header ::
  "nat option \<Rightarrow> u64 \<Rightarrow> u32 \<Rightarrow> u16 \<Rightarrow> buffer_writer \<Rightarrow> buffer_writer result" where
  "store_header header sid sq pid bw =
     bindr (bw_poke header 0 (enc_u64 sid) bw) (\<lambda>bw.
     bindr (bw_poke header 8 (enc_u32 sq) bw)
           (bw_poke header 12 (enc_u16 pid)))"

section \<open>Builders\<close>

text \<open>
  The frame all builders share: a zeroed buffer, a writer on it, the reserved header; the payload
  writes \<open>body\<close>; then the header fields and the write size.
\<close>

definition with_packet ::
  "(buffer_writer \<Rightarrow> buffer_writer result) \<Rightarrow> u64 \<Rightarrow> packet_type \<Rightarrow> send_buffer result" where
  "with_packet body sid ptype =
     (let buf = SendBuffer UDP_MAX_PACKET;
          bw = BufferWriter (sb_buffer buf) (sb_AllocSize buf) 0;
          (header, bw) = bw_Reserve UDP_HEADER_SIZE bw
      in bindr (body bw) (\<lambda>bw.
         bindr (store_header header sid 0 (packet_id ptype) bw) (\<lambda>bw.
         Inr (sb_SetWriteSize (bw_pos bw) (buf\<lparr>sb_buffer := bw_buffer bw\<rparr>)))))"

definition Make_S_UDP_HANDSHAKE_ACK :: "u64 \<Rightarrow> send_buffer result" where
  "Make_S_UDP_HANDSHAKE_ACK sessionId =
     with_packet (bw_shift (enc_u64 sessionId)) sessionId S_UDP_HANDSHAKE_ACK"

definition Make_S_LOBBY_PLAYER_LEAVE :: "u64 \<Rightarrow> send_buffer result" where
  "Make_S_LOBBY_PLAYER_LEAVE leftSessionId =
     with_packet (bw_shift (enc_u64 leftSessionId)) 0 S_LOBBY_PLAYER_LEAVE"

text \<open>A string goes out as its length cut to 16 bits, then that many of its bytes.\<close>

definition bw_string :: "string \<Rightarrow> buffer_writer \<Rightarrow> buffer_writer result" where
  "bw_string str bw =
     (let len = (of_nat (length str) :: u16)
      in bindr (bw_shift (enc_u16 len) bw) (bw_shift_each (take (unat len) (bytes_of str))))"

definition Make_S_LOBBY_PLAYER_MOVE ::
  "u64 \<Rightarrow> string \<Rightarrow> f32 \<Rightarrow> f32 \<Rightarrow> f32 \<Rightarrow> f32 \<Rightarrow> byte \<Rightarrow> send_buffer result" where
  "Make_S_LOBBY_PLAYER_MOVE moverSessionId userId posX posY posZ rot animState =
     with_packet (\<lambda>bw.
       bindr (bw_shift (enc_u64 moverSessionId) bw) (\<lambda>bw.
       bindr (bw_shift (enc_u32 posX) bw) (\<lambda>bw.
       bindr (bw_shift (enc_u32 posY) bw) (\<lambda>bw.
       bindr (bw_shift (enc_u32 posZ) bw) (\<lambda>bw.
       bindr (bw_shift (enc_u32 rot) bw) (\<lambda>bw.
       bindr (bw_shift (enc_u8 animState) bw) (\<lambda>bw.
       bw_string userId bw))))))) moverSessionId S_LOBBY_PLAYER_MOVE"

definition Make_S_PLAYER_INFO :: "u64 \<Rightarrow> player_redis_info \<Rightarrow> send_buffer result" where
  "Make_S_PLAYER_INFO sessionId info =
     with_packet (\<lambda>bw.
       bindr (bw_shift (enc_u64 sessionId) bw) (\<lambda>bw.
       bindr (bw_shift (enc_u32 (pi_hp info)) bw) (\<lambda>bw.
       bindr (bw_shift (enc_u64 (pi_balance info)) bw) (\<lambda>bw.
       bindr (bw_shift (enc_u32 (pi_charType info)) bw) (\<lambda>bw.
       bindr (bw_shift (enc_u32 (pi_posX info)) bw) (\<lambda>bw.
       bindr (bw_shift (enc_u32 (pi_posY info)) bw) (\<lambda>bw.
       bindr (bw_shift (enc_u32 (pi_posZ info)) bw) (\<lambda>bw.
       bindr (bw_shift (enc_u32 (pi_rot info)) bw) (\<lambda>bw.
       bindr (bw_shift (enc_u32 (pi_weapon info)) bw) (\<lambda>bw.
       bindr (bw_shift (enc_u32 (pi_ammoType info)) bw) (\<lambda>bw.
       bindr (bw_shift (enc_u32 (pi_ammo info)) bw) (\<lambda>bw.
       bindr (bw_string (pi_nickname info) bw) (\<lambda>bw.
       bw_string (pi_scene info) bw)))))))))))) ) sessionId S_PLAYER_INFO"

definition Make_S_BUY_WEAPON_RESULT :: "u64 \<Rightarrow> bool \<Rightarrow> i32 \<Rightarrow> i64 \<Rightarrow> send_buffer result" where
  "Make_S_BUY_WEAPON_RESULT sessionId success weaponType balance =
     with_packet (\<lambda>bw.
       bindr (bw_shift (enc_u64 sessionId) bw) (\<lambda>bw.
       bindr (bw_shift (enc_u8 (if success then 1 else 0)) bw) (\<lambda>bw.
       bindr (bw_shift (enc_u32 weaponType) bw) (\<lambda>bw.
       bw_shift (enc_u64 balance) bw)))) sessionId S_PURCHASE_WEAPON_RESULT"

section \<open>The bytes of a packet\<close>

definition header_bytes :: "u64 \<Rightarrow> u32 \<Rightarrow> u16 \<Rightarrow> byte list" where
  "header_bytes sid sq pid = enc_u64 sid @ enc_u32 sq @ enc_u16 pid"

definition string_bytes :: "string \<Rightarrow> byte list" where
  "string_bytes str = enc_u16 (of_nat (length str)) @ take (length str mod 2 ^ 16) (bytes_of str)"

definition move_bytes ::
  "u64 \<Rightarrow> string \<Rightarrow> f32 \<Rightarrow> f32 \<Rightarrow> f32 \<Rightarrow> f32 \<Rightarrow> byte \<Rightarrow> byte list" where
  "move_bytes sid userId x y z rot anim =
     enc_u64 sid @ enc_u32 x @ enc_u32 y @ enc_u32 z @ enc_u32 rot @ enc_u8 anim @ string_bytes userId"

definition info_bytes :: "u64 \<Rightarrow> player_redis_info \<Rightarrow> byte list" where
  "info_bytes sid info =
     enc_u64 sid @ enc_u32 (pi_hp info) @ enc_u64 (pi_balance info) @ enc_u32 (pi_charType info) @
     enc_u32 (pi_posX info) @ enc_u32 (pi_posY info) @ enc_u32 (pi_posZ info) @ enc_u32 (pi_rot info) @
     enc_u32 (pi_weapon info) @ enc_u32 (pi_ammoType info) @ enc_u32 (pi_ammo info) @
     string_bytes (pi_nickname info) @ string_bytes (pi_scene info)"

definition buy_bytes :: "u64 \<Rightarrow> bool \<Rightarrow> i32 \<Rightarrow> i64 \<Rightarrow> byte list" where
  "buy_bytes sid ok t b = enc_u64 sid @ enc_u8 (if ok then 1 else 0) @ enc_u32 t @ enc_u64 b"

lemma length_header_bytes [simp, size_simps]: "length (header_bytes sid sq pid) = 14"
  by (simp add: header_bytes_def)

lemma store_header_filled:
  assumes "14 + length bs \<le> cap"
  shows "store_header (Some 0) sid sq pid (filled cap (replicate 14 0 @ bs)) =
           Inr (filled cap (header_bytes sid sq pid @ bs))"
proof -
  have a: "blit 0 (enc_u64 sid) (replicate 14 0 @ bs) = enc_u64 sid @ replicate 6 0 @ bs"
    by (simp add: blit_def)
  have b: "blit 8 (enc_u32 sq) (enc_u64 sid @ replicate 6 0 @ bs) = enc_u64 sid @ enc_u32 sq @ replicate 2 0 @ bs"
    by (simp add: blit_def)
  have c: "blit 12 (enc_u16 pid) (enc_u64 sid @ enc_u32 sq @ replicate 2 0 @ bs) = header_bytes sid sq pid @ bs"
    by (simp add: blit_def header_bytes_def)
  show ?thesis using assms by (simp add: store_header_def bw_poke_filled a b c)
qed

lemma unat_UDP_MAX_PACKET [simp]: "unat UDP_MAX_PACKET = 1214"
  by (simp add: UDP_MAX_PACKET_def UDP_HEADER_SIZE_def UDP_MAX_PAYLOAD_def)

lemma sb_finish: "sb_SetWriteSize n (buf\<lparr>sb_buffer := bs\<rparr>) = \<lparr>sb_buffer = bs, sb_writeSize = n\<rparr>"
  by (cases buf) (simp add: sb_SetWriteSize_def)

lemma with_packet_eq:
  assumes "writes body bs"
  shows "with_packet body sid t =
     (if length bs \<le> 1200
      then Inr \<lparr>sb_buffer = bw_buffer (filled 1214 (header_bytes sid 0 (packet_id t) @ bs)),
                sb_writeSize = bw_pos (filled 1214 (header_bytes sid 0 (packet_id t) @ bs))\<rparr>
      else Inl OutOfBounds)"
  using bw_Reserve_filled [of "[]" 14 1214] writesD [OF assms, of "replicate 14 0" 1214]
  by (simp add: with_packet_def BufferWriter_fresh UDP_HEADER_SIZE_def store_header_filled sb_finish)

lemma with_packet_wire:
  assumes "writes body bs"
  shows "bindr (with_packet body sid t) sb_wire =
    (if length bs \<le> 1200 then Inr (header_bytes sid 0 (packet_id t) @ bs) else Inl OutOfBounds)"
  by (simp add: with_packet_eq [OF assms] sb_wire_filled)

lemma writes_string: "writes (bw_string str) (string_bytes str)"
proof -
  have "unat (of_nat (length str) :: u16) = length str mod 2 ^ 16" by (simp add: unat_of_nat)
  then show ?thesis
    unfolding bw_string_def Let_def string_bytes_def
    by (simp add: writes_bind writes_shift writes_shift_each del: power_Suc)
qed

lemma length_string_bytes [size_simps]: "length (string_bytes s) = 2 + length s mod 2 ^ 16"
  by (simp add: string_bytes_def)

lemma writes_move:
  "writes (\<lambda>bw.
       bindr (bw_shift (enc_u64 sid) bw) (\<lambda>bw.
       bindr (bw_shift (enc_u32 x) bw) (\<lambda>bw.
       bindr (bw_shift (enc_u32 y) bw) (\<lambda>bw.
       bindr (bw_shift (enc_u32 z) bw) (\<lambda>bw.
       bindr (bw_shift (enc_u32 rot) bw) (\<lambda>bw.
       bindr (bw_shift (enc_u8 anim) bw) (\<lambda>bw.
       bw_string userId bw))))))) (move_bytes sid userId x y z rot anim)"
  unfolding move_bytes_def by (intro writes_bind writes_shift writes_string)

lemma writes_info:
  "writes (\<lambda>bw.
       bindr (bw_shift (enc_u64 sid) bw) (\<lambda>bw.
       bindr (bw_shift (enc_u32 (pi_hp info)) bw) (\<lambda>bw.
       bindr (bw_shift (enc_u64 (pi_balance info)) bw) (\<lambda>bw.
       bindr (bw_shift (enc_u32 (pi_charType info)) bw) (\<lambda>bw.
       bindr (bw_shift (enc_u32 (pi_posX info)) bw) (\<lambda>bw.
       bindr (bw_shift (enc_u32 (pi_posY info)) bw) (\<lambda>bw.
       bindr (bw_shift (enc_u32 (pi_posZ info)) bw) (\<lambda>bw.
       bindr (bw_shift (enc_u32 (pi_rot info)) bw) (\<lambda>bw.
       bindr (bw_shift (enc_u32 (pi_weapon info)) bw) (\<lambda>bw.
       bindr (bw_shift (enc_u32 (pi_ammoType info)) bw) (\<lambda>bw.
       bindr (bw_shift (enc_u32 (pi_ammo info)) bw) (\<lambda>bw.
       bindr (bw_string (pi_nickname info) bw) (\<lambda>bw.
       bw_string (pi_scene info) bw))))))))))))) (info_bytes sid info)"
  unfolding info_bytes_def by (intro writes_bind writes_shift writes_string)

lemma writes_buy:
  "writes (\<lambda>bw.
       bindr (bw_shift (enc_u64 sid) bw) (\<lambda>bw.
       bindr (bw_shift (enc_u8 (if ok then 1 else 0)) bw) (\<lambda>bw.
       bindr (bw_shift (enc_u32 t) bw) (\<lambda>bw.
       bw_shift (enc_u64 b) bw)))) (buy_bytes sid ok t b)"
  unfolding buy_bytes_def by (intro writes_bind writes_shift)

text \<open>A packet is the buffer of a filled writer, so what is sent is header and payload.\<close>

definition packet_of :: "u64 \<Rightarrow> packet_type \<Rightarrow> byte list \<Rightarrow> send_buffer" where
  "packet_of sid t bs =
     \<lparr>sb_buffer = bw_buffer (filled 1214 (header_bytes sid 0 (packet_id t) @ bs)),
      sb_writeSize = bw_pos (filled 1214 (header_bytes sid 0 (packet_id t) @ bs))\<rparr>"

lemma sb_wire_packet_of [simp]:
  "length bs \<le> 1200 \<Longrightarrow> sb_wire (packet_of sid t bs) = Inr (header_bytes sid 0 (packet_id t) @ bs)"
  by (simp add: packet_of_def sb_wire_filled)

lemma Make_ack_eq: "Make_S_UDP_HANDSHAKE_ACK sid = Inr (packet_of sid S_UDP_HANDSHAKE_ACK (enc_u64 sid))"
  by (simp add: Make_S_UDP_HANDSHAKE_ACK_def with_packet_eq [OF writes_shift] packet_of_def)

lemma Make_leave_eq: "Make_S_LOBBY_PLAYER_LEAVE sid = Inr (packet_of 0 S_LOBBY_PLAYER_LEAVE (enc_u64 sid))"
  by (simp add: Make_S_LOBBY_PLAYER_LEAVE_def with_packet_eq [OF writes_shift] packet_of_def)

lemma length_buy_bytes [simp]: "length (buy_bytes sid ok t b) = 21"
  by (simp add: buy_bytes_def)

lemma Make_buy_eq:
  "Make_S_BUY_WEAPON_RESULT sid ok t b =
     Inr (packet_of sid S_PURCHASE_WEAPON_RESULT (buy_bytes sid ok t b))"
  by (simp add: Make_S_BUY_WEAPON_RESULT_def with_packet_eq [OF writes_buy] packet_of_def)

lemma length_move_bytes:
  "length (move_bytes sid userId x y z rot anim) = 27 + length userId mod 2 ^ 16"
  by (simp add: move_bytes_def size_simps)

lemma Make_move_eq:
  "Make_S_LOBBY_PLAYER_MOVE sid userId x y z rot anim =
     (if length userId mod 2 ^ 16 \<le> 1173
      then Inr (packet_of sid S_LOBBY_PLAYER_MOVE (move_bytes sid userId x y z rot anim))
      else Inl OutOfBounds)"
  by (simp add: Make_S_LOBBY_PLAYER_MOVE_def with_packet_eq [OF writes_move] packet_of_def
        length_move_bytes)

lemma length_info_bytes:
  "length (info_bytes sid info) =
     56 + length (pi_nickname info) mod 2 ^ 16 + length (pi_scene info) mod 2 ^ 16"
  by (simp add: info_bytes_def size_simps)

lemma Make_info_eq:
  "Make_S_PLAYER_INFO sid info =
     (if length (pi_nickname info) mod 2 ^ 16 + length (pi_scene info) mod 2 ^ 16 \<le> 1144
      then Inr (packet_of sid S_PLAYER_INFO (info_bytes sid info)) else Inl OutOfBounds)"
  by (simp add: Make_S_PLAYER_INFO_def with_packet_eq [OF writes_info] packet_of_def length_info_bytes)

lemma load_header_bytes:
  "load_header (header_bytes sid sq pid @ rest) =
     Inr \<lparr>ph_sessionId = sid, ph_sequence = sq, ph_id = pid\<rparr>"
  by (simp add: load_header_def header_bytes_def load_at_def)

section \<open>Properties\<close>

text \<open>
  The acknowledgement, leave and purchase-result packets are always built inside the
  buffer, and what is sent is the packed header followed by the documented payload: 8, 8 and 21
  bytes.
\<close>

theorem fixed_packets_wire:
  "bindr (Make_S_UDP_HANDSHAKE_ACK sid) sb_wire = Inr (header_bytes sid 0 350 @ enc_u64 sid) \<and>
   bindr (Make_S_LOBBY_PLAYER_LEAVE sid) sb_wire = Inr (header_bytes 0 0 353 @ enc_u64 sid) \<and>
   bindr (Make_S_BUY_WEAPON_RESULT sid ok t b) sb_wire =
     Inr (header_bytes sid 0 355 @ enc_u64 sid @ enc_u8 (if ok then 1 else 0) @ enc_u32 t @ enc_u64 b)"
  by (intro conjI; simp add: Make_ack_eq Make_leave_eq Make_buy_eq; simp add: buy_bytes_def)

text \<open>
  The player-info packet is the header and the documented fields when nickname and scene (each
  cut to 16 bits of length) have at most 1144 bytes together, and is built by writing past the end
  of its 1214-byte buffer when they have more: \<^verbatim>\<open>BufferWriter\<close> does not check.
\<close>

theorem player_info_wire:
  "bindr (Make_S_PLAYER_INFO sid info) sb_wire =
     (if length (pi_nickname info) mod 2 ^ 16 + length (pi_scene info) mod 2 ^ 16 \<le> 1144
      then Inr (header_bytes sid 0 354 @ info_bytes sid info) else Inl OutOfBounds)"
  by (simp add: Make_info_eq length_info_bytes)

text \<open>
  C31: A client that reads a relayed move with the server's own reader gets back the mover's
  session, the four floats bit for bit, the animation state, and the user name as its length and
  bytes, for every user name the packet has room for.
\<close>

theorem move_packet_roundtrip:
  assumes "length userId \<le> 1173"
  shows "\<exists>wire. bindr (Make_S_LOBBY_PLAYER_MOVE sid userId x y z rot anim) sb_wire = Inr wire \<and>
     load_header wire = Inr \<lparr>ph_sessionId = sid, ph_sequence = 0, ph_id = 352\<rparr> \<and>
     bindr (br_shift dec_u64 8 (BufferReader wire (of_nat (length wire)) 14)) (\<lambda>(sid', r).
     bindr (br_shift dec_u32 4 r) (\<lambda>(x', r).
     bindr (br_shift dec_u32 4 r) (\<lambda>(y', r).
     bindr (br_shift dec_u32 4 r) (\<lambda>(z', r).
     bindr (br_shift dec_u32 4 r) (\<lambda>(rot', r).
     bindr (br_shift dec_u8 1 r) (\<lambda>(anim', r).
     bindr (br_shift dec_u16 2 r) (\<lambda>(len, r).
     bindr (br_load (unat len) r) (\<lambda>bs.
       Inr (sid', x', y', z', rot', anim', string_of bs))))))))) =
     Inr (sid, x, y, z, rot, anim, userId)"
proof -
  let ?wire = "header_bytes sid 0 352 @ move_bytes sid userId x y z rot anim"
  define r0 where "r0 = BufferReader ?wire (of_nat (length ?wire)) 14"
  have len: "length userId mod 2 ^ 16 = length userId" "unat (of_nat (length userId) :: u16) = length userId"
    using assms by (simp_all add: unat_of_nat)
  have "ahead r0 (enc_u64 sid @ enc_u32 x @ enc_u32 y @ enc_u32 z @ enc_u32 rot @ enc_u8 anim @
          enc_u16 (of_nat (length userId)) @ bytes_of userId)"
    using assms len by (simp add: r0_def ahead_def BufferReader_def move_bytes_def string_bytes_def)
  note a1 = this and a2 = wu64.ahead_enc [OF this]
  note a3 = wu32.ahead_enc [OF a2]
  note a4 = wu32.ahead_enc [OF a3]
  note a5 = wu32.ahead_enc [OF a4]
  note a6 = wu32.ahead_enc [OF a5]
  note a7 = wu8.ahead_enc [OF a6]
  note a8 = wu16.ahead_enc [OF a7]
  note reads = wu64.br_shift_enc [OF a1] wu32.br_shift_enc [OF a2] wu32.br_shift_enc [OF a3]
    wu32.br_shift_enc [OF a4] wu32.br_shift_enc [OF a5] wu8.br_shift_enc [OF a6] wu16.br_shift_enc [OF a7]
  have "br_load (length userId) (advance (advance (advance (advance (advance (advance (advance
          r0 8) 4) 4) 4) 4) 1) 2) = Inr (bytes_of userId)"
    using a8 by (intro br_load_ahead [where rest = "[]"]) simp_all
  then show ?thesis
    using assms len reads
    by (intro exI [of _ ?wire], fold r0_def)
      (simp add: Make_move_eq length_move_bytes load_header_bytes del: One_nat_def)
qed

theorem move_packet_roundtrip_witness:
  "\<exists>wire. bindr (Make_S_LOBBY_PLAYER_MOVE 3 ''ann'' 1 2 3 4 5) sb_wire = Inr wire \<and>
     load_header wire = Inr \<lparr>ph_sessionId = 3, ph_sequence = 0, ph_id = 352\<rparr>"
  using move_packet_roundtrip [of "''ann''" 3 1 2 3 4 5] by auto

end
