(* ===== verification/NetAddress.thy ===== *)
theory NetAddress
  imports Prelude
begin

unbundle bit_operations_syntax

text \<open>
  Socket addresses: \<^verbatim>\<open>SOCKADDR_IN\<close> with the fields the server reads, and \<^verbatim>\<open>ServerCore/NetAddress\<close>.
  The port is held in network byte order, as in the socket API. The conversions between text and
  \<^verbatim>\<open>IN_ADDR\<close> (\<^verbatim>\<open>InetPtonW\<close>, \<^verbatim>\<open>InetNtopW\<close>) are Windows functions and are parameters; \<^verbatim>\<open>Ip2Address\<close>
  ignores the result of \<^verbatim>\<open>InetPtonW\<close>, so a text that is no address leaves the stack value
  \<open>uninit\<close> in the result.
\<close>

record sockaddr_in =
  sin_family :: u16
  sin_port :: u16
  sin_addr :: u32

definition AF_INET :: u16 where "AF_INET = 2"

definition htons :: "u16 \<Rightarrow> u16" where
  "htons w = push_bit 8 w OR drop_bit 8 w"

definition ntohs :: "u16 \<Rightarrow> u16" where
  "ntohs w = push_bit 8 w OR drop_bit 8 w"

definition NetAddress_of_sockaddr :: "sockaddr_in \<Rightarrow> sockaddr_in" where
  "NetAddress_of_sockaddr a = a"

definition Ip2Address :: "(string \<Rightarrow> u32 option) \<Rightarrow> u32 \<Rightarrow> string \<Rightarrow> u32" where
  "Ip2Address inet_pton uninit ip = (case inet_pton ip of None \<Rightarrow> uninit | Some a \<Rightarrow> a)"

definition NetAddress_of_text ::
  "(string \<Rightarrow> u32 option) \<Rightarrow> u32 \<Rightarrow> string \<Rightarrow> u16 \<Rightarrow> sockaddr_in" where
  "NetAddress_of_text inet_pton uninit ip port =
     \<lparr>sin_family = AF_INET, sin_port = htons port, sin_addr = Ip2Address inet_pton uninit ip\<rparr>"

definition GetIpAddress :: "(u32 \<Rightarrow> string) \<Rightarrow> sockaddr_in \<Rightarrow> string" where
  "GetIpAddress inet_ntop a = inet_ntop (sin_addr a)"

definition GetPort :: "sockaddr_in \<Rightarrow> u16" where
  "GetPort a = ntohs (sin_port a)"

lemma ntohs_htons [simp]: "ntohs (htons w) = w"
  unfolding ntohs_def htons_def
  by (rule bit_word_eqI) (auto simp add: bit_simps)

end
