(* ===== verification/UdpService.thy ===== *)
theory UdpService
  imports NetAddress Buffers "HOL-Library.AList"
begin

unbundle bit_operations_syntax

text \<open>
  \<^verbatim>\<open>ServerCore/UdpService\<close>: the table of UDP clients. A client context is shared by the two hash
  maps and by the handlers (\<^verbatim>\<open>shared_ptr\<close>), so contexts live in a store \<open>us_ctxs\<close> and the maps hold
  references; an allocation takes the next unused reference. A hash map is an association list
  without repeated keys; \<^verbatim>\<open>unordered_map\<close> promises no iteration order, and no property below
  depends on the one the list gives. \<open>us_sent\<close> is the sequence of datagrams handed to
  \<^verbatim>\<open>WSASendTo\<close> with their destination. \<open>now\<close> is the value of \<^verbatim>\<open>GetTickCount64\<close>.
\<close>

type_synonym ctxref = nat

record udp_client_context =
  ctx_sessionId :: u64
  ctx_addr :: sockaddr_in
  ctx_lastSeq :: u32
  ctx_lastAliveMs :: i64
  ctx_userId :: string

record udp_service =
  us_ctxs :: "ctxref \<Rightarrow> udp_client_context"
  us_nextRef :: ctxref
  us_idMap :: "(u64 \<times> ctxref) list"
  us_addrMap :: "(u32 \<times> ctxref) list"
  us_sCounter :: u64
  us_sent :: "(sockaddr_in \<times> byte list) list"

definition null_addr :: sockaddr_in where
  "null_addr = \<lparr>sin_family = 0, sin_port = 0, sin_addr = 0\<rparr>"

definition fresh_context :: udp_client_context where
  "fresh_context = \<lparr>ctx_sessionId = 0, ctx_addr = null_addr, ctx_lastSeq = 0,
                    ctx_lastAliveMs = 0, ctx_userId = []\<rparr>"

definition udp_service_init :: udp_service where
  "udp_service_init = \<lparr>us_ctxs = (\<lambda>_. fresh_context), us_nextRef = 0, us_idMap = [],
                       us_addrMap = [], us_sCounter = 1, us_sent = []\<rparr>"

definition SESSION_TIMEOUT_MS :: i64 where "SESSION_TIMEOUT_MS = 10000"

definition SockAddrKey :: "sockaddr_in \<Rightarrow> u32" where
  "SockAddrKey a = sin_addr a XOR ucast (sin_port a)"

section \<open>Operations\<close>

definition upd_ctx ::
  "ctxref \<Rightarrow> (udp_client_context \<Rightarrow> udp_client_context) \<Rightarrow> udp_service \<Rightarrow> udp_service" where
  "upd_ctx r f s = s\<lparr>us_ctxs := (us_ctxs s)(r := f (us_ctxs s r))\<rparr>"

definition GenerateSessionId :: "udp_service \<Rightarrow> u64 \<times> udp_service" where
  "GenerateSessionId s = (us_sCounter s, s\<lparr>us_sCounter := us_sCounter s + 1\<rparr>)"

definition RegisterClient :: "i64 \<Rightarrow> sockaddr_in \<Rightarrow> udp_service \<Rightarrow> ctxref \<times> udp_service" where
  "RegisterClient now a s =
     (let key = SockAddrKey a in
      case map_of (us_addrMap s) key of
        Some r \<Rightarrow> (r, upd_ctx r (\<lambda>c. c\<lparr>ctx_lastAliveMs := now\<rparr>) s)
      | None \<Rightarrow>
          let r = us_nextRef s;
              (sid, s) = GenerateSessionId s;
              ctx = fresh_context\<lparr>ctx_sessionId := sid, ctx_addr := a, ctx_lastAliveMs := now\<rparr>
          in (r, s\<lparr>us_ctxs := (us_ctxs s)(r := ctx), us_nextRef := Suc r,
                   us_idMap := AList.update sid r (us_idMap s),
                   us_addrMap := AList.update key r (us_addrMap s)\<rparr>))"

definition RemoveClient :: "u64 \<Rightarrow> udp_service \<Rightarrow> udp_service" where
  "RemoveClient sid s =
     (case map_of (us_idMap s) sid of
        None \<Rightarrow> s
      | Some r \<Rightarrow>
          let key = SockAddrKey (ctx_addr (us_ctxs s r))
          in s\<lparr>us_addrMap := AList.delete key (us_addrMap s),
               us_idMap := AList.delete sid (us_idMap s)\<rparr>)"

definition FindByAddr :: "sockaddr_in \<Rightarrow> udp_service \<Rightarrow> ctxref option" where
  "FindByAddr a s =
     (case map_of (us_addrMap s) (SockAddrKey a) of
        None \<Rightarrow> None
      | Some r \<Rightarrow>
          let c = us_ctxs s r
          in if sin_addr (ctx_addr c) = sin_addr a \<and> sin_port (ctx_addr c) = sin_port a
             then Some r else None)"

definition FindById :: "u64 \<Rightarrow> udp_service \<Rightarrow> ctxref option" where
  "FindById sid s = map_of (us_idMap s) sid"

text \<open>\<^verbatim>\<open>UdpSession::SendTo\<close>: a failure of \<^verbatim>\<open>WSASendTo\<close> is only printed.\<close>

definition UdpSession_SendTo :: "sockaddr_in \<Rightarrow> send_buffer \<Rightarrow> udp_service \<Rightarrow> udp_service result" where
  "UdpSession_SendTo dest buf s =
     bindr (sb_wire buf) (\<lambda>bs. Inr (s\<lparr>us_sent := us_sent s @ [(dest, bs)]\<rparr>))"

definition SendTo :: "u64 \<Rightarrow> send_buffer \<Rightarrow> udp_service \<Rightarrow> udp_service result" where
  "SendTo sid buf s =
     (case FindById sid s of
        None \<Rightarrow> Inr s
      | Some r \<Rightarrow> UdpSession_SendTo (ctx_addr (us_ctxs s r)) buf s)"

fun Broadcast_loop :: "(u64 \<times> ctxref) list \<Rightarrow> send_buffer \<Rightarrow> udp_service \<Rightarrow> udp_service result" where
  "Broadcast_loop [] buf s = Inr s"
| "Broadcast_loop ((sid, r) # kvs) buf s =
     bindr (UdpSession_SendTo (ctx_addr (us_ctxs s r)) buf s) (Broadcast_loop kvs buf)"

definition Broadcast :: "send_buffer \<Rightarrow> udp_service \<Rightarrow> udp_service result" where
  "Broadcast buf s = Broadcast_loop (us_idMap s) buf s"

fun BroadcastExcept_loop ::
  "u64 \<Rightarrow> (u64 \<times> ctxref) list \<Rightarrow> send_buffer \<Rightarrow> udp_service \<Rightarrow> udp_service result" where
  "BroadcastExcept_loop ex [] buf s = Inr s"
| "BroadcastExcept_loop ex ((sid, r) # kvs) buf s =
     (if sid \<noteq> ex
      then bindr (UdpSession_SendTo (ctx_addr (us_ctxs s r)) buf s) (BroadcastExcept_loop ex kvs buf)
      else BroadcastExcept_loop ex kvs buf s)"

definition BroadcastExcept :: "u64 \<Rightarrow> send_buffer \<Rightarrow> udp_service \<Rightarrow> udp_service result" where
  "BroadcastExcept ex buf s = BroadcastExcept_loop ex (us_idMap s) buf s"

text \<open>
  \<^verbatim>\<open>Tick\<close> collects the expired identifiers under the read lock, then removes them one by one, each
  removal under the write lock; \<open>Tick_collect\<close> and \<^const>\<open>RemoveClient\<close> are the atomic sections.
\<close>

definition Tick_collect :: "i64 \<Rightarrow> udp_service \<Rightarrow> u64 list" where
  "Tick_collect now s =
     map fst (filter (\<lambda>(sid, r). SESSION_TIMEOUT_MS <s now - ctx_lastAliveMs (us_ctxs s r)) (us_idMap s))"

definition Tick :: "i64 \<Rightarrow> udp_service \<Rightarrow> u64 list \<times> udp_service" where
  "Tick now s = (let expired = Tick_collect now s in (expired, fold RemoveClient expired s))"

section \<open>The contract of a client table\<close>

text \<open>
  What the packet code relies on, with the table's state, identifiers and addresses left open:
  \<open>addr_of\<close> says where a registered client is reached, \<open>key\<close> is the part of an address the table
  tells clients apart by, \<open>room\<close> that an unused identifier is left.
\<close>

locale session_table =
  fixes ok :: "'s \<Rightarrow> bool"
    and addr_of :: "'s \<Rightarrow> 'id \<Rightarrow> 'a option"
    and remove :: "'id \<Rightarrow> 's \<Rightarrow> 's"
  assumes remove_ok: "ok s \<Longrightarrow> ok (remove i s)"
    and addr_of_remove: "ok s \<Longrightarrow> addr_of (remove i s) = (addr_of s)(i := None)"
begin

lemma fold_remove_ok: "ok s \<Longrightarrow> ok (fold remove is s)"
  by (induction "is" arbitrary: s) (simp_all add: remove_ok)

lemma fold_remove: "ok s \<Longrightarrow> addr_of (fold remove is s) = addr_of s |` (- set is)"
proof (induction "is" arbitrary: s)
  case Nil
  then show ?case by simp
next
  case (Cons i "is")
  have "addr_of (fold remove is (remove i s)) = addr_of (remove i s) |` (- set is)"
    by (rule Cons.IH) (rule remove_ok, rule Cons.prems)
  also have "\<dots> = addr_of s |` (- set (i # is))"
    by (rule ext) (simp add: restrict_map_def addr_of_remove [OF Cons.prems])
  finally show ?case by simp
qed

end

locale client_registry = session_table +
  fixes room :: "'s \<Rightarrow> bool"
    and key :: "'a \<Rightarrow> 'k"
    and register :: "'a \<Rightarrow> 's \<Rightarrow> 'id \<times> 's"
  assumes register_ok: "ok s \<Longrightarrow> room s \<Longrightarrow> ok (snd (register a s))"
    and register_known: "ok s \<Longrightarrow> addr_of s i = Some b \<Longrightarrow> key b = key a \<Longrightarrow>
           fst (register a s) = i \<and> addr_of (snd (register a s)) = addr_of s"
    and register_new: "ok s \<Longrightarrow> room s \<Longrightarrow> (\<And>i b. addr_of s i = Some b \<Longrightarrow> key b \<noteq> key a) \<Longrightarrow>
           addr_of s (fst (register a s)) = None \<and>
           addr_of (snd (register a s)) = (addr_of s)(fst (register a s) \<mapsto> a)"
begin

lemma keys_unique:
  assumes "ok s" "addr_of s i = Some a" "addr_of s j = Some b" "key a = key b"
  shows "i = j"
  using register_known [OF assms(1,2), of b] register_known [OF assms(1,3), of b] assms(4) by simp

lemma registered:
  assumes "ok s" "room s"
  shows "\<exists>b. addr_of (snd (register a s)) (fst (register a s)) = Some b \<and> key b = key a"
proof (cases "\<exists>i b. addr_of s i = Some b \<and> key b = key a")
  case True
  then obtain i b where "addr_of s i = Some b" "key b = key a" by blast
  with register_known [OF assms(1)] show ?thesis by metis
next
  case False
  then have "addr_of (snd (register a s)) = (addr_of s)(fst (register a s) \<mapsto> a)"
    using register_new [OF assms] by blast
  then show ?thesis by simp
qed

lemma others_kept:
  assumes "ok s" "room s" "i \<noteq> fst (register a s)"
  shows "addr_of (snd (register a s)) i = addr_of s i"
proof (cases "\<exists>i b. addr_of s i = Some b \<and> key b = key a")
  case True
  then obtain j b where "addr_of s j = Some b" "key b = key a" by blast
  with register_known [OF assms(1)] show ?thesis by metis
next
  case False
  then have "addr_of (snd (register a s)) = (addr_of s)(fst (register a s) \<mapsto> a)"
    using register_new [OF assms(1,2)] by blast
  with assms(3) show ?thesis by simp
qed

lemma register_again:
  assumes "ok s" "room s"
  shows "fst (register a (snd (register a s))) = fst (register a s)"
    and "addr_of (snd (register a (snd (register a s)))) = addr_of (snd (register a s))"
proof -
  obtain b where "addr_of (snd (register a s)) (fst (register a s)) = Some b" "key b = key a"
    using registered [OF assms] by blast
  from register_known [OF register_ok [OF assms] this]
  show "fst (register a (snd (register a s))) = fst (register a s)"
    and "addr_of (snd (register a (snd (register a s)))) = addr_of (snd (register a s))" by simp_all
qed

end

section \<open>The table satisfies it\<close>

text \<open>
  The two maps point at each other through the contexts, every identifier is the ordinal of its
  context, and the counter is the next ordinal.
\<close>

definition linked ::
  "(u64 \<rightharpoonup> ctxref) \<Rightarrow> (u32 \<rightharpoonup> ctxref) \<Rightarrow> (ctxref \<Rightarrow> udp_client_context) \<Rightarrow> ctxref \<Rightarrow> bool" where
  "linked im am ctxs n \<longleftrightarrow>
     (\<forall>r < n. unat (ctx_sessionId (ctxs r)) = Suc r) \<and>
     (\<forall>sid r. im sid = Some r \<longrightarrow> r < n \<and> ctx_sessionId (ctxs r) = sid \<and>
                                am (SockAddrKey (ctx_addr (ctxs r))) = Some r) \<and>
     (\<forall>k r. am k = Some r \<longrightarrow> r < n \<and> SockAddrKey (ctx_addr (ctxs r)) = k \<and>
                              im (ctx_sessionId (ctxs r)) = Some r)"

definition registry_ok :: "udp_service \<Rightarrow> bool" where
  "registry_ok s \<longleftrightarrow>
     distinct (map fst (us_idMap s)) \<and> distinct (map fst (us_addrMap s)) \<and>
     unat (us_sCounter s) = Suc (us_nextRef s) \<and>
     linked (map_of (us_idMap s)) (map_of (us_addrMap s)) (us_ctxs s) (us_nextRef s)"

definition has_room :: "udp_service \<Rightarrow> bool" where
  "has_room s \<longleftrightarrow> us_sCounter s \<noteq> - 1"

definition client_addr :: "udp_service \<Rightarrow> u64 \<Rightarrow> sockaddr_in option" where
  "client_addr s sid = map_option (\<lambda>r. ctx_addr (us_ctxs s r)) (FindById sid s)"

definition register_id :: "i64 \<Rightarrow> sockaddr_in \<Rightarrow> udp_service \<Rightarrow> u64 \<times> udp_service" where
  "register_id now a s = (let (r, s') = RegisterClient now a s in (ctx_sessionId (us_ctxs s' r), s'))"

lemma registry_ok_init: "registry_ok udp_service_init"
  by (simp add: registry_ok_def linked_def udp_service_init_def)

lemma upd_ctx_simps [simp]:
  "us_idMap (upd_ctx r f s) = us_idMap s"
  "us_addrMap (upd_ctx r f s) = us_addrMap s"
  "us_nextRef (upd_ctx r f s) = us_nextRef s"
  "us_sCounter (upd_ctx r f s) = us_sCounter s"
  "us_sent (upd_ctx r f s) = us_sent s"
  "us_ctxs (upd_ctx r f s) r' = (if r' = r then f (us_ctxs s r) else us_ctxs s r')"
  by (simp_all add: upd_ctx_def)

lemma linked_upd:
  assumes "linked im am ctxs n" "\<And>r. ctx_sessionId (ctxs' r) = ctx_sessionId (ctxs r)" "\<And>r. ctx_addr (ctxs' r) = ctx_addr (ctxs r)"
  shows "linked im am ctxs' n"
  using assms unfolding linked_def by simp

lemma registry_ok_upd_ctx:
  assumes "registry_ok s" "\<And>c. ctx_sessionId (f c) = ctx_sessionId c" "\<And>c. ctx_addr (f c) = ctx_addr c"
  shows "registry_ok (upd_ctx r f s)"
  using assms unfolding registry_ok_def by (auto intro!: linked_upd[where ctxs = "us_ctxs s"])

lemma linked_delete: 
  assumes "linked im am ctxs n" "im sid = Some r"
  shows "linked (im(sid := None)) (am(SockAddrKey (ctx_addr (ctxs r)) := None)) ctxs n"
  using assms unfolding linked_def by (auto split: if_splits) metis

lemma linked_insert:
  assumes "linked im am ctxs n" "am (SockAddrKey (ctx_addr c)) = None" "unat (ctx_sessionId c) = Suc n"
  shows "linked (im(ctx_sessionId c \<mapsto> n)) (am(SockAddrKey (ctx_addr c) \<mapsto> n)) (ctxs(n := c)) (Suc n)"
proof -
  have "im (ctx_sessionId c) = None"
  proof (rule ccontr)
    assume "im (ctx_sessionId c) \<noteq> None"
    then obtain r where "im (ctx_sessionId c) = Some r" by blast
    with assms(1) have "r < n" "unat (ctx_sessionId c) = Suc r"
      unfolding linked_def by metis+
    with assms(3) show False by simp
  qed
  with assms show ?thesis unfolding linked_def
    by (auto simp: less_Suc_eq split: if_splits) (metis option.distinct(1))+
qed

lemma registry_ok_RemoveClient: 
  assumes "registry_ok s" shows "registry_ok (RemoveClient sid s)"
  using assms by (auto simp: RemoveClient_def registry_ok_def AList.delete_conv' AList.distinct_delete linked_delete simp del: map_of_eq_Some_iff split: option.split)


lemma counter_step:
  assumes "registry_ok s" "has_room s"
  shows "unat (us_sCounter s + 1) = Suc (unat (us_sCounter s))"
  using assms(2) unatSuc [of "us_sCounter s"] by (simp add: has_room_def add.commute add_eq_0_iff)

lemma registry_ok_RegisterClient: 
  assumes "registry_ok s" "has_room s" shows "registry_ok (snd (RegisterClient now a s))"
proof (cases "map_of (us_addrMap s) (SockAddrKey a)")
  case (Some r) then show ?thesis using assms by (simp add: RegisterClient_def Let_def registry_ok_upd_ctx)
next
  case None
  then show ?thesis using assms 
     linked_insert[where c = "fresh_context\<lparr>ctx_sessionId := us_sCounter s, ctx_addr := a, ctx_lastAliveMs := now\<rparr>" and im = "map_of (us_idMap s)" and am = "map_of (us_addrMap s)" and ctxs="us_ctxs s" and n = "us_nextRef s"]
      by (simp add: RegisterClient_def Let_def GenerateSessionId_def registry_ok_def AList.update_conv' AList.distinct_update counter_step)
qed

lemma client_addr_upd_ctx:
  assumes "\<And>c. ctx_addr (f c) = ctx_addr c"
  shows "client_addr (upd_ctx r f s) = client_addr s"
  using assms by (auto simp: client_addr_def FindById_def fun_eq_iff intro!: map_option_cong)

lemma client_addr_RemoveClient: "client_addr (RemoveClient i s) = (client_addr s)(i := None)"
  by (rule ext) (simp add: client_addr_def FindById_def RemoveClient_def Let_def AList.delete_conv' split: option.split)

lemma client_addr_key:
  assumes "registry_ok s" "client_addr s i = Some b"
  shows "\<exists>r. map_of (us_addrMap s) (SockAddrKey b) = Some r \<and> ctx_sessionId (us_ctxs s r) = i \<and> ctx_addr (us_ctxs s r) = b"
  using assms unfolding client_addr_def FindById_def registry_ok_def linked_def
  by (auto simp del: map_of_eq_Some_iff)

lemma addrMap_client:
  assumes "registry_ok s" "map_of (us_addrMap s) k = Some r"
  shows "client_addr s (ctx_sessionId (us_ctxs s r)) = Some (ctx_addr (us_ctxs s r)) \<and> SockAddrKey (ctx_addr (us_ctxs s r)) = k"
  using assms unfolding client_addr_def FindById_def registry_ok_def linked_def
  by (auto simp del: map_of_eq_Some_iff)

lemma fresh_id_unused:
  assumes "registry_ok s" shows "map_of (us_idMap s) (us_sCounter s) = None"
proof (rule ccontr)
  assume "map_of (us_idMap s) (us_sCounter s) \<noteq> None"
  then obtain r where "map_of (us_idMap s) (us_sCounter s) = Some r" by blast
  with assms have "r < us_nextRef s" "unat (us_sCounter s) = Suc r" "unat (us_sCounter s) = Suc (us_nextRef s)"
    unfolding registry_ok_def linked_def by metis+
  then show False by simp
qed

lemma register_id_known:
  assumes "map_of (us_addrMap s) (SockAddrKey a) = Some r"
  shows "register_id now a s = (ctx_sessionId (us_ctxs s r), upd_ctx r (\<lambda>c. c\<lparr>ctx_lastAliveMs := now\<rparr>) s)"
  using assms by (simp add: register_id_def RegisterClient_def)

lemma register_id_new:
  assumes "registry_ok s" "map_of (us_addrMap s) (SockAddrKey a) = None"
  shows "fst (register_id now a s) = us_sCounter s"
    and "client_addr (snd (register_id now a s)) = (client_addr s)(us_sCounter s \<mapsto> a)"
proof -
  show "fst (register_id now a s) = us_sCounter s"
    using assms(2) by (simp add: register_id_def RegisterClient_def Let_def GenerateSessionId_def)
  have "map_of (us_idMap s) i \<noteq> Some (us_nextRef s)" for i
    using assms(1) unfolding registry_ok_def linked_def by blast
  then show "client_addr (snd (register_id now a s)) = (client_addr s)(us_sCounter s \<mapsto> a)"
    using assms(2)
    by (auto simp: register_id_def RegisterClient_def Let_def GenerateSessionId_def client_addr_def
          FindById_def AList.update_conv' fun_eq_iff simp del: map_of_eq_Some_iff intro!: map_option_cong)
qed

interpretation udp: client_registry registry_ok client_addr RemoveClient has_room SockAddrKey "register_id now"
  for now
proof unfold_locales
  fix s a b i
  assume ok: "registry_ok s"
  show "registry_ok (RemoveClient i s)" using ok by (rule registry_ok_RemoveClient)
  show "client_addr (RemoveClient i s) = (client_addr s)(i := None)" by (rule client_addr_RemoveClient)
  show "registry_ok (snd (register_id now a s))" if "has_room s"
    using registry_ok_RegisterClient [OF ok that, of now a] by (simp add: register_id_def split_beta)
  show "fst (register_id now a s) = i \<and> client_addr (snd (register_id now a s)) = client_addr s"
    if "client_addr s i = Some b" "SockAddrKey b = SockAddrKey a"
    using client_addr_key [OF ok that(1)] that(2) by (auto simp: register_id_known client_addr_upd_ctx simp del: map_of_eq_Some_iff)
  show "client_addr s (fst (register_id now a s)) = None \<and>
        client_addr (snd (register_id now a s)) = (client_addr s)(fst (register_id now a s) \<mapsto> a)"
    if "\<And>i b. client_addr s i = Some b \<Longrightarrow> SockAddrKey b \<noteq> SockAddrKey a"
  proof -
    have "map_of (us_addrMap s) (SockAddrKey a) = None"
      using addrMap_client [OF ok, of "SockAddrKey a"] that by (metis not_None_eq)
    then show ?thesis using register_id_new [OF ok] fresh_id_unused [OF ok]
      by (simp add: client_addr_def FindById_def)
  qed
qed

section \<open>Frame\<close>

text \<open>
  Two states with the same table: they may differ in the datagrams sent and in what a context
  records about its client, not in who is registered where.
\<close>

definition same_table :: "udp_service \<Rightarrow> udp_service \<Rightarrow> bool" where
  "same_table s t \<longleftrightarrow> us_idMap t = us_idMap s \<and> us_addrMap t = us_addrMap s \<and> us_nextRef t = us_nextRef s \<and>
     us_sCounter t = us_sCounter s \<and>
     (\<forall>r. ctx_sessionId (us_ctxs t r) = ctx_sessionId (us_ctxs s r) \<and> ctx_addr (us_ctxs t r) = ctx_addr (us_ctxs s r) \<and>
            ctx_lastSeq (us_ctxs t r) = ctx_lastSeq (us_ctxs s r))"

lemma same_table_refl [simp]: "same_table s s" by (simp add: same_table_def)
lemma same_table_trans [trans]: "same_table s t \<Longrightarrow> same_table t u \<Longrightarrow> same_table s u" by (simp add: same_table_def)

lemma same_table_upd_ctx:
  "(\<And>c. ctx_sessionId (f c) = ctx_sessionId c \<and> ctx_addr (f c) = ctx_addr c \<and> ctx_lastSeq (f c) = ctx_lastSeq c) \<Longrightarrow> same_table s (upd_ctx r f s)"
  by (simp add: same_table_def)

lemma same_table_upd_fields [simp]:
  "same_table s (upd_ctx r (ctx_userId_update f) s)"
  "same_table s (upd_ctx r (ctx_lastAliveMs_update g) s)"
  by (simp_all add: same_table_upd_ctx)

lemma same_table_registry: "same_table s t \<Longrightarrow> registry_ok s \<Longrightarrow> registry_ok t"
  by (auto simp: same_table_def registry_ok_def intro: linked_upd)

lemma same_table_client: "same_table s t \<Longrightarrow> client_addr t = client_addr s"
  by (auto simp: same_table_def client_addr_def FindById_def fun_eq_iff intro!: map_option_cong)

lemma same_table_lastSeq: "same_table s t \<Longrightarrow> ctx_lastSeq (us_ctxs t r) = ctx_lastSeq (us_ctxs s r)"
  by (simp add: same_table_def)

lemma same_table_find: "same_table s t \<Longrightarrow> FindByAddr a t = FindByAddr a s"
  by (auto simp: same_table_def FindByAddr_def Let_def split: option.splits)

lemma same_table_room: "same_table s t \<Longrightarrow> has_room t = has_room s"
  by (auto simp: same_table_def has_room_def)

section \<open>Sending\<close>

text \<open>What a broadcast hands to the socket: one datagram per selected entry of the table.\<close>

lemma Broadcast_loop_eq:
  assumes "sb_wire buf = Inr bs"
  shows "Broadcast_loop kvs buf s =
           Inr (s\<lparr>us_sent := us_sent s @ map (\<lambda>(sid, r). (ctx_addr (us_ctxs s r), bs)) kvs\<rparr>)"
  using assms by (induction kvs arbitrary: s) (auto simp: UdpSession_SendTo_def)

lemma BroadcastExcept_loop_eq:
  "BroadcastExcept_loop ex kvs buf s = Broadcast_loop (filter (\<lambda>(sid, r). sid \<noteq> ex) kvs) buf s"
  by (induction kvs arbitrary: s) (auto intro!: arg_cong2 [where f = bindr] ext)

lemma map_of_client:
  assumes "registry_ok s" "(sid, r) \<in> set (us_idMap s)"
  shows "client_addr s sid = Some (ctx_addr (us_ctxs s r))"
  using assms by (auto simp: client_addr_def FindById_def registry_ok_def)

lemma dom_client_addr: "dom (client_addr s) = fst ` set (us_idMap s)"
  by (auto simp: client_addr_def FindById_def dom_map_of_conv_image_fst [symmetric])

lemma broadcast_filtered:
  assumes ok: "registry_ok s" and "sb_wire buf = Inr bs"
  shows "\<exists>ids. distinct ids \<and> set ids = {i \<in> dom (client_addr s). P i} \<and>
     Broadcast_loop (filter (\<lambda>(sid, r). P sid) (us_idMap s)) buf s =
       Inr (s\<lparr>us_sent := us_sent s @ map (\<lambda>i. (the (client_addr s i), bs)) ids\<rparr>)"
proof (intro exI conjI)
  let ?kvs = "filter (\<lambda>(sid, r). P sid) (us_idMap s)"
  show "distinct (map fst ?kvs)"
    using ok by (simp add: registry_ok_def distinct_map_filter)
  show "set (map fst ?kvs) = {i \<in> dom (client_addr s). P i}"
    by (force simp: dom_client_addr)
  show "Broadcast_loop ?kvs buf s =
       Inr (s\<lparr>us_sent := us_sent s @ map (\<lambda>i. (the (client_addr s i), bs)) (map fst ?kvs)\<rparr>)"
    using map_of_client [OF ok]
    by (auto simp: Broadcast_loop_eq [OF assms(2)] comp_def split_beta
          intro!: arg_cong [where f = "\<lambda>x. s\<lparr>us_sent := us_sent s @ x\<rparr>"] map_cong)
qed

lemma UdpSession_SendTo_frame: "UdpSession_SendTo a buf s = Inr t \<Longrightarrow> \<exists>ds. t = s\<lparr>us_sent := us_sent s @ ds\<rparr>"
  by (auto simp: UdpSession_SendTo_def bindr_Inr_iff)

lemma SendTo_frame: "SendTo sid buf s = Inr t \<Longrightarrow> \<exists>ds. t = s\<lparr>us_sent := us_sent s @ ds\<rparr>"
  by (auto simp: SendTo_def dest!: UdpSession_SendTo_frame split: option.splits intro: exI [of _ "[]"])

lemma Broadcast_loop_frame: "Broadcast_loop kvs buf s = Inr t \<Longrightarrow> \<exists>ds. t = s\<lparr>us_sent := us_sent s @ ds\<rparr>"
proof (induction kvs arbitrary: s)
  case Nil
  then show ?case by (auto intro: exI [of _ "[]"])
next
  case (Cons kv kvs)
  then show ?case by (cases kv) (fastforce simp: bindr_Inr_iff dest: UdpSession_SendTo_frame)
qed

lemma sent_same_table: "same_table s (s\<lparr>us_sent := ds\<rparr>)"
  by (simp add: same_table_def)

section \<open>A small client table\<close>

text \<open>Two clients, registered at time 0, for the concrete instances of the theorems.\<close>

definition demo_addr :: "u32 \<Rightarrow> sockaddr_in" where
  "demo_addr ip = \<lparr>sin_family = AF_INET, sin_port = 0x581B, sin_addr = ip\<rparr>"

definition demo_svc :: udp_service where
  "demo_svc = snd (RegisterClient 0 (demo_addr 9) (snd (RegisterClient 0 (demo_addr 8) udp_service_init)))"

lemma demo_svc_eq:
  "demo_svc = udp_service_init\<lparr>us_ctxs := (us_ctxs udp_service_init)
       (0 := fresh_context\<lparr>ctx_sessionId := 1, ctx_addr := demo_addr 8\<rparr>,
        1 := fresh_context\<lparr>ctx_sessionId := 2, ctx_addr := demo_addr 9\<rparr>),
     us_nextRef := 2, us_idMap := [(1, 0), (2, 1)],
     us_addrMap := [(SockAddrKey (demo_addr 8), 0), (SockAddrKey (demo_addr 9), 1)], us_sCounter := 3\<rparr>"
proof -
  have "SockAddrKey (demo_addr 9) \<noteq> SockAddrKey (demo_addr 8)"
    by (simp add: SockAddrKey_def demo_addr_def)
  then show ?thesis
    by (simp add: demo_svc_def RegisterClient_def GenerateSessionId_def udp_service_init_def fresh_context_def numeral_2_eq_2)
qed

lemma demo_svc_ok: "registry_ok demo_svc"
  unfolding demo_svc_def
  by (intro registry_ok_RegisterClient registry_ok_init)
     (simp_all add: has_room_def udp_service_init_def RegisterClient_def GenerateSessionId_def)

section \<open>Properties\<close>

text \<open>
  C26: \<^verbatim>\<open>BroadcastExcept\<close> hands exactly one copy of the datagram to every registered client but the
  excluded one, at the address the client registered with, and changes nothing else; the order is
  left open.
\<close>

theorem broadcast_except_recipients:
  assumes "registry_ok s" "sb_wire buf = Inr bs"
  shows "\<exists>ids. distinct ids \<and> set ids = dom (client_addr s) - {ex} \<and>
     BroadcastExcept ex buf s =
       Inr (s\<lparr>us_sent := us_sent s @ map (\<lambda>i. (the (client_addr s i), bs)) ids\<rparr>)"
  using broadcast_filtered [OF assms, of "\<lambda>i. i \<noteq> ex"]
  by (simp add: BroadcastExcept_def BroadcastExcept_loop_eq set_diff_eq)

theorem broadcast_except_recipients_witness:
  "\<exists>ids. distinct ids \<and> set ids = dom (client_addr demo_svc) - {1} \<and>
     BroadcastExcept 1 \<lparr>sb_buffer = [7, 8], sb_writeSize = 2\<rparr> demo_svc =
       Inr (demo_svc\<lparr>us_sent := us_sent demo_svc @ map (\<lambda>i. (the (client_addr demo_svc i), [7, 8])) ids\<rparr>)"
  by (rule broadcast_except_recipients [OF demo_svc_ok]) (simp add: sb_wire_def)

text \<open>
  C27: \<^verbatim>\<open>Tick\<close> returns, without repetition, exactly the clients whose last packet is more than
  SESSION_TIMEOUT_MS old, removes exactly those, and keeps the table consistent.
\<close>

theorem tick_removes_expired:
  assumes "registry_ok s" "Tick now s = (expired, s')"
  shows "registry_ok s' \<and> distinct expired \<and>
     (\<forall>i. i \<in> set expired \<longleftrightarrow>
        (\<exists>r. FindById i s = Some r \<and> SESSION_TIMEOUT_MS <s now - ctx_lastAliveMs (us_ctxs s r))) \<and>
     client_addr s' = client_addr s |` (- set expired)"
proof -
  have e: "expired = Tick_collect now s" "s' = fold RemoveClient expired s"
    using assms(2) by (auto simp: Tick_def Let_def)
  have "distinct (map fst (us_idMap s))" using assms(1) by (simp add: registry_ok_def)
  then have "distinct expired"
    and "\<forall>i. i \<in> set expired \<longleftrightarrow>
      (\<exists>r. FindById i s = Some r \<and> SESSION_TIMEOUT_MS <s now - ctx_lastAliveMs (us_ctxs s r))"
    by (force simp: e(1) Tick_collect_def distinct_map_filter FindById_def)+
  with udp.fold_remove_ok [OF assms(1)] udp.fold_remove [OF assms(1)] show ?thesis by (simp add: e(2))
qed

text \<open>One client has been silent for a millisecond more than ten seconds, the other exactly ten seconds.\<close>

theorem tick_removes_expired_witness:
  "set (fst (Tick 10001 (upd_ctx 1 (\<lambda>c. c\<lparr>ctx_lastAliveMs := 1\<rparr>) demo_svc))) = {1} \<and>
   client_addr (snd (Tick 10001 (upd_ctx 1 (\<lambda>c. c\<lparr>ctx_lastAliveMs := 1\<rparr>) demo_svc))) = [2 \<mapsto> demo_addr 9]"
proof -
  let ?s = "upd_ctx 1 (\<lambda>c. c\<lparr>ctx_lastAliveMs := 1\<rparr>) demo_svc"
  have ok: "registry_ok ?s" by (rule registry_ok_upd_ctx [OF demo_svc_ok]) simp_all
  have "FindById i ?s = (if i = 1 then Some 0 else if i = 2 then Some 1 else None)" for i
    by (simp add: demo_svc_eq FindById_def upd_ctx_def)
  moreover have "us_ctxs ?s 0 = fresh_context\<lparr>ctx_sessionId := 1, ctx_addr := demo_addr 8\<rparr>" "ctx_lastAliveMs (us_ctxs ?s 1) = 1"
    by (simp_all add: demo_svc_eq upd_ctx_def)
  ultimately have "i \<in> set (fst (Tick 10001 ?s)) \<longleftrightarrow> i = 1" for i
    using tick_removes_expired [OF ok, of 10001 "fst (Tick 10001 ?s)" "snd (Tick 10001 ?s)"]
    by (simp add: fresh_context_def SESSION_TIMEOUT_MS_def word_sless_alt)
  then have e: "set (fst (Tick 10001 ?s)) = {1}" by blast
  moreover have "client_addr (snd (Tick 10001 ?s)) = client_addr ?s |` (- set (fst (Tick 10001 ?s)))"
    using tick_removes_expired [OF ok, of 10001 "fst (Tick 10001 ?s)" "snd (Tick 10001 ?s)"] by simp
  moreover have "client_addr ?s |` (- {1}) = [2 \<mapsto> demo_addr 9]"
    by (auto simp: demo_svc_eq client_addr_def FindById_def upd_ctx_def restrict_map_def)
  ultimately show ?thesis by simp
qed

end
