(* ===== verification/Weapons.thy ===== *)
theory Weapons
  imports Prelude
begin

text \<open>
  The weapon table of \<^verbatim>\<open>GameServer/WeaponData.h\<close>: prices, magazines and damages the server decides
  on. The literals of the table are the source's; \<open>fireRate\<close> is the bit pattern of the \<^verbatim>\<open>float\<close>
  literal.
\<close>

record weapon_info =
  wi_displayName :: string
  wi_price :: i64
  wi_pelletCount :: i32
  wi_fireRate :: f32
  wi_magazineSize :: i32
  wi_damageHead :: i32
  wi_damageBody :: i32
  wi_damageLimb :: i32

definition mk_weapon ::
  "string \<Rightarrow> i64 \<Rightarrow> i32 \<Rightarrow> f32 \<Rightarrow> i32 \<Rightarrow> i32 \<Rightarrow> i32 \<Rightarrow> i32 \<Rightarrow> weapon_info" where
  "mk_weapon nm pr pc fr ms dh db dl =
     \<lparr>wi_displayName = nm, wi_price = pr, wi_pelletCount = pc, wi_fireRate = fr,
      wi_magazineSize = ms, wi_damageHead = dh, wi_damageBody = db, wi_damageLimb = dl\<rparr>"

definition f32_half :: f32 where "f32_half = 0x3F000000"
definition f32_0_3 :: f32 where "f32_0_3 = 0x3E99999A"
definition f32_0_2 :: f32 where "f32_0_2 = 0x3E4CCCCD"

definition weapon_table :: "(i32 \<times> weapon_info) list" where
  "weapon_table =
     [(4, mk_weapon ''Revolver Lv1'' 500 1 f32_half 6 120 40 20),
      (5, mk_weapon ''Revolver Lv2'' 5000 1 f32_half 6 120 40 20),
      (1, mk_weapon ''Rifle'' 10000 1 f32_0_3 8 150 60 30),
      (2, mk_weapon ''Shotgun Lv1'' 300 10 f32_0_2 2 30 10 5),
      (3, mk_weapon ''Shotgun Lv2'' 3000 10 f32_0_2 2 30 10 5)]"

definition FindWeapon :: "i32 \<Rightarrow> weapon_info option" where
  "FindWeapon weaponType = map_of weapon_table weaponType"

text \<open>Facts a purchase needs: a price is positive and small, five magazines fit an \<^verbatim>\<open>int32\<close>.\<close>

lemma FindWeapon_cases:
  assumes "FindWeapon t = Some w"
  shows "t \<in> {1, 2, 3, 4, 5} \<and> sint (wi_price w) \<in> {300, 500, 3000, 5000, 10000} \<and>
         sint (wi_magazineSize w) \<in> {2, 6, 8}"
  using assms by (auto simp: FindWeapon_def weapon_table_def mk_weapon_def split: if_splits)

lemma FindWeapon_price: "FindWeapon t = Some w \<Longrightarrow> 0 < sint (wi_price w) \<and> sint (wi_price w) \<le> 10000"
  using FindWeapon_cases [of t w] by auto

lemma FindWeapon_ammo:
  "FindWeapon t = Some w \<Longrightarrow>
     sint (wi_magazineSize w * 5) = sint (wi_magazineSize w) * 5 \<and> 0 < sint (wi_magazineSize w)"
  by (auto simp: FindWeapon_def weapon_table_def mk_weapon_def split: if_splits)

end
