(* ===== verification/LobbyHandler.thy ===== *)
theory LobbyHandler
  imports Packets UdpService Weapons
begin

text \<open>
  \<^verbatim>\<open>GameServer/UdpServerPacketHandler\<close>: the dispatch on the packet identifier and one handler per
  client packet. A handler changes the client table (and the datagrams sent, which are part of it)
  and the Redis connection; \<open>cmd\<close> and \<open>stof\<close> are the parameters of \<^verbatim>\<open>RedisClient\<close>. Console output
  is left out. \<open>payload\<close> is the memory from the payload on to the end of the receive buffer,
  which may be longer than the \<open>payloadLen\<close> bytes received.
\<close>

record 's world =
  w_svc :: udp_service
  w_redis :: "'s redis_client"

definition w_send :: "u64 \<Rightarrow> send_buffer result \<Rightarrow> 's world \<Rightarrow> 's world result" where
  "w_send sid mk w =
     bindr mk (\<lambda>buf. bindr (SendTo sid buf (w_svc w)) (\<lambda>svc. Inr (w\<lparr>w_svc := svc\<rparr>)))"

abbreviation ctx_of :: "ctxref \<Rightarrow> 's world \<Rightarrow> udp_client_context" where
  "ctx_of r w \<equiv> us_ctxs (w_svc w) r"

text \<open>\<^verbatim>\<open>GetPlayerInfo\<close> into a fresh record, and the info packet when it succeeds.\<close>

definition send_player_info ::
  "'s redis_command \<Rightarrow> (string \<Rightarrow> f32 result) \<Rightarrow> ctxref \<Rightarrow> string \<Rightarrow> 's world \<Rightarrow> 's world result" where
  "send_player_info cmd stof ctx userId w =
     bindr (GetPlayerInfo cmd stof userId default_info (w_redis w)) (\<lambda>(ok, info, rc).
       let w = w\<lparr>w_redis := rc\<rparr>
       in if ok
          then w_send (ctx_sessionId (ctx_of ctx w)) (Make_S_PLAYER_INFO (ctx_sessionId (ctx_of ctx w)) info) w
          else Inr w)"

text \<open>The handshake once the user id is read: remember it, acknowledge, send the player's data.\<close>

definition hello ::
  "'s redis_command \<Rightarrow> (string \<Rightarrow> f32 result) \<Rightarrow> ctxref \<Rightarrow> string \<Rightarrow> 's world \<Rightarrow> 's world result" where
  "hello cmd stof ctx userId w =
     (let w = w\<lparr>w_svc := upd_ctx ctx (\<lambda>c. c\<lparr>ctx_userId := userId\<rparr>) (w_svc w)\<rparr>;
          sid = ctx_sessionId (ctx_of ctx w)
      in bindr (w_send sid (Make_S_UDP_HANDSHAKE_ACK sid) w)
           (\<lambda>w. send_player_info cmd stof ctx (ctx_userId (ctx_of ctx w)) w))"

definition Handle_C_UDP_HELLO ::
  "'s redis_command \<Rightarrow> (string \<Rightarrow> f32 result) \<Rightarrow> ctxref \<Rightarrow> byte list \<Rightarrow> int \<Rightarrow> 's world \<Rightarrow> 's world result" where
  "Handle_C_UDP_HELLO cmd stof ctx payload payloadLen w =
     (if payloadLen < 2 then Inr w
      else bindr (br_shift dec_u16 2 (BufferReader payload (of_int payloadLen) 0)) (\<lambda>(userIdLen, br).
        if br_FreeSize br < ucast userIdLen then Inr w
        else bindr (load_at 2 (unat userIdLen) payload) (\<lambda>bs. hello cmd stof ctx (string_of bs) w)))"

text \<open>The relay once the five fields are read.\<close>

definition relay_move ::
  "ctxref \<Rightarrow> f32 \<Rightarrow> f32 \<Rightarrow> f32 \<Rightarrow> f32 \<Rightarrow> byte \<Rightarrow> 's world \<Rightarrow> 's world result" where
  "relay_move ctx posX posY posZ rot animState w =
     (let sid = ctx_sessionId (ctx_of ctx w)
      in bindr (Make_S_LOBBY_PLAYER_MOVE sid (ctx_userId (ctx_of ctx w)) posX posY posZ rot animState)
           (\<lambda>buf. bindr (BroadcastExcept sid buf (w_svc w)) (\<lambda>svc. Inr (w\<lparr>w_svc := svc\<rparr>))))"

definition Handle_C_LOBBY_MOVE ::
  "ctxref \<Rightarrow> byte list \<Rightarrow> int \<Rightarrow> 's world \<Rightarrow> 's world result" where
  "Handle_C_LOBBY_MOVE ctx payload payloadLen w =
     (if payloadLen < 17 then Inr w
      else
        bindr (br_shift dec_u32 4 (BufferReader payload (of_int payloadLen) 0)) (\<lambda>(posX, br).
        bindr (br_shift dec_u32 4 br) (\<lambda>(posY, br).
        bindr (br_shift dec_u32 4 br) (\<lambda>(posZ, br).
        bindr (br_shift dec_u32 4 br) (\<lambda>(rot, br).
        bindr (br_shift dec_u8 1 br) (\<lambda>(animState, br).
          relay_move ctx posX posY posZ rot animState w))))))"

definition Handle_C_LOBBY_HEARTBEAT :: "i64 \<Rightarrow> ctxref \<Rightarrow> 's world \<Rightarrow> 's world" where
  "Handle_C_LOBBY_HEARTBEAT now ctx w =
     w\<lparr>w_svc := upd_ctx ctx (\<lambda>c. c\<lparr>ctx_lastAliveMs := now\<rparr>) (w_svc w)\<rparr>"

definition buy_result :: "ctxref \<Rightarrow> bool \<Rightarrow> i32 \<Rightarrow> i64 \<Rightarrow> 's world \<Rightarrow> 's world result" where
  "buy_result ctx success weaponType balance w =
     w_send (ctx_sessionId (ctx_of ctx w))
       (Make_S_BUY_WEAPON_RESULT (ctx_sessionId (ctx_of ctx w)) success weaponType balance) w"

text \<open>Steps 1 to 5 of the purchase, from the weapon type and the user id of the payload on.\<close>

definition buy_weapon ::
  "'s redis_command \<Rightarrow> (string \<Rightarrow> f32 result) \<Rightarrow> ctxref \<Rightarrow> string \<Rightarrow> i32 \<Rightarrow> 's world \<Rightarrow> 's world result" where
  "buy_weapon cmd stof ctx userId weaponType w =
     (case FindWeapon weaponType of
        None \<Rightarrow> buy_result ctx False weaponType 0 w
      | Some weapon \<Rightarrow>
          bindr (GetBalance cmd userId 0 (w_redis w)) (\<lambda>(ok, balance, rc).
          let w = w\<lparr>w_redis := rc\<rparr>
          in if \<not> ok then buy_result ctx False weaponType 0 w
          else if balance <s wi_price weapon then buy_result ctx False weaponType balance w
          else
            let newBalance = balance - wi_price weapon;
                ammoOnPurchase = wi_magazineSize weapon * 5;
                (ok, rc) = PurchaseWeapon cmd userId newBalance weaponType ammoOnPurchase 0 (w_redis w);
                w = w\<lparr>w_redis := rc\<rparr>
            in if \<not> ok then buy_result ctx False weaponType balance w
            else bindr (buy_result ctx True weaponType newBalance w)
                   (send_player_info cmd stof ctx userId)))"

definition Handle_C_BUY_WEAPON ::
  "'s redis_command \<Rightarrow> (string \<Rightarrow> f32 result) \<Rightarrow> ctxref \<Rightarrow> byte list \<Rightarrow> int \<Rightarrow> 's world \<Rightarrow> 's world result" where
  "Handle_C_BUY_WEAPON cmd stof ctx payload payloadLen w =
     (if payloadLen < 6 then Inr w
      else bindr (br_shift dec_u16 2 (BufferReader payload (of_int payloadLen) 0)) (\<lambda>(userIdLen, br).
        if br_FreeSize br < ucast userIdLen + 4 then Inr w
        else bindr (load_at 2 (unat userIdLen) payload) (\<lambda>bs.
             bindr (load_at (2 + unat userIdLen) 4 payload) (\<lambda>wt.
               buy_weapon cmd stof ctx (string_of bs) (dec_u32 wt) w))))"

definition Handle_C_GUN_SHOT_LOBBY ::
  "'s redis_command \<Rightarrow> (string \<Rightarrow> f32 result) \<Rightarrow> ctxref \<Rightarrow> 's world \<Rightarrow> 's world result" where
  "Handle_C_GUN_SHOT_LOBBY cmd stof ctx w =
     (if ctx_userId (ctx_of ctx w) = [] then Inr w
      else bindr (ConsumeLobbyAmmo cmd stof (ctx_userId (ctx_of ctx w)) 0 (w_redis w))
             (\<lambda>(ok, remainingAmmo, rc). Inr (w\<lparr>w_redis := rc\<rparr>)))"

definition HandlePacket ::
  "'s redis_command \<Rightarrow> (string \<Rightarrow> f32 result) \<Rightarrow> i64 \<Rightarrow> ctxref \<Rightarrow> byte list \<Rightarrow> int \<Rightarrow> 's world \<Rightarrow>
     's world result" where
  "HandlePacket cmd stof now ctx buffer len w =
     bindr (load_header buffer) (\<lambda>header.
       let payload = drop UDP_HEADER_SIZE buffer;
           payloadLen = len - int UDP_HEADER_SIZE;
           t = ph_id header
       in if t = packet_id C_UDP_HELLO then Handle_C_UDP_HELLO cmd stof ctx payload payloadLen w
          else if t = packet_id C_LOBBY_MOVE then Handle_C_LOBBY_MOVE ctx payload payloadLen w
          else if t = packet_id C_LOBBY_HEARTBEAT then Inr (Handle_C_LOBBY_HEARTBEAT now ctx w)
          else if t = packet_id C_PURCHASE_WEAPON then Handle_C_BUY_WEAPON cmd stof ctx payload payloadLen w
          else if t = packet_id C_GUN_SHOT_LOBBY then Handle_C_GUN_SHOT_LOBBY cmd stof ctx w
          else Inr w)"

text \<open>Called by the main loop for every client \<^verbatim>\<open>Tick\<close> removed.\<close>

definition OnClientLeave :: "u64 \<Rightarrow> 's world \<Rightarrow> 's world result" where
  "OnClientLeave sessionId w =
     bindr (Make_S_LOBBY_PLAYER_LEAVE sessionId) (\<lambda>buf.
     bindr (Broadcast buf (w_svc w)) (\<lambda>svc. Inr (w\<lparr>w_svc := svc\<rparr>)))"

section \<open>What a handler reads\<close>

text \<open>
  With \<open>n\<close> payload bytes received into a memory at least that long, each handler is a function of
  those \<open>n\<close> bytes.
\<close>

lemma first_u16:
  "2 \<le> length p \<Longrightarrow> br_shift dec_u16 2 (BufferReader p sz 0) =
     Inr (dec_u16 (take 2 p), BufferReader p sz 2)"
  by (simp add: br_shift_def br_load_def load_at_def BufferReader_def)

lemma FreeSize_after:
  assumes "k \<le> n" and "n < 2 ^ 31"
  shows "unat (br_FreeSize (BufferReader p (of_int (int n)) (of_nat k))) = n - k"
proof -
  have "(of_nat k :: u32) \<le> of_nat n"
    using assms by (simp add: word_le_nat_alt unat_of_nat_u32)
  then show ?thesis
    using assms by (simp add: br_FreeSize_def BufferReader_def unat_sub unat_of_nat_u32)
qed

definition user_id_len :: "byte list \<Rightarrow> nat" where
  "user_id_len p = unat (dec_u16 (take 2 p))"

lemma hello_eq:
  assumes "n \<le> length p" and "n < 2 ^ 31"
  shows "Handle_C_UDP_HELLO cmd stof ctx p (int n) w =
     (if n < 2 \<or> n < 2 + user_id_len p then Inr w
      else hello cmd stof ctx (string_of (take (user_id_len p) (drop 2 p))) w)"
proof (cases "n < 2")
  case False
  have "unat (ucast (dec_u16 (take 2 p)) :: u32) = user_id_len p"
    by (simp add: user_id_len_def unat_ucast_u16)
  with False assms FreeSize_after [of 2 n p] show ?thesis
    by (auto simp: Handle_C_UDP_HELLO_def first_u16 word_less_nat_alt load_at_def user_id_len_def)
qed (simp add: Handle_C_UDP_HELLO_def)

lemma buy_eq:
  assumes "n \<le> length p" and "n < 2 ^ 31"
  shows "Handle_C_BUY_WEAPON cmd stof ctx p (int n) w =
     (if n < 6 + user_id_len p then Inr w
      else buy_weapon cmd stof ctx (string_of (take (user_id_len p) (drop 2 p)))
             (dec_u32 (take 4 (drop (2 + user_id_len p) p))) w)"
proof (cases "n < 6")
  case False
  have "unat (ucast (dec_u16 (take 2 p)) + 4 :: u32) = user_id_len p + 4"
    using unsigned_less [of "dec_u16 (take 2 p)", where ?'a = nat]
    by (simp add: user_id_len_def unat_ucast_u16 unat_word_ariths(1))
  with False assms FreeSize_after [of 2 n p] show ?thesis
    by (auto simp: Handle_C_BUY_WEAPON_def first_u16 word_less_nat_alt load_at_def user_id_len_def)
qed (simp add: Handle_C_BUY_WEAPON_def)

lemma move_eq:
  assumes "n \<le> length p"
  shows "Handle_C_LOBBY_MOVE ctx p (int n) w =
     (if n < 17 then Inr w
      else relay_move ctx (dec_u32 (take 4 p)) (dec_u32 (take 4 (drop 4 p))) (dec_u32 (take 4 (drop 8 p)))
             (dec_u32 (take 4 (drop 12 p))) (dec_u8 (take 1 (drop 16 p))) w)"
  using assms
  by (simp add: Handle_C_LOBBY_MOVE_def br_shift_def br_load_def load_at_def BufferReader_def)

section \<open>Frame\<close>

text \<open>No handler registers, removes or moves a client.\<close>

lemma w_send_frame: "w_send sid mk w = Inr w' \<Longrightarrow> \<exists>ds. w' = w\<lparr>w_svc := (w_svc w)\<lparr>us_sent := us_sent (w_svc w) @ ds\<rparr>\<rparr>"
  by (auto simp: w_send_def bindr_Inr_iff dest!: SendTo_frame)

lemma w_send_table: "w_send sid mk w = Inr w' \<Longrightarrow> same_table (w_svc w) (w_svc w')"
  by (auto dest!: w_send_frame simp: sent_same_table)

lemma send_player_info_table: "send_player_info cmd stof ctx u w = Inr w' \<Longrightarrow> same_table (w_svc w) (w_svc w')"
  by (auto simp: send_player_info_def bindr_Inr_iff Let_def dest!: w_send_table split: if_splits)

lemma hello_table: "hello cmd stof ctx u w = Inr w' \<Longrightarrow> same_table (w_svc w) (w_svc w')"
  by (auto simp: hello_def bindr_Inr_iff Let_def dest!: w_send_table send_player_info_table
       intro: same_table_trans [OF same_table_upd_fields(1) same_table_trans])

lemma buy_result_table: "buy_result ctx ok t b w = Inr w' \<Longrightarrow> same_table (w_svc w) (w_svc w')"
  by (auto simp: buy_result_def dest!: w_send_table)

lemma buy_weapon_table: "buy_weapon cmd stof ctx u t w = Inr w' \<Longrightarrow> same_table (w_svc w) (w_svc w')"
  by (auto simp: buy_weapon_def bindr_Inr_iff Let_def split_beta dest!: buy_result_table send_player_info_table 
     split: option.splits if_splits intro: same_table_trans)

lemma relay_move_table: "relay_move ctx x y z r a w = Inr w' \<Longrightarrow> same_table (w_svc w) (w_svc w')"
  by (auto simp: relay_move_def bindr_Inr_iff Let_def BroadcastExcept_def BroadcastExcept_loop_eq dest!: Broadcast_loop_frame simp: sent_same_table)

lemma HandlePacket_table: "HandlePacket cmd stof now ctx buf len w = Inr w' \<Longrightarrow> same_table (w_svc w) (w_svc w')"
  by (auto simp: HandlePacket_def bindr_Inr_iff Let_def Handle_C_UDP_HELLO_def Handle_C_LOBBY_MOVE_def Handle_C_LOBBY_HEARTBEAT_def
     Handle_C_BUY_WEAPON_def Handle_C_GUN_SHOT_LOBBY_def
     dest!: hello_table relay_move_table buy_weapon_table split: if_splits)

lemma OnClientLeave_table: "OnClientLeave sid w = Inr w' \<Longrightarrow> same_table (w_svc w) (w_svc w')"
  by (auto simp: OnClientLeave_def bindr_Inr_iff Broadcast_def dest!: Broadcast_loop_frame simp: sent_same_table)

section \<open>Replies\<close>

definition reply_to :: "u64 \<Rightarrow> byte list \<Rightarrow> udp_service \<Rightarrow> udp_service" where
  "reply_to sid bs s = (case client_addr s sid of
       None \<Rightarrow> s | Some a \<Rightarrow> s\<lparr>us_sent := us_sent s @ [(a, bs)]\<rparr>)"

lemma w_send_packet:
  "length bs \<le> 1200 \<Longrightarrow> w_send sid (Inr (packet_of s t bs)) w =
     Inr (w\<lparr>w_svc := reply_to sid (header_bytes s 0 (packet_id t) @ bs) (w_svc w)\<rparr>)"
  by (simp add: w_send_def SendTo_def reply_to_def client_addr_def UdpSession_SendTo_def split: option.split)

definition buy_packet :: "u64 \<Rightarrow> bool \<Rightarrow> i32 \<Rightarrow> i64 \<Rightarrow> byte list" where
  "buy_packet sid ok t b = header_bytes sid 0 (packet_id S_PURCHASE_WEAPON_RESULT) @ buy_bytes sid ok t b"

lemma buy_result_eq:
  "buy_result ctx ok t b w =
     Inr (w\<lparr>w_svc := reply_to (ctx_sessionId (ctx_of ctx w)) (buy_packet (ctx_sessionId (ctx_of ctx w)) ok t b) (w_svc w)\<rparr>)"
  by (simp add: buy_result_def Make_buy_eq w_send_packet buy_packet_def)

lemma reply_to_ctxs [simp]: "us_ctxs (reply_to sid bs s) = us_ctxs s"
  by (simp add: reply_to_def split: option.split)

lemma hello_acks:
  "hello cmd stof ctx u w =
     (let sid = ctx_sessionId (ctx_of ctx w)
      in send_player_info cmd stof ctx u
           (w\<lparr>w_svc := reply_to sid (header_bytes sid 0 350 @ enc_u64 sid)
                        (upd_ctx ctx (\<lambda>c. c\<lparr>ctx_userId := u\<rparr>) (w_svc w))\<rparr>))"
  by (simp add: hello_def Make_ack_eq w_send_packet Let_def)

text \<open>The info packet can be built for a presentable player, and reading the player stores nothing.\<close>

lemma send_player_info_keeps:
  assumes law: "redis_hashes cmd hash" and "rc_ctx (w_redis w)"
    and "presentable stof (rhash hash (w_redis w) (c_str (user_key u)))"
  shows "\<exists>rc bs. send_player_info cmd stof ctx u w =
      Inr (w\<lparr>w_redis := rc, w_svc := reply_to (ctx_sessionId (ctx_of ctx w)) bs (w_svc w)\<rparr>) \<and>
    rhash hash rc = rhash hash (w_redis w) \<and> rc_ctx rc"
proof -
  obtain info rc where
    g: "GetPlayerInfo cmd stof u default_info (w_redis w) = Inr (True, info, rc)" "rhash hash rc = rhash hash (w_redis w)"
       "rc_ctx rc" "length (pi_nickname info) + length (pi_scene info) \<le> 1144"
    by (rule GetPlayerInfo_fits [OF assms])
  moreover have "length (pi_nickname info) mod 2 ^ 16 + length (pi_scene info) mod 2 ^ 16 \<le> 1144"
    using g(4) by simp
  ultimately show ?thesis
    by (simp add: send_player_info_def Make_info_eq w_send_packet length_info_bytes) blast
qed

text \<open>A purchase that the stored balance covers, up to the info packet.\<close>

lemma buy_granted:
  assumes law: "redis_hashes cmd hash" and "rc_ctx (w_redis w)"
    and k: "k = c_str (user_key u)"
    and "FindWeapon t = Some weapon"
    and "rhash hash (w_redis w) k ''balance'' = Some v" and "stoll (c_str v) = Inr b"
    and "wi_price weapon \<le>s b"
  shows "\<exists>w1. buy_weapon cmd stof ctx u t w = send_player_info cmd stof ctx u w1 \<and> rc_ctx (w_redis w1) \<and>
     w_svc w1 = reply_to (ctx_sessionId (ctx_of ctx w))
       (buy_packet (ctx_sessionId (ctx_of ctx w)) True t (b - wi_price weapon)) (w_svc w) \<and>
     rhash hash (w_redis w1) = (rhash hash (w_redis w))(k := (rhash hash (w_redis w) k)
       (''balance'' \<mapsto> to_string (sint b - sint (wi_price weapon)),
        ''weapon'' \<mapsto> to_string (sint t),
        ''ammo_type'' \<mapsto> ''0'',
        ''ammo'' \<mapsto> to_string (5 * sint (wi_magazineSize weapon)))) \<and>
     0 \<le> sint b - sint (wi_price weapon)"
proof -
  have price: "sint (wi_price weapon) \<le> sint b" "0 \<le> sint (wi_price weapon)"
    using FindWeapon_price [OF assms(4)] assms(7) by (simp_all add: word_sle_eq)
  obtain rc where rc: "rhash hash rc = rhash hash (w_redis w)" "rc_ctx rc"
    "GetBalance cmd u 0 (w_redis w) = Inr (True, b, rc)"
    by (rule GetBalance_reads [OF law assms(2), of u 0]) (simp add: assms(5,6) flip: k)
  obtain rc' where rc': "PurchaseWeapon cmd u (b - wi_price weapon) t (wi_magazineSize weapon * 5) 0 rc = (True, rc')"
    "rc_ctx rc'" "rhash hash rc' = (rhash hash rc)(k := (rhash hash rc k)
         (''balance'' \<mapsto> to_string (sint (b - wi_price weapon)), ''weapon'' \<mapsto> to_string (sint t),
          ''ammo_type'' \<mapsto> to_string (sint (0 :: i32)), ''ammo'' \<mapsto> to_string (sint (wi_magazineSize weapon * 5))))"
    using PurchaseWeapon_stores [OF law rc(2)] unfolding k by blast
  have [simp]: "to_string 0 = ''0''" by code_simp
  have "\<not> b <s wi_price weapon" using assms(7) by (simp add: word_sless_alt word_sle_eq)
  with rc rc' price assms(4) sint_diff [OF price(2,1)] FindWeapon_ammo [OF assms(4)] show ?thesis
    by (intro exI [of _ "w\<lparr>w_redis := rc', w_svc := reply_to (ctx_sessionId (ctx_of ctx w))
          (buy_packet (ctx_sessionId (ctx_of ctx w)) True t (b - wi_price weapon)) (w_svc w)\<rparr>"])
       (simp add: buy_weapon_def buy_result_eq mult.commute)
qed

section \<open>A small server\<close>

text \<open>The small client table with one player in the small Redis.\<close>

definition demo_world :: "small_redis world" where
  "demo_world = \<lparr>w_svc = demo_svc, w_redis = \<lparr>rc_ctx = True, rc_server =
     [(''user:u'', [(''balance'', ''700''), (''weapon'', ''4''), (''ammo'', ''2'')])]\<rparr>\<rparr>"

lemma demo_hash: "small_hash (rc_server (w_redis demo_world)) (c_str (user_key ''u'')) =
   [''balance'' \<mapsto> ''700'', ''weapon'' \<mapsto> ''4'', ''ammo'' \<mapsto> ''2'']"
  by (auto simp: small_hash_def demo_world_def user_key_def c_str_def fun_eq_iff)

lemma demo_readable: "readable stof [''balance'' \<mapsto> ''700'', ''weapon'' \<mapsto> ''4'', ''ammo'' \<mapsto> ''2'']"
proof -
  have "stoll ''700'' = Inr 700" "stoi ''4'' = Inr 4" "stoi ''2'' = Inr 2" by code_simp+
  then show ?thesis by (auto simp: readable_def assign_field_def c_str_def split: if_splits)
qed

lemma demo_world_simps [simp]:
  "rc_ctx (w_redis demo_world)" "w_svc demo_world = demo_svc"
  by (simp_all add: demo_world_def)

text \<open>The small Redis behind a connection that is lost after \<open>n\<close> commands.\<close>

definition failing_cmd :: "(nat \<times> small_redis) redis_command" where
  "failing_cmd = (\<lambda>(n, s) fmt args.
     if n = 0 then ((0, s), None) else let (s', reply) = small_cmd s fmt args in ((n - 1, s'), reply))"

section \<open>Properties\<close>

text \<open>
  C34: With Redis as documented and a player whose stored data can be presented, a purchase packet that the
  stored balance covers loads the weapon with exactly five magazines: of the shots that player fires
  after it, the first \<open>5 * magazineSize\<close> succeed and all later ones are refused.
\<close>

theorem purchase_buys_five_magazines:
  assumes law: "redis_hashes cmd hash" and "rc_ctx (w_redis w)"
    and k: "k = c_str (user_key u)"
    and "FindWeapon t = Some weapon"
    and "rhash hash (w_redis w) k ''balance'' = Some v" and "stoll (c_str v) = Inr b"
    and "wi_price weapon \<le>s b"
    and "presentable stof (rhash hash (w_redis w) k)"
    and p: "p = enc_u16 (of_nat (length u)) @ bytes_of u @ enc_u32 t @ rest" and "length u < 2 ^ 16"
    and m: "6 + length u \<le> m" "m \<le> length p" "m < 2 ^ 31"
    and a: "a = nat (5 * sint (wi_magazineSize weapon))"
  shows "\<exists>w' c. Handle_C_BUY_WEAPON cmd stof ctx p (int m) w = Inr w' \<and>
     shots cmd stof u n (w_redis w') = Inr (replicate (min n a) True @ replicate (n - a) False, c)"
proof -
  have "unat (of_nat (length u) :: u16) = length u" using assms(10) by (simp add: unat_of_nat)
  then have "user_id_len p = length u" by (simp add: user_id_len_def p)
  then have buy: "Handle_C_BUY_WEAPON cmd stof ctx p (int m) w = buy_weapon cmd stof ctx u t w"
    using m by (subst buy_eq) (simp_all add: p)
  obtain w1 where w1: "buy_weapon cmd stof ctx u t w = send_player_info cmd stof ctx u w1" "rc_ctx (w_redis w1)"
    "rhash hash (w_redis w1) k = (rhash hash (w_redis w) k)
       (''balance'' \<mapsto> to_string (sint b - sint (wi_price weapon)), ''weapon'' \<mapsto> to_string (sint t),
        ''ammo_type'' \<mapsto> ''0'', ''ammo'' \<mapsto> to_string (5 * sint (wi_magazineSize weapon)))"
    using buy_granted [OF assms(1-7), of stof ctx] by (metis fun_upd_same)
  have numbers: "sint b - sint (wi_price weapon) = sint (b - wi_price weapon)" "''0'' = to_string (sint (0 :: i32))"
    "5 * sint (wi_magazineSize weapon) = sint (wi_magazineSize weapon * 5)"
    using assms(7) FindWeapon_price [OF assms(4)] FindWeapon_ammo [OF assms(4)]
    by (simp_all add: word_sle_eq sint_diff, code_simp)
  have "presentable stof (rhash hash (w_redis w1) k)"
    unfolding w1(3) numbers by (intro presentable_numbers assms(8))
  then obtain w' where w': "send_player_info cmd stof ctx u w1 = Inr w'" "rhash hash (w_redis w') = rhash hash (w_redis w1)"
    "rc_ctx (w_redis w')" "presentable stof (rhash hash (w_redis w') k)"
    using send_player_info_keeps [OF law w1(2), of stof u ctx] unfolding k by auto
  have "t \<noteq> 0" using FindWeapon_cases [OF assms(4)] by auto
  then have "int_field (rhash hash (w_redis w') k) ''weapon'' 0 \<noteq> 0"
    unfolding w'(2) w1(3) by simp
  moreover have "sint (int_field (rhash hash (w_redis w') k) ''ammo'' 0) = int a"
    unfolding w'(2) w1(3) numbers(3) int_field_set using FindWeapon_ammo [OF assms(4)] by (simp add: a)
  ultimately show ?thesis
    using shots_eq [OF law w'(3) k] w'(1,4) w1(1) buy by (fastforce simp: presentable_def)
qed

theorem purchase_buys_five_magazines_witness:
  "\<exists>w' c. Handle_C_BUY_WEAPON small_cmd (\<lambda>_. Inr 0) 0 [1, 0, 117, 4, 0, 0, 0] (int 7) demo_world = Inr w' \<and>
     shots small_cmd (\<lambda>_. Inr 0) ''u'' 40 (w_redis w') = Inr (replicate 30 True @ replicate 10 False, c)"
proof -
  have n: "stoll (c_str ''700'') = Inr 700" "[1, 0, 117, 4, 0, 0, 0] = enc_u16 (of_nat (length ''u'')) @ bytes_of ''u'' @ enc_u32 4 @ []"
    by code_simp+
  have "FindWeapon 4 = Some (the (FindWeapon 4))" "wi_price (the (FindWeapon 4)) \<le>s 700" "sint (wi_magazineSize (the (FindWeapon 4))) = 6"
    by (simp_all add: FindWeapon_def weapon_table_def mk_weapon_def word_sle_eq)
  with n show ?thesis
    using purchase_buys_five_magazines [OF small_redis_hashes, of demo_world "c_str (user_key ''u'')" "''u''" 4 "the (FindWeapon 4)"
      "''700''" 700 "\<lambda>_. Inr 0" "[1, 0, 117, 4, 0, 0, 0]" "[]" 7 30 0 40]
    by (simp add: demo_hash demo_readable presentable_def text_len_def)
qed

text \<open>
  C8: A purchase of an unknown weapon, by a player without a balance, or by a player whose stored
  balance is below the price is refused: nothing in Redis changes, and the buyer gets one result
  packet with the failure byte and the balance read (0 when none was read).
\<close>

theorem purchase_refused:
  assumes law: "redis_hashes cmd hash" and "rc_ctx (w_redis w)"
    and h: "h = rhash hash (w_redis w) (c_str (user_key u))"
    and refused: "FindWeapon t = None \<or> h ''balance'' = None \<or>
      (\<exists>weapon v b. FindWeapon t = Some weapon \<and> h ''balance'' = Some v \<and> stoll (c_str v) = Inr b \<and>
                    b <s wi_price weapon)"
    and shown: "shown = (if FindWeapon t = None \<or> h ''balance'' = None then 0
                         else projr (stoll (c_str (the (h ''balance'')))))"
  shows "\<exists>rc. rhash hash rc = rhash hash (w_redis w) \<and>
     buy_weapon cmd stof ctx u t w = Inr (w\<lparr>w_redis := rc, w_svc := reply_to (ctx_sessionId (ctx_of ctx w))
          (buy_packet (ctx_sessionId (ctx_of ctx w)) False t shown) (w_svc w)\<rparr>)"
proof (cases "FindWeapon t")
  case None
  with shown show ?thesis
    by (intro exI [of _ "w_redis w"]) (simp add: buy_weapon_def buy_result_eq)
next
  case (Some weapon)
  obtain rc where rc: "rhash hash rc = rhash hash (w_redis w)" "rc_ctx rc"
    "GetBalance cmd u 0 (w_redis w) = (case h ''balance'' of
        None \<Rightarrow> Inr (False, 0, rc) | Some v \<Rightarrow> bindr (stoll (c_str v)) (\<lambda>b. Inr (True, b, rc)))"
    using GetBalance_reads [OF law assms(2), of u 0] unfolding h by metis
  with Some refused shown show ?thesis
    by (intro exI [of _ rc]) (auto simp: buy_weapon_def buy_result_eq)
qed

theorem purchase_refused_witness:
  "\<exists>rc. rhash small_hash rc = rhash small_hash (w_redis demo_world) \<and>
     buy_weapon small_cmd (\<lambda>_. Inr 0) 0 ''u'' 1 demo_world =
       Inr (demo_world\<lparr>w_redis := rc, w_svc := reply_to (ctx_sessionId (ctx_of 0 demo_world))
          (buy_packet (ctx_sessionId (ctx_of 0 demo_world)) False 1 700) (w_svc demo_world)\<rparr>)"
proof (rule purchase_refused [OF small_redis_hashes _ refl])
  have "stoll ''700'' = Inr 700" "stoll (c_str ''700'') = Inr 700" by code_simp+
  then show "FindWeapon 1 = None \<or> rhash small_hash (w_redis demo_world) (c_str (user_key ''u'')) ''balance'' = None \<or>
      (\<exists>weapon v b. FindWeapon 1 = Some weapon \<and>
         rhash small_hash (w_redis demo_world) (c_str (user_key ''u'')) ''balance'' = Some v \<and>
         stoll (c_str v) = Inr b \<and> b <s wi_price weapon)"
    "700 = (if FindWeapon 1 = None \<or> rhash small_hash (w_redis demo_world) (c_str (user_key ''u'')) ''balance'' = None
       then 0 else projr (stoll (c_str (the (rhash small_hash (w_redis demo_world) (c_str (user_key ''u'')) ''balance'')))))"
    by (simp_all add: demo_hash FindWeapon_def weapon_table_def mk_weapon_def word_sless_alt)
qed simp

text \<open>
  C7: A purchase the stored balance covers is granted: the stored balance becomes exactly the old one
  minus the price and is not negative, the weapon, ammunition type 0 and five magazines are
  stored, no other field or player changes, and the buyer gets the success packet with the new
  balance, then the player-info packet.
\<close>

theorem purchase_granted:
  assumes law: "redis_hashes cmd hash" and "rc_ctx (w_redis w)"
    and k: "k = c_str (user_key u)"
    and "FindWeapon t = Some weapon"
    and "rhash hash (w_redis w) k ''balance'' = Some v" and "stoll (c_str v) = Inr b"
    and "wi_price weapon \<le>s b"
  shows "\<exists>w1. buy_weapon cmd stof ctx u t w = send_player_info cmd stof ctx u w1 \<and> rc_ctx (w_redis w1) \<and>
     w_svc w1 = reply_to (ctx_sessionId (ctx_of ctx w))
       (buy_packet (ctx_sessionId (ctx_of ctx w)) True t (b - wi_price weapon)) (w_svc w) \<and>
     rhash hash (w_redis w1) = (rhash hash (w_redis w))(k := (rhash hash (w_redis w) k)
       (''balance'' \<mapsto> to_string (sint b - sint (wi_price weapon)),
        ''weapon'' \<mapsto> to_string (sint t),
        ''ammo_type'' \<mapsto> ''0'',
        ''ammo'' \<mapsto> to_string (5 * sint (wi_magazineSize weapon)))) \<and>
     0 \<le> sint b - sint (wi_price weapon)"
  by (rule buy_granted [OF assms])

theorem purchase_granted_witness:
  "\<exists>w1. buy_weapon small_cmd (\<lambda>_. Inr 0) 0 ''u'' 4 demo_world = send_player_info small_cmd (\<lambda>_. Inr 0) 0 ''u'' w1 \<and>
     rc_ctx (w_redis w1)"
proof -
  have "stoll (c_str ''700'') = Inr 700" by code_simp
  moreover have "FindWeapon 4 = Some (the (FindWeapon 4))" "wi_price (the (FindWeapon 4)) \<le>s 700"
    by (simp_all add: FindWeapon_def weapon_table_def mk_weapon_def word_sle_eq)
  ultimately show ?thesis
    using purchase_granted [OF small_redis_hashes, of demo_world "c_str (user_key ''u'')" "''u''" 4 "the (FindWeapon 4)" "''700''" 700 "\<lambda>_. Inr 0" 0]
    by (auto simp: demo_hash)
qed

text \<open>
  C36: The updates of a purchase are not one transaction, and nothing undoes the first: when Redis stores the
  new balance and the connection is lost before the second update, the price is gone from the stored
  balance and nothing else has changed there, while the buyer is told that the purchase failed and
  that the balance is the old one.
\<close>

theorem purchase_half_done:
  assumes "rc_ctx (w_redis w)" and k: "k = c_str (user_key u)"
    and "FindWeapon t = Some weapon"
    and "rhash hash (w_redis w) k ''balance'' = Some v" and "stoll (c_str v) = Inr b" and "wi_price weapon \<le>s b"
    and get: "cmd (rc_server (w_redis w)) ''HGET %s balance'' [k] = (s1, Some (RString v))" "hash s1 = rhash hash (w_redis w)"
    and set: "cmd s1 ''HSET %s balance %s'' [k, to_string (sint (b - wi_price weapon))] = (s2, Some (RInteger n))"
      "hash s2 = set_field k ''balance'' (to_string (sint (b - wi_price weapon))) (hash s1)"
    and lost: "cmd s2 ''HSET %s weapon %s'' [k, to_string (sint t)] = (s3, None)" "hash s3 = hash s2"
  shows "\<exists>rc. buy_weapon cmd stof ctx u t w =
       Inr (w\<lparr>w_redis := rc,
              w_svc := reply_to (ctx_sessionId (ctx_of ctx w))
                (buy_packet (ctx_sessionId (ctx_of ctx w)) False t b) (w_svc w)\<rparr>) \<and>
     rhash hash rc = (rhash hash (w_redis w))(k :=
       (rhash hash (w_redis w) k)(''balance'' \<mapsto> to_string (sint b - sint (wi_price weapon)))) \<and>
     sint b - sint (wi_price weapon) < sint b"
proof -
  have price: "0 < sint (wi_price weapon)" "sint (wi_price weapon) \<le> sint b"
    using FindWeapon_price [OF assms(3)] assms(6) by (simp_all add: word_sle_eq)
  moreover have "\<not> b <s wi_price weapon" using price by (simp add: word_sless_alt)
  ultimately show ?thesis
    using assms sint_diff [of "wi_price weapon" b]
    by (intro exI [of _ "(w_redis w)\<lparr>rc_server := s3\<rparr>"])
       (simp add: buy_weapon_def GetBalance_def PurchaseWeapon_def hset_def redis_run_def buy_result_eq set_field_def)
qed

theorem purchase_half_done_witness:
  "\<exists>rc. buy_weapon failing_cmd (\<lambda>_. Inr 0) 0 ''u'' 4
       \<lparr>w_svc = demo_svc, w_redis = \<lparr>rc_ctx = True, rc_server = (2, rc_server (w_redis demo_world))\<rparr>\<rparr> =
     Inr \<lparr>w_svc = reply_to 1 (buy_packet 1 False 4 700) demo_svc, w_redis = rc\<rparr> \<and>
     small_hash (snd (rc_server rc)) ''user:u'' = [''weapon'' \<mapsto> ''4'', ''ammo'' \<mapsto> ''2'', ''balance'' \<mapsto> ''200'']"
proof -
  let ?db = "rc_server (w_redis demo_world)"
  let ?w = "\<lparr>w_svc = demo_svc, w_redis = \<lparr>rc_ctx = True, rc_server = (2, ?db)\<rparr>\<rparr> :: (nat \<times> small_redis) world"
  let ?db' = "fst (small_cmd ?db ''HSET %s balance %s'' [''user:u'', ''200''])"
  have n: "stoll (c_str ''700'') = Inr 700" "to_string 200 = ''200''" "c_str (user_key ''u'') = ''user:u''" by code_simp+
  have weapon: "FindWeapon 4 = Some (the (FindWeapon 4))" "wi_price (the (FindWeapon 4)) = 500"
    by (simp_all add: FindWeapon_def weapon_table_def mk_weapon_def)
  have h: "small_hash ?db ''user:u'' = [''balance'' \<mapsto> ''700'', ''weapon'' \<mapsto> ''4'', ''ammo'' \<mapsto> ''2'']"
    using demo_hash n(3) by simp
  have h': "small_hash ?db' = set_field ''user:u'' ''balance'' ''200'' (small_hash ?db)"
    using redis_HSET [OF small_redis_hashes, of "''balance''" "''user:u''" "''200''" ?db] by auto
  have steps: "failing_cmd (2, ?db) ''HGET %s balance'' [''user:u''] = ((1, ?db), Some (RString ''700''))"
    "failing_cmd (1, ?db) ''HSET %s balance %s'' [''user:u'', ''200''] = ((0, ?db'), Some (RInteger 1))"
    "failing_cmd (0, ?db') ''HSET %s weapon %s'' [''user:u'', to_string 4] = ((0, ?db'), None)"
    using h by (simp_all add: failing_cmd_def small_cmd_def)
  have "ctx_sessionId (us_ctxs demo_svc 0) = 1" by (simp add: demo_svc_eq fresh_context_def)
  moreover have "(\<lambda>s :: nat \<times> small_redis. small_hash (snd s)) (1, ?db) = small_hash ?db" by simp
  ultimately show ?thesis
    using purchase_half_done [of ?w "''user:u''" "''u''" 4 "the (FindWeapon 4)" "\<lambda>s. small_hash (snd s)" "''700''" 700
      failing_cmd "(1, ?db)" "(0, ?db')" 1 "(0, ?db')" "\<lambda>_. Inr 0" 0] n weapon h h' steps
    by (auto simp: word_sle_eq)
qed

text \<open>
  A shot in the lobby by an identified player with readable data takes exactly one round from the
  stored ammunition when the player has a weapon and at least one round, and changes nothing
  otherwise; the count never goes below zero, and nothing is sent.
\<close>

theorem gun_shot_effect:
  assumes law: "redis_hashes cmd hash" and "rc_ctx (w_redis w)"
    and "ctx_userId (ctx_of ctx w) \<noteq> []"
    and k: "k = c_str (user_key (ctx_userId (ctx_of ctx w)))"
    and "readable stof (rhash hash (w_redis w) k)"
  shows "\<exists>rc. Handle_C_GUN_SHOT_LOBBY cmd stof ctx w = Inr (w\<lparr>w_redis := rc\<rparr>) \<and>
     rhash hash rc =
       (let h = rhash hash (w_redis w) k
        in if int_field h ''weapon'' 0 = 0 \<or> int_field h ''ammo'' 0 \<le>s 0 then rhash hash (w_redis w)
           else (rhash hash (w_redis w))(k := h(''ammo'' \<mapsto> to_string (sint (int_field h ''ammo'' 0) - 1))))"
proof -
  let ?a = "int_field (rhash hash (w_redis w) k) ''ammo'' 0"
  have "sint (?a - 1) = sint ?a - 1" if "\<not> ?a \<le>s 0"
    using that by (intro sint_minus_1) (simp add: word_sless_alt word_sle_eq)
  with ConsumeLobbyAmmo_eq [OF law assms(2) k assms(5), of 0] assms(3) show ?thesis
    by (auto simp: Handle_C_GUN_SHOT_LOBBY_def set_field_def Let_def split: if_splits)
qed

theorem gun_shot_effect_witness:
  "\<exists>rc. Handle_C_GUN_SHOT_LOBBY small_cmd (\<lambda>_. Inr 0) 0
       (demo_world\<lparr>w_svc := upd_ctx 0 (\<lambda>c. c\<lparr>ctx_userId := ''u''\<rparr>) demo_svc\<rparr>) =
     Inr (demo_world\<lparr>w_svc := upd_ctx 0 (\<lambda>c. c\<lparr>ctx_userId := ''u''\<rparr>) demo_svc, w_redis := rc\<rparr>)"
  using gun_shot_effect [OF small_redis_hashes, of "demo_world\<lparr>w_svc := upd_ctx 0 (\<lambda>c. c\<lparr>ctx_userId := ''u''\<rparr>) demo_svc\<rparr>" 0
    "c_str (user_key ''u'')" "\<lambda>_. Inr 0"]
  by (auto simp: demo_hash demo_readable)

text \<open>
  A handshake whose announced user id lies within the bytes received records that user id in the
  sender's context and acknowledges with one packet carrying the session id, then goes on to send
  the player's data; a shorter one changes nothing.
\<close>

theorem hello_acknowledged:
  assumes "n \<le> length p" and "n < 2 ^ 31"
  shows "Handle_C_UDP_HELLO cmd stof ctx p (int n) w =
     (if n < 2 \<or> n < 2 + user_id_len p then Inr w
      else let u = string_of (take (user_id_len p) (drop 2 p));
               sid = ctx_sessionId (ctx_of ctx w)
           in send_player_info cmd stof ctx u
                (w\<lparr>w_svc := reply_to sid (header_bytes sid 0 350 @ enc_u64 sid)
                             (upd_ctx ctx (\<lambda>c. c\<lparr>ctx_userId := u\<rparr>) (w_svc w))\<rparr>))"
  using assms by (simp add: hello_eq hello_acks Let_def)

theorem hello_acknowledged_witness:
  "Handle_C_UDP_HELLO small_cmd (\<lambda>_. Inr 0) 0 [1, 0, 117] (int 3) demo_world =
     send_player_info small_cmd (\<lambda>_. Inr 0) 0 ''u''
       (demo_world\<lparr>w_svc := reply_to 1 (header_bytes 1 0 350 @ enc_u64 1)
                             (upd_ctx 0 (\<lambda>c. c\<lparr>ctx_userId := ''u''\<rparr>) demo_svc)\<rparr>)"
proof -
  have "ctx_sessionId (us_ctxs demo_svc 0) = 1" by (simp add: demo_svc_eq fresh_context_def)
  moreover have "user_id_len [1, 0, 117] = 1" "string_of [117] = ''u''" by code_simp+
  ultimately show ?thesis
    using hello_acknowledged [of 3 "[1, 0, 117]" small_cmd "\<lambda>_. Inr 0" 0 demo_world] by (simp add: Let_def)
qed

text \<open>
  C30: A move packet of at least 17 payload bytes from a client whose user id has at most 1173 bytes is
  relayed with the same four floats and animation byte, under the mover's session and user id, to
  every registered client but the mover, once each, and nothing else changes. (A longer user id, which
  the handshake accepts, does not fit the packet.)
\<close>

theorem move_relayed:
  assumes "registry_ok (w_svc w)" and "17 \<le> n"
    and p: "p = enc_u32 x @ enc_u32 y @ enc_u32 z @ enc_u32 rot @ enc_u8 anim @ rest" and "n \<le> length p"
    and "sid = ctx_sessionId (ctx_of ctx w)" and "u = ctx_userId (ctx_of ctx w)" and "length u \<le> 1173"
  shows "\<exists>ids. distinct ids \<and> set ids = dom (client_addr (w_svc w)) - {sid} \<and>
     Handle_C_LOBBY_MOVE ctx p (int n) w =
       Inr (w\<lparr>w_svc := (w_svc w)\<lparr>us_sent := us_sent (w_svc w) @
              map (\<lambda>i. (the (client_addr (w_svc w) i), header_bytes sid 0 352 @ move_bytes sid u x y z rot anim)) ids\<rparr>\<rparr>)"
proof -
  have d: "take 4 p = enc_u32 x" "take 4 (drop 4 p) = enc_u32 y" "take 4 (drop 8 p) = enc_u32 z"
    "take 4 (drop 12 p) = enc_u32 rot" "take 1 (drop 16 p) = enc_u8 anim"
    by (simp_all add: p)
  have len: "length u mod 2 ^ 16 = length u" using assms(7) by simp
  have "sb_wire (packet_of sid S_LOBBY_PLAYER_MOVE (move_bytes sid u x y z rot anim)) =
      Inr (header_bytes sid 0 352 @ move_bytes sid u x y z rot anim)"
    using assms(7) len by (simp add: length_move_bytes)
  from broadcast_filtered [OF assms(1) this, of "\<lambda>i. i \<noteq> sid"]
  obtain ids where "distinct ids" "set ids = dom (client_addr (w_svc w)) - {sid}"
    "BroadcastExcept sid (packet_of sid S_LOBBY_PLAYER_MOVE (move_bytes sid u x y z rot anim)) (w_svc w) =
       Inr ((w_svc w)\<lparr>us_sent := us_sent (w_svc w) @
              map (\<lambda>i. (the (client_addr (w_svc w) i), header_bytes sid 0 352 @ move_bytes sid u x y z rot anim)) ids\<rparr>)"
    by (auto simp: BroadcastExcept_def BroadcastExcept_loop_eq set_diff_eq)
  then show ?thesis
    using assms(2,4-7) len
    by (intro exI [of _ ids]) (simp add: move_eq d relay_move_def Make_move_eq Let_def del: One_nat_def)
qed

theorem move_relayed_witness:
  "\<exists>ids. distinct ids \<and> set ids = dom (client_addr demo_svc) - {1} \<and>
     Handle_C_LOBBY_MOVE 0 (enc_u32 1 @ enc_u32 2 @ enc_u32 3 @ enc_u32 4 @ enc_u8 5 @ []) (int 17) demo_world =
       Inr (demo_world\<lparr>w_svc := demo_svc\<lparr>us_sent := us_sent demo_svc @
              map (\<lambda>i. (the (client_addr demo_svc i), header_bytes 1 0 352 @ move_bytes 1 [] 1 2 3 4 5)) ids\<rparr>\<rparr>)"
proof -
  have "ctx_sessionId (us_ctxs demo_svc 0) = 1" "ctx_userId (us_ctxs demo_svc 0) = []"
    by (simp_all add: demo_svc_eq fresh_context_def)
  then show ?thesis
    using move_relayed [of demo_world 17 "enc_u32 1 @ enc_u32 2 @ enc_u32 3 @ enc_u32 4 @ enc_u8 5 @ []" 1 2 3 4 5 "[]" 1 0 "[]"]
    by (simp add: demo_svc_ok)
qed



end
