(* ===== verification/UdpGameSession.thy ===== *)
theory UdpGameSession
  imports LobbyHandler
begin

text \<open>
  The receive path: \<^verbatim>\<open>UdpSession::ProcessRecv\<close> (ServerCore) and \<^verbatim>\<open>UdpGameSession::OnRecvPacket\<close>
  (GameServer), which finds or registers the sender, drops stale sequence numbers and dispatches.
  \<open>alive\<close> says whether the weak pointer to the service can still be locked; \<open>now\<close> and \<open>now'\<close> are the readings
  of the clock in the receive path and in the handler.
\<close>

definition OnRecvPacket ::
  "'s redis_command \<Rightarrow> (string \<Rightarrow> f32 result) \<Rightarrow> bool \<Rightarrow> i64 \<Rightarrow> i64 \<Rightarrow> sockaddr_in \<Rightarrow> byte list \<Rightarrow> int \<Rightarrow>
     's world \<Rightarrow> 's world result" where
  "OnRecvPacket cmd stof alive now now' senderAddr buffer len w =
     (if \<not> alive then Inr w
      else if len < int UDP_HEADER_SIZE then Inr w
      else bindr (load_header buffer) (\<lambda>header.
        if ph_sessionId header = 0
        then let (ctx, svc) = RegisterClient now senderAddr (w_svc w)
             in HandlePacket cmd stof now' ctx buffer len (w\<lparr>w_svc := svc\<rparr>)
        else case FindByAddr senderAddr (w_svc w) of
               None \<Rightarrow> Inr w
             | Some ctx \<Rightarrow>
                 if ph_sequence header \<noteq> 0 \<and> ph_sequence header \<le> ctx_lastSeq (ctx_of ctx w)
                 then Inr w
                 else HandlePacket cmd stof now' ctx buffer len
                        (w\<lparr>w_svc := upd_ctx ctx (\<lambda>c. c\<lparr>ctx_lastSeq := ph_sequence header,
                                                       ctx_lastAliveMs := now\<rparr>) (w_svc w)\<rparr>)))"

definition ProcessRecv ::
  "'s redis_command \<Rightarrow> (string \<Rightarrow> f32 result) \<Rightarrow> bool \<Rightarrow> i64 \<Rightarrow> i64 \<Rightarrow> sockaddr_in \<Rightarrow> byte list \<Rightarrow> int \<Rightarrow>
     's world \<Rightarrow> 's world result" where
  "ProcessRecv cmd stof alive now now' recvFromAddr recvBuf numOfBytes w =
     (if int UDP_HEADER_SIZE \<le> numOfBytes
      then OnRecvPacket cmd stof alive now now' recvFromAddr recvBuf numOfBytes w else Inr w)"

section \<open>Effect on the table\<close>

lemma OnRecvPacket_cases:
  assumes "OnRecvPacket cmd stof alive now now' a buf len w = Inr w'"
  obtains "w' = w"
  | hdr ctx svc where "load_header buf = Inr hdr" "ph_sessionId hdr = 0" "RegisterClient now a (w_svc w) = (ctx, svc)"
      "HandlePacket cmd stof now' ctx buf len (w\<lparr>w_svc := svc\<rparr>) = Inr w'"
  | hdr ctx where "load_header buf = Inr hdr" "ph_sessionId hdr \<noteq> 0" "FindByAddr a (w_svc w) = Some ctx"
      "ph_sequence hdr = 0 \<or> ctx_lastSeq (ctx_of ctx w) < ph_sequence hdr"
      "HandlePacket cmd stof now' ctx buf len (w\<lparr>w_svc := upd_ctx ctx (\<lambda>c. c\<lparr>ctx_lastSeq := ph_sequence hdr,
                                                       ctx_lastAliveMs := now\<rparr>) (w_svc w)\<rparr>) = Inr w'"
proof (cases "alive \<and> \<not> len < int UDP_HEADER_SIZE")
  case False
  with assms have "w' = w" by (auto simp: OnRecvPacket_def split: if_splits)
  then show ?thesis by (rule that(1))
next
  case True
  with assms obtain hdr where h: "load_header buf = Inr hdr"
    by (auto simp: OnRecvPacket_def bindr_Inr_iff)
  show ?thesis
  proof (cases "ph_sessionId hdr = 0")
    case sid: True
    obtain ctx svc where "RegisterClient now a (w_svc w) = (ctx, svc)" by fastforce
    with sid h True assms that(2) show ?thesis by (simp add: OnRecvPacket_def)
  next
    case False
    with h True assms that(1,3) show ?thesis
      by (auto simp: OnRecvPacket_def not_le split: option.splits if_splits)
  qed
qed

lemma OnRecvPacket_registry:
  assumes "registry_ok (w_svc w)" "has_room (w_svc w)"
    and "OnRecvPacket cmd stof alive now now' a buf len w = Inr w'"
  shows "registry_ok (w_svc w')"
  using assms(3)
proof (cases rule: OnRecvPacket_cases)
  case 1
  with assms(1) show ?thesis by simp
next
  case (2 hdr ctx svc)
  then have "registry_ok svc" using registry_ok_RegisterClient [OF assms(1,2), of now a] by simp
  with HandlePacket_table [OF 2(4)] show ?thesis by (auto intro: same_table_registry)
next
  case (3 hdr ctx)
  with HandlePacket_table [OF 3(5)] assms(1) show ?thesis
    by (simp add: same_table_registry [OF _ registry_ok_upd_ctx])
qed

lemma OnRecvPacket_clients:
  assumes "registry_ok (w_svc w)" "has_room (w_svc w)"
    and "OnRecvPacket cmd stof alive now now' a buf len w = Inr w'"
  shows "client_addr (w_svc w') = client_addr (w_svc w) \<or>
         (client_addr (w_svc w') = (client_addr (w_svc w))(us_sCounter (w_svc w) \<mapsto> a) \<and> client_addr (w_svc w) (us_sCounter (w_svc w)) = None)"
  using assms(3)
proof (cases rule: OnRecvPacket_cases)
  case 1
  then show ?thesis by simp
next
  case (2 hdr ctx svc)
  have c: "client_addr (w_svc w') = client_addr svc"
    using HandlePacket_table [OF 2(4)] by (auto dest: same_table_client)
  have "snd (register_id now a (w_svc w)) = svc" using 2(3) by (simp add: register_id_def)
  moreover have "client_addr (w_svc w) (us_sCounter (w_svc w)) = None"
    using fresh_id_unused [OF assms(1)] by (simp add: client_addr_def FindById_def)
  ultimately show ?thesis
    using register_id_new [OF assms(1), of a now] register_id_known [of "w_svc w" a _ now] c
    by (cases "map_of (us_addrMap (w_svc w)) (SockAddrKey a)") (auto simp: client_addr_upd_ctx)
next
  case (3 hdr ctx)
  with HandlePacket_table [OF 3(5)] show ?thesis
    by (auto dest!: same_table_client simp: client_addr_upd_ctx)
qed

section \<open>Only the received bytes count\<close>

lemma take_drop_eq: "take n xs = take n ys \<Longrightarrow> i + k \<le> n \<Longrightarrow> take k (drop i xs) = take k (drop i ys)"
proof -
  assume e: "take n xs = take n ys" and "i + k \<le> n"
  then have "take k (drop i zs) = take k (drop i (take n zs))" for zs :: "'a list"
    by (simp add: take_drop min_absorb1)
  with e show ?thesis by metis
qed

lemma load_header_cong:
  assumes "n \<le> length xs" "n \<le> length ys" "take n xs = take n ys" "14 \<le> n"
  shows "load_header xs = load_header ys"
  using assms take_drop_eq [OF assms(3), of 0 8] take_drop_eq [OF assms(3), of 8 4] take_drop_eq [OF assms(3), of 12 2]
  by (simp add: load_header_def load_at_def)

lemma payload_cong:
  assumes "n \<le> length p" "n \<le> length q" "take n p = take n q" "n < 2 ^ 31"
  shows "Handle_C_UDP_HELLO cmd stof ctx p (int n) w = Handle_C_UDP_HELLO cmd stof ctx q (int n) w"
    and "Handle_C_LOBBY_MOVE ctx p (int n) w = Handle_C_LOBBY_MOVE ctx q (int n) w"
    and "Handle_C_BUY_WEAPON cmd stof ctx p (int n) w = Handle_C_BUY_WEAPON cmd stof ctx q (int n) w"
proof -
  note td = take_drop_eq [OF assms(3)]
  have len: "2 \<le> n \<Longrightarrow> user_id_len p = user_id_len q"
    using td [of 0 2] by (simp add: user_id_len_def)
  show "Handle_C_UDP_HELLO cmd stof ctx p (int n) w = Handle_C_UDP_HELLO cmd stof ctx q (int n) w"
    using len td [of 2 "user_id_len p"] 
    by (cases "2 \<le> n") (simp_all add: hello_eq [OF assms(1,4)] hello_eq [OF assms(2,4)])
  show "Handle_C_LOBBY_MOVE ctx p (int n) w = Handle_C_LOBBY_MOVE ctx q (int n) w"
    using td [of 0 4] td [of 4 4] td [of 8 4] td [of 12 4] td [of 16 1] by (simp add: move_eq assms)
  show "Handle_C_BUY_WEAPON cmd stof ctx p (int n) w = Handle_C_BUY_WEAPON cmd stof ctx q (int n) w"
    using len td [of 2 "user_id_len p"] td [of "2 + user_id_len p" 4]
    by (cases "2 \<le> n") (simp_all add: buy_eq [OF assms(1,4)] buy_eq [OF assms(2,4)])
qed

lemma HandlePacket_cong:
  assumes "n \<le> length xs" "n \<le> length ys" "take n xs = take n ys" "n < 2 ^ 31" "14 \<le> n"
  shows "HandlePacket cmd stof now ctx xs (int n) w = HandlePacket cmd stof now ctx ys (int n) w"
proof -
  have i: "int n - 14 = int (n - 14)" using assms(5) by simp
  have p: "n - 14 \<le> length (drop 14 xs)" "n - 14 \<le> length (drop 14 ys)" 
    "take (n - 14) (drop 14 xs) = take (n - 14) (drop 14 ys)" "n - 14 < 2 ^ 31"
    using assms(1,2,4,5) take_drop_eq [OF assms(3), of 14 "n - 14"] by simp_all
  note c = load_header_cong [OF assms(1-3,5)] payload_cong [OF p]
  show ?thesis
    unfolding HandlePacket_def UDP_HEADER_SIZE_def of_nat_numeral i Let_def c by (rule refl)
qed

section \<open>The two outcomes\<close>

lemma recv_registered:
  assumes "load_header buf = Inr hdr" "ph_sessionId hdr \<noteq> 0" "14 \<le> len"
  shows "OnRecvPacket cmd stof True now now' a buf len w =
     (case FindByAddr a (w_svc w) of None \<Rightarrow> Inr w
      | Some ctx \<Rightarrow>
          if ph_sequence hdr \<noteq> 0 \<and> ph_sequence hdr \<le> ctx_lastSeq (ctx_of ctx w) then Inr w
          else HandlePacket cmd stof now' ctx buf len
                 (w\<lparr>w_svc := upd_ctx ctx (\<lambda>c. c\<lparr>ctx_lastSeq := ph_sequence hdr, ctx_lastAliveMs := now\<rparr>) (w_svc w)\<rparr>))"
  using assms by (simp add: OnRecvPacket_def UDP_HEADER_SIZE_def)

text \<open>The handshake datagram of a client.\<close>

definition hello_wire :: "u32 \<Rightarrow> string \<Rightarrow> byte list" where
  "hello_wire sq u = header_bytes 0 sq (packet_id C_UDP_HELLO) @ string_bytes u"

lemma recv_hello:
  assumes "length u \<le> 1198"
  shows "OnRecvPacket cmd stof True now now' a (hello_wire sq u) (int (length (hello_wire sq u))) w =
     (let (r, svc) = RegisterClient now a (w_svc w); sid = ctx_sessionId (us_ctxs svc r)
      in send_player_info cmd stof r u
           (w\<lparr>w_svc := reply_to sid (header_bytes sid 0 350 @ enc_u64 sid)
                        (upd_ctx r (\<lambda>c. c\<lparr>ctx_userId := u\<rparr>) svc)\<rparr>))"
proof -
  have len: "length u mod 2 ^ 16 = length u" "length u mod 65536 = length u" using assms by simp_all
  then have "user_id_len (string_bytes u) = length u"
    by (simp add: user_id_len_def string_bytes_def unat_of_nat)
  moreover have "length (string_bytes u) = length u + 2" "string_of (take (length u) (drop 2 (string_bytes u))) = u"
    using len by (simp_all add: string_bytes_def)
  moreover have "drop 14 (hello_wire sq u) = string_bytes u" "length (hello_wire sq u) = 14 + length (string_bytes u)"
    by (simp_all add: hello_wire_def header_bytes_def)
  moreover have "load_header (hello_wire sq u) = Inr \<lparr>ph_sessionId = 0, ph_sequence = sq, ph_id = 300\<rparr>"
    by (simp add: hello_wire_def load_header_bytes)
  ultimately show ?thesis
    using assms hello_eq [of "length u + 2" "string_bytes u" cmd stof _]
    by (simp add: OnRecvPacket_def HandlePacket_def UDP_HEADER_SIZE_def hello_acks split_beta Let_def)
qed

section \<open>Concrete inputs\<close>

lemma demo_clients:
  "client_addr demo_svc = [1 \<mapsto> demo_addr 8, 2 \<mapsto> demo_addr 9]"
  "us_sCounter demo_svc = 3"
  by (auto simp: demo_svc_eq client_addr_def FindById_def)

lemma demo_find: "FindByAddr (demo_addr 8) demo_svc = Some 0"
  by (simp add: demo_svc_eq FindByAddr_def)

text \<open>A heartbeat of the first client.\<close>

lemma demo_heartbeat:
  "\<exists>w1. OnRecvPacket small_cmd (\<lambda>_. Inr 0) True 5 6 (demo_addr 8) (header_bytes 1 sq 302 @ [0]) 14 demo_world = Inr w1 \<and>
        w_redis w1 = w_redis demo_world"
proof -
  have "ctx_lastSeq (us_ctxs demo_svc 0) = 0" by (simp add: demo_svc_eq fresh_context_def)
  then show ?thesis
    by (simp add: recv_registered [OF load_header_bytes] demo_find HandlePacket_def load_header_bytes
      Handle_C_LOBBY_HEARTBEAT_def)
qed

section \<open>Without Redis\<close>

text \<open>Without Redis and with short user ids no handler leaves a buffer.\<close>

definition short_ids :: "udp_service \<Rightarrow> bool" where
  "short_ids s \<longleftrightarrow> (\<forall>r. length (ctx_userId (us_ctxs s r)) \<le> 1173)"

lemma offline_info: "\<not> rc_ctx (w_redis w) \<Longrightarrow> send_player_info cmd stof ctx u w = Inr w"
  by (simp add: send_player_info_def GetPlayerInfo_def)

lemma offline_buy: "\<not> rc_ctx (w_redis w) \<Longrightarrow> \<exists>w'. buy_weapon cmd stof ctx u t w = Inr w'"
  by (simp add: buy_weapon_def GetBalance_def buy_result_eq split: option.split)

lemma relay_move_ok:
  assumes "short_ids (w_svc w)"
  shows "\<exists>w'. relay_move ctx x y z r a w = Inr w'"
proof -
  have "length (ctx_userId (ctx_of ctx w)) mod 2 ^ 16 \<le> 1173" using assms by (simp add: short_ids_def order.trans [OF mod_less_eq_dividend])
  then show ?thesis
    by (simp add: relay_move_def Make_move_eq BroadcastExcept_def BroadcastExcept_loop_eq Broadcast_loop_eq Let_def
      length_move_bytes)
qed

lemma load_header_ok: "14 \<le> length buf \<Longrightarrow> \<exists>h. load_header buf = Inr h"
  by (simp add: load_header_def load_at_def)

lemma offline_HandlePacket:
  assumes "\<not> rc_ctx (w_redis w)" and "short_ids (w_svc w)" and "14 \<le> n" and "n \<le> length buf" and "n < 2 ^ 31"
  shows "\<exists>w'. HandlePacket cmd stof now ctx buf (int n) w = Inr w'"
proof -
  have i: "int n - 14 = int (n - 14)" using assms(3) by simp
  have p: "n - 14 \<le> length (drop 14 buf)" "n - 14 < 2 ^ 31" using assms(3-5) by simp_all
  obtain h where "load_header buf = Inr h" using load_header_ok [of buf] assms(3,4) by auto
  moreover have "\<exists>w'. Handle_C_UDP_HELLO cmd stof ctx (drop 14 buf) (int (n - 14)) w = Inr w'"
    using assms(1) by (simp add: hello_eq [OF p] hello_acks offline_info Let_def del: One_nat_def)
  moreover have "\<exists>w'. Handle_C_LOBBY_MOVE ctx (drop 14 buf) (int (n - 14)) w = Inr w'"
    unfolding move_eq [OF p(1)] using relay_move_ok [OF assms(2)] by simp
  moreover have "\<exists>w'. Handle_C_BUY_WEAPON cmd stof ctx (drop 14 buf) (int (n - 14)) w = Inr w'"
    unfolding buy_eq [OF p] using offline_buy [OF assms(1)] by simp
  moreover have "\<exists>w'. Handle_C_GUN_SHOT_LOBBY cmd stof ctx w = Inr w'"
    using assms(1) by (simp add: Handle_C_GUN_SHOT_LOBBY_def ConsumeLobbyAmmo_def GetPlayerInfo_def)
  ultimately show ?thesis by (simp add: HandlePacket_def UDP_HEADER_SIZE_def Let_def i)
qed

section \<open>Properties\<close>

text \<open>
  C33: What a datagram does depends on its \<open>n\<close> received bytes only: the bytes of earlier datagrams that
  still fill the rest of the receive buffer never reach a handler.
\<close>

theorem recv_reads_only_received:
  assumes "n \<le> length buf" "n \<le> length buf'" "n < 2 ^ 31" "take n buf = take n buf'"
  shows "OnRecvPacket cmd stof alive now now' a buf (int n) w = OnRecvPacket cmd stof alive now now' a buf' (int n) w"
proof (cases "14 \<le> n")
  case True
  note c = HandlePacket_cong [OF assms(1,2,4,3) True] load_header_cong [OF assms(1,2,4) True]
  show ?thesis unfolding OnRecvPacket_def c by (simp add: c cong: if_cong option.case_cong)
qed (simp add: OnRecvPacket_def UDP_HEADER_SIZE_def)

theorem recv_reads_only_received_witness:
  "OnRecvPacket small_cmd (\<lambda>_. Inr 0) True 5 6 (demo_addr 8) (replicate 16 0 @ [1]) (int 16) demo_world =
   OnRecvPacket small_cmd (\<lambda>_. Inr 0) True 5 6 (demo_addr 8) (replicate 16 0 @ [2]) (int 16) demo_world"
  by (rule recv_reads_only_received) simp_all



text \<open>
  A datagram with a session id and a non-zero sequence number that arrives twice in a row has its
  effect once: the second delivery changes nothing, whatever the first one did.
\<close>

theorem duplicate_dropped:
  assumes hdr: "load_header buf = Inr hdr" "ph_sessionId hdr \<noteq> 0" "ph_sequence hdr \<noteq> 0"
    and "OnRecvPacket cmd stof True now now' a buf len w = Inr w1"
  shows "OnRecvPacket cmd stof True later later' a buf len w1 = Inr w1"
proof (cases "14 \<le> len")
  case True
  note recv = recv_registered [OF hdr(1,2) True, of cmd stof _ _ a]
  show ?thesis
  proof (cases "FindByAddr a (w_svc w)")
    case None
    with assms(4) show ?thesis by (simp add: recv)
  next
    case (Some ctx)
    let ?s = "upd_ctx ctx (\<lambda>c. c\<lparr>ctx_lastSeq := ph_sequence hdr, ctx_lastAliveMs := now\<rparr>) (w_svc w)"
    show ?thesis
    proof (cases "ph_sequence hdr \<le> ctx_lastSeq (ctx_of ctx w)")
      case True
      with Some hdr assms(4) show ?thesis by (simp add: recv)
    next
      case False
      with Some assms(4) have "same_table ?s (w_svc w1)"
        by (auto simp: recv dest: HandlePacket_table)
      then have "ctx_lastSeq (ctx_of ctx w1) = ph_sequence hdr" "FindByAddr a (w_svc w1) = FindByAddr a ?s"
        by (simp_all add: same_table_lastSeq same_table_find)
      moreover have "FindByAddr a ?s = Some ctx"
        using Some by (auto simp: FindByAddr_def Let_def split: option.splits if_splits)
      ultimately show ?thesis by (simp add: recv hdr)
    qed
  qed
qed (use assms in \<open>simp add: OnRecvPacket_def UDP_HEADER_SIZE_def\<close>)

theorem duplicate_dropped_witness:
  "\<exists>w1. OnRecvPacket small_cmd (\<lambda>_. Inr 0) True 5 6 (demo_addr 8) (header_bytes 1 4 302 @ [0]) 14 demo_world = Inr w1 \<and>
     OnRecvPacket small_cmd (\<lambda>_. Inr 0) True 7 8 (demo_addr 8) (header_bytes 1 4 302 @ [0]) 14 w1 = Inr w1"
  using demo_heartbeat [of 4] duplicate_dropped [OF load_header_bytes [of 1 4 302 "[0]"], of small_cmd "\<lambda>_. Inr 0" 5 6 "demo_addr 8" 14 demo_world _ 7 8]
  by auto

text \<open>
  A datagram that claims a session is ignored when no registered client has the sender's address
  and port.
\<close>

theorem unregistered_ignored:
  assumes "load_header buf = Inr hdr" "ph_sessionId hdr \<noteq> 0"
    "\<forall>i a'. client_addr (w_svc w) i = Some a' \<longrightarrow> sin_addr a' \<noteq> sin_addr a \<or> sin_port a' \<noteq> sin_port a" 
    "registry_ok (w_svc w)"
  shows "OnRecvPacket cmd stof alive now now' a buf len w = Inr w"
proof -
  have "FindByAddr a (w_svc w) = None"
    using addrMap_client [OF assms(4)] assms(3)
    by (fastforce simp: FindByAddr_def Let_def split: option.split)
  with assms(1,2) show ?thesis by (simp add: OnRecvPacket_def)
qed

theorem unregistered_ignored_witness:
  "OnRecvPacket small_cmd (\<lambda>_. Inr 0) True 5 6 (demo_addr 10) (header_bytes 7 1 302 @ [0]) 14 demo_world = Inr demo_world"
  by (rule unregistered_ignored [OF load_header_bytes])
     (auto simp: demo_clients demo_svc_ok demo_addr_def split: if_splits)

text \<open>
  C40: A handshake from any address whose 32-bit key equals that of a registered client's address is
  taken for that client: no entry is made for the sender, the client's user id is overwritten, and
  the acknowledgement goes to the client; \<^verbatim>\<open>RegisterClient\<close> does not compare the addresses as
  \<^verbatim>\<open>FindByAddr\<close> does.
\<close>

theorem colliding_hello_hijacks:
  assumes ok: "registry_ok (w_svc w)" and i: "client_addr (w_svc w) i = Some a"
    and key: "SockAddrKey b = SockAddrKey a" and "length u \<le> 1198"
  shows "\<exists>r w1. OnRecvPacket cmd stof True now now' b (hello_wire sq u) (int (length (hello_wire sq u))) w =
       send_player_info cmd stof r u w1 \<and>
     FindById i (w_svc w) = Some r \<and> client_addr (w_svc w1) = client_addr (w_svc w) \<and>
     ctx_userId (ctx_of r w1) = u \<and>
     us_sent (w_svc w1) = us_sent (w_svc w) @ [(a, header_bytes i 0 350 @ enc_u64 i)]"
proof -
  obtain r where r: "map_of (us_addrMap (w_svc w)) (SockAddrKey b) = Some r" "ctx_sessionId (ctx_of r w) = i"
    "FindById i (w_svc w) = Some r"
    using ok i unfolding key client_addr_def FindById_def registry_ok_def linked_def
    by (auto simp del: map_of_eq_Some_iff)
  let ?svc = "upd_ctx r (\<lambda>c. c\<lparr>ctx_userId := u\<rparr>) (upd_ctx r (\<lambda>c. c\<lparr>ctx_lastAliveMs := now\<rparr>) (w_svc w))"
  have tab: "client_addr ?svc = client_addr (w_svc w)" by (simp add: client_addr_upd_ctx)
  show ?thesis
    using recv_hello [OF assms(4), of cmd stof now now' b sq w] r tab i
    by (intro exI [of _ r] exI [of _ "w\<lparr>w_svc := reply_to i (header_bytes i 0 350 @ enc_u64 i) ?svc\<rparr>"])
       (simp add: reply_to_def RegisterClient_def sent_same_table [THEN same_table_client])
qed

theorem colliding_hello_hijacks_witness:
  "\<exists>r w1. OnRecvPacket small_cmd (\<lambda>_. Inr 0) True 5 6 \<lparr>sin_family = AF_INET, sin_port = 0x581A, sin_addr = 9\<rparr>
         (hello_wire 0 ''v'') (int (length (hello_wire 0 ''v''))) demo_world =
       send_player_info small_cmd (\<lambda>_. Inr 0) r ''v'' w1 \<and>
     FindById 1 demo_svc = Some r \<and> ctx_userId (ctx_of r w1) = ''v'' \<and>
     us_sent (w_svc w1) = us_sent demo_svc @ [(demo_addr 8, header_bytes 1 0 350 @ enc_u64 1)]"
proof -
  have "SockAddrKey \<lparr>sin_family = AF_INET, sin_port = 0x581A, sin_addr = 9\<rparr> = SockAddrKey (demo_addr 8)"
    by (simp add: SockAddrKey_def demo_addr_def)
  then show ?thesis
    using colliding_hello_hijacks [of demo_world 1 "demo_addr 8" _ "''v''" small_cmd "\<lambda>_. Inr 0" 5 6 0]
    by (fastforce simp: demo_clients demo_svc_ok)
qed

text \<open>
  C5: After a datagram with sequence number 0 of a registered client has been handled, every datagram of
  that client with a non-zero number is accepted and handled, also one that was handled before: the
  zero is stored as the last number seen.
\<close>

theorem zero_sequence_allows_replay:
  assumes "load_header z = Inr hz" "ph_sessionId hz \<noteq> 0" "ph_sequence hz = 0" "14 \<le> zl"
    and "FindByAddr a (w_svc w) = Some ctx"
    and "OnRecvPacket cmd stof True now now' a z zl w = Inr w1"
    and "load_header buf = Inr hdr" "ph_sessionId hdr \<noteq> 0" "ph_sequence hdr \<noteq> 0" "14 \<le> len"
  shows "OnRecvPacket cmd stof True later later' a buf len w1 =
     HandlePacket cmd stof later' ctx buf len
       (w1\<lparr>w_svc := upd_ctx ctx (\<lambda>c. c\<lparr>ctx_lastSeq := ph_sequence hdr, ctx_lastAliveMs := later\<rparr>) (w_svc w1)\<rparr>)"
proof -
  let ?s = "upd_ctx ctx (\<lambda>c. c\<lparr>ctx_lastSeq := 0, ctx_lastAliveMs := now\<rparr>) (w_svc w)"
  have "same_table ?s (w_svc w1)"
    using assms(3,5,6) by (auto simp: recv_registered [OF assms(1,2,4)] dest: HandlePacket_table)
  then have "ctx_lastSeq (ctx_of ctx w1) = 0" "FindByAddr a (w_svc w1) = FindByAddr a ?s"
    by (simp_all add: same_table_lastSeq same_table_find)
  moreover have "FindByAddr a ?s = Some ctx"
    using assms(5) by (auto simp: FindByAddr_def Let_def split: option.splits if_splits)
  ultimately show ?thesis using assms(9) by (simp add: recv_registered [OF assms(7,8,10)])
qed

theorem zero_sequence_allows_replay_witness:
  "\<exists>w1. OnRecvPacket small_cmd (\<lambda>_. Inr 0) True 5 6 (demo_addr 8) (header_bytes 1 0 302 @ [0]) 14 demo_world = Inr w1 \<and>
     OnRecvPacket small_cmd (\<lambda>_. Inr 0) True 7 8 (demo_addr 8) (header_bytes 1 4 302 @ [0]) 14 w1 =
     HandlePacket small_cmd (\<lambda>_. Inr 0) 8 0 (header_bytes 1 4 302 @ [0]) 14
       (w1\<lparr>w_svc := upd_ctx 0 (\<lambda>c. c\<lparr>ctx_lastSeq := 4, ctx_lastAliveMs := 7\<rparr>) (w_svc w1)\<rparr>)"
  using demo_heartbeat [of 0]
    zero_sequence_allows_replay [OF load_header_bytes [of 1 0 302 "[0]"] _ _ _ _ _ load_header_bytes [of 1 4 302 "[0]"],
      of 14 "demo_addr 8" demo_world 0 small_cmd "\<lambda>_. Inr 0" 5 6 _ 14 7 8]
  by (auto simp: demo_find)

text \<open>
  The session id of a datagram is only tested for zero: two datagrams from one sender that differ
  in non-zero session ids have the same effect.
\<close>

theorem session_id_not_compared:
  assumes "s1 \<noteq> 0" "s2 \<noteq> 0"
  shows "OnRecvPacket cmd stof alive now now' a (header_bytes s1 sq pid @ p) len w =
         OnRecvPacket cmd stof alive now now' a (header_bytes s2 sq pid @ p) len w"
proof -
  have "drop 14 (header_bytes s sq pid @ p) = p" for s by (simp add: header_bytes_def)
  then have "HandlePacket cmd stof t r (header_bytes s1 sq pid @ p) len v =
             HandlePacket cmd stof t r (header_bytes s2 sq pid @ p) len v" for t r v
    by (simp add: HandlePacket_def load_header_bytes UDP_HEADER_SIZE_def)
  with assms show ?thesis
    by (simp add: OnRecvPacket_def load_header_bytes cong: if_cong option.case_cong)
qed

theorem session_id_not_compared_witness:
  "OnRecvPacket small_cmd (\<lambda>_. Inr 0) True 5 6 (demo_addr 8) (header_bytes 1 4 302 @ [0]) 14 demo_world =
   OnRecvPacket small_cmd (\<lambda>_. Inr 0) True 5 6 (demo_addr 8) (header_bytes 99 4 302 @ [0]) 14 demo_world"
  by (rule session_id_not_compared) simp_all

text \<open>
  Without Redis, with user ids of at most 1173 bytes and a received length inside the receive
  buffer, handling any datagram whatever its bytes ends without an access outside a buffer and
  without an exception.
\<close>

theorem offline_memory_safe:
  assumes "\<not> rc_ctx (w_redis w)" and "short_ids (w_svc w)" and "n \<le> length buf" and "n < 2 ^ 31"
  shows "\<exists>w'. OnRecvPacket cmd stof alive now now' a buf (int n) w = Inr w'"
proof (cases "alive \<and> 14 \<le> n")
  case True
  then obtain h where h: "load_header buf = Inr h" using load_header_ok [of buf] assms(3) by auto
  have up: "short_ids (upd_ctx r (\<lambda>c. c\<lparr>ctx_lastSeq := q, ctx_lastAliveMs := now\<rparr>) (w_svc w))" for r q
    using assms(2) by (simp add: short_ids_def)
  have reg: "short_ids (snd (RegisterClient now a (w_svc w)))"
    using assms(2) by (auto simp: short_ids_def RegisterClient_def Let_def GenerateSessionId_def fresh_context_def split: option.split)
  note ok = offline_HandlePacket [where buf = buf, OF _ _ _ assms(3,4)]
  show ?thesis
    using True h assms(1)
    by (auto simp: OnRecvPacket_def UDP_HEADER_SIZE_def split_beta split: option.split intro!: ok up reg)
qed (auto simp: OnRecvPacket_def UDP_HEADER_SIZE_def)

theorem offline_memory_safe_witness:
  "\<exists>w'. OnRecvPacket small_cmd (\<lambda>_. Inr 0) True 5 6 (demo_addr 8) (replicate 1214 0) (int 40)
     (demo_world\<lparr>w_redis := \<lparr>rc_ctx = False, rc_server = []\<rparr>\<rparr>) = Inr w'"
  by (rule offline_memory_safe) (simp_all add: short_ids_def demo_svc_eq fresh_context_def udp_service_init_def)

end
