(* ===== verification/ClientTable.thy ===== *)
theory ClientTable
  imports UdpService
begin

text \<open>
  What any step of the server may do to the client table, and, in the locale \<open>table_machine\<close>, what follows
  for whole runs of any step relation that keeps to it: the one of \<^verbatim>\<open>GameServer\<close>, where a datagram is
  handled in one step, and the one of \<^verbatim>\<open>Interleaving\<close>, where it takes several.
\<close>

section \<open>Steps and the table\<close>

text \<open>
  What a step may do to the table: remove clients, or add one client under the counter's value and
  raise the counter. No context changes its address, and a context that exists lowers its last
  sequence number only for a datagram with number 0.
\<close>

definition table_step :: "bool \<Rightarrow> udp_service \<Rightarrow> udp_service \<Rightarrow> bool" where
  "table_step ordered s t \<longleftrightarrow>
     (us_sCounter t = us_sCounter s \<and> us_nextRef t = us_nextRef s \<and> client_addr t \<subseteq>\<^sub>m client_addr s \<or>
      us_sCounter t = us_sCounter s + 1 \<and> us_nextRef t = Suc (us_nextRef s) \<and>
      (\<forall>i. i \<noteq> us_sCounter s \<longrightarrow> client_addr t i = client_addr s i)) \<and>
     (ordered \<longrightarrow> (\<forall>r < us_nextRef s. ctx_lastSeq (us_ctxs s r) \<le> ctx_lastSeq (us_ctxs t r)))"

lemma table_step_client:
  "table_step b s t \<Longrightarrow> i \<noteq> us_sCounter s \<Longrightarrow> client_addr t i = client_addr s i \<or> client_addr t i = None"
  by (cases "i \<in> dom (client_addr t)") (auto simp: table_step_def map_le_def simp flip: domIff)

lemma table_step_same: "same_table s t \<Longrightarrow> table_step b s t"
  by (frule same_table_client) (simp add: table_step_def same_table_def)

lemma table_step_then: "table_step b s t \<Longrightarrow> same_table t u \<Longrightarrow> table_step b s u"
  by (frule same_table_client) (simp add: table_step_def same_table_def)

lemma RemoveClient_keeps [simp]:
  "us_sCounter (RemoveClient i s) = us_sCounter s" "us_nextRef (RemoveClient i s) = us_nextRef s"
  "us_ctxs (RemoveClient i s) = us_ctxs s" "us_sent (RemoveClient i s) = us_sent s"
  by (simp_all add: RemoveClient_def Let_def split: option.split)

lemma table_step_RemoveClient: "table_step b s (RemoveClient i s)"
  by (simp add: table_step_def client_addr_RemoveClient map_le_def)

lemma table_step_RegisterClient:
  assumes "registry_ok s"
  shows "table_step b s (snd (RegisterClient now a s))"
proof (cases "map_of (us_addrMap s) (SockAddrKey a)")
  case None
  then have "client_addr (snd (RegisterClient now a s)) = (client_addr s)(us_sCounter s \<mapsto> a)"
    using register_id_new(2) [OF assms None, of now] by (simp add: register_id_def split_beta)
  with None show ?thesis
    by (auto simp: table_step_def RegisterClient_def Let_def GenerateSessionId_def)
next
  case (Some r)
  then show ?thesis by (simp add: RegisterClient_def table_step_same)
qed

section \<open>Runs\<close>

lemma has_room_below: "unat (us_sCounter s) + 1 < 2 ^ 64 \<Longrightarrow> has_room s"
  by (auto simp: has_room_def unsigned_minus_1_eq_mask mask_eq_exp_minus_1)

lemma counter_Suc: "has_room s \<Longrightarrow> unat (us_sCounter s + 1) = Suc (unat (us_sCounter s))"
  using unatSuc [of "us_sCounter s"] by (metis has_room_def add.commute eq_neg_iff_add_eq_0)

inductive run_of :: "('e \<Rightarrow> 's \<Rightarrow> 's \<Rightarrow> bool) \<Rightarrow> 'e list \<Rightarrow> 's \<Rightarrow> 's \<Rightarrow> bool" for step where
  run_refl: "run_of step [] s s"
| run_step: "run_of step es s t \<Longrightarrow> step e t u \<Longrightarrow> run_of step (es @ [e]) s u"

lemma run_of_append: "run_of step fs t u \<Longrightarrow> run_of step es s t \<Longrightarrow> run_of step (es @ fs) s u"
  by (induction rule: run_of.induct) (auto simp flip: append_assoc intro: run_step)

lemma run_of_Cons: "step e s t \<Longrightarrow> run_of step es t u \<Longrightarrow> run_of step (e # es) s u"
  using run_of_append [of step es t u "[e]" s] run_step [OF run_refl] by fastforce

text \<open>A machine with a client table, each step of which keeps to \<open>table_step\<close> and keeps the table consistent.\<close>

locale table_machine =
  fixes step :: "'e \<Rightarrow> 's \<Rightarrow> 's \<Rightarrow> bool"
    and svc :: "'s \<Rightarrow> udp_service"
    and ordered :: "'e \<Rightarrow> bool"
  assumes step_table: "step e s t \<Longrightarrow> registry_ok (svc s) \<Longrightarrow> table_step (ordered e) (svc s) (svc t)"
    and step_registry: "step e s t \<Longrightarrow> registry_ok (svc s) \<Longrightarrow> has_room (svc s) \<Longrightarrow> registry_ok (svc t)"
begin

lemma run_ok:
  assumes "run_of step es s t" and "registry_ok (svc s)" and "unat (us_sCounter (svc s)) + length es < 2 ^ 64"
  shows "registry_ok (svc t) \<and>
     unat (us_sCounter (svc t)) \<le> unat (us_sCounter (svc s)) + length es \<and>
     us_nextRef (svc s) \<le> us_nextRef (svc t)"
  using assms
proof induction
  case (run_step es s t e u)
  then have t: "registry_ok (svc t)" "unat (us_sCounter (svc t)) \<le> unat (us_sCounter (svc s)) + length es"
    "us_nextRef (svc s) \<le> us_nextRef (svc t)" by simp_all
  then have room: "has_room (svc t)" using run_step.prems by (intro has_room_below) simp
  have "unat (us_sCounter (svc t) + 1) \<le> unat (us_sCounter (svc t)) + 1"
    by (simp add: unat_word_ariths(1))
  with t run_step step_table [OF run_step.hyps(2) t(1)] show ?case
    by (auto simp: table_step_def step_registry [OF run_step.hyps(2) t(1) room])
qed simp

text \<open>Whatever a step keeps, given a consistent table and room in the counter, a run keeps.\<close>

lemma run_invariant:
  assumes "run_of step es s t" and "registry_ok (svc s)" and "unat (us_sCounter (svc s)) + length es < 2 ^ 64"
    and "list_all ok es" and "P s"
    and keeps: "\<And>e s t. step e s t \<Longrightarrow> registry_ok (svc s) \<Longrightarrow> has_room (svc s) \<Longrightarrow> ok e \<Longrightarrow> P s \<Longrightarrow> P t"
  shows "P t"
  using assms(1-5)
proof induction
  case (run_step es s t e u)
  then have t: "registry_ok (svc t)" "unat (us_sCounter (svc t)) \<le> unat (us_sCounter (svc s)) + length es"
    using run_ok [OF run_step.hyps(1)] by simp_all
  then have "has_room (svc t)" using run_step.prems by (intro has_room_below) simp
  with t run_step show ?case by (intro keeps [OF run_step.hyps(2)]) simp_all
qed simp

lemma run_clients:
  assumes "run_of step es s t" and "registry_ok (svc s)"
    and "unat (us_sCounter (svc s)) + length es < 2 ^ 64" and "i < us_sCounter (svc s)"
  shows "i < us_sCounter (svc t) \<and>
     (client_addr (svc t) i = client_addr (svc s) i \<or> client_addr (svc t) i = None)"
proof (rule run_invariant [OF assms(1-3), where ok = "\<lambda>_. True"])
  fix e t u
  assume step: "step e t u" and ok: "registry_ok (svc t)" and room: "has_room (svc t)"
    and i: "i < us_sCounter (svc t) \<and> (client_addr (svc t) i = client_addr (svc s) i \<or> client_addr (svc t) i = None)"
  note t = step_table [OF step ok]
  have "us_sCounter (svc t) < us_sCounter (svc t) + 1"
    using counter_Suc [OF room] by (simp add: word_less_nat_alt)
  then have "i < us_sCounter (svc u)" using i t by (auto simp: table_step_def)
  moreover have "i \<noteq> us_sCounter (svc t)" using i by auto
  ultimately show "i < us_sCounter (svc u) \<and> (client_addr (svc u) i = client_addr (svc s) i \<or> client_addr (svc u) i = None)"
    using i table_step_client [OF t, of i] by auto
qed (use assms(4) in \<open>simp_all add: list_all_iff\<close>)

lemma run_lastSeq:
  assumes "run_of step es s t" and "registry_ok (svc s)"
    and "unat (us_sCounter (svc s)) + length es < 2 ^ 64" and "r < us_nextRef (svc s)"
    and "\<forall>e \<in> set es. ordered e"
  shows "ctx_lastSeq (us_ctxs (svc s) r) \<le> ctx_lastSeq (us_ctxs (svc t) r)"
  using assms
proof induction
  case (run_step es s t e u)
  have t: "registry_ok (svc t)" "r < us_nextRef (svc t)"
    using run_ok [OF run_step.hyps(1)] run_step.prems by simp_all
  from run_step have "ctx_lastSeq (us_ctxs (svc s) r) \<le> ctx_lastSeq (us_ctxs (svc t) r)" by simp
  also have "\<dots> \<le> ctx_lastSeq (us_ctxs (svc u) r)"
    using step_table [OF run_step.hyps(2) t(1)] t(2) run_step.prems by (simp add: table_step_def)
  finally show ?case .
qed simp

end

end
