(* ===== verification/GameServer.thy ===== *)
theory GameServer
  imports UdpGameSession ClientTable
begin

text \<open>
  \<^verbatim>\<open>GameServer.cpp\<close>: the running server. The worker threads dispatch the completions of the one
  receive of the one socket, so datagrams are handled one at a time; the main thread runs \<^verbatim>\<open>Tick\<close>
  and announces the removed clients. A step of the server is the handling of one datagram, or one
  of the atomic sections of the main loop: collecting the expired clients, removing one of them,
  announcing one of them. A run is a sequence of labelled steps; a step that faults (an access
  outside a buffer, an exception nobody catches) ends the process and has no successor.
\<close>

section \<open>The server\<close>

datatype main_pc =
    Sleeping
  | Removing "u64 list" "u64 list"  
  | Leaving "u64 list"              

record 's server =
  sv_world :: "'s world"
  sv_main :: main_pc

datatype server_event =
    Received i64 i64 sockaddr_in "byte list" int
  | Collected i64
  | Removed u64
  | Ticked
  | Announced u64
  | Slept

definition server_start :: "connect_outcome \<Rightarrow> 's \<Rightarrow> 's server" where
  "server_start outcome redis =
     \<lparr>sv_world = \<lparr>w_svc = udp_service_init, w_redis = snd (Connect outcome \<lparr>rc_ctx = False, rc_server = redis\<rparr>)\<rparr>,
      sv_main = Sleeping\<rparr>"

definition map_svc :: "(udp_service \<Rightarrow> udp_service) \<Rightarrow> 's world \<Rightarrow> 's world" where
  "map_svc f w = w\<lparr>w_svc := f (w_svc w)\<rparr>"

inductive server_step ::
  "'s redis_command \<Rightarrow> (string \<Rightarrow> f32 result) \<Rightarrow> server_event \<Rightarrow> 's server \<Rightarrow> 's server \<Rightarrow> bool"
  for cmd stof where
  recv: "ProcessRecv cmd stof True now now' a buf n w = Inr w' \<Longrightarrow>
    server_step cmd stof (Received now now' a buf n) \<lparr>sv_world = w, sv_main = pc\<rparr> \<lparr>sv_world = w', sv_main = pc\<rparr>"
| collect: "ids = Tick_collect now (w_svc w) \<Longrightarrow>
    server_step cmd stof (Collected now) \<lparr>sv_world = w, sv_main = Sleeping\<rparr> \<lparr>sv_world = w, sv_main = Removing ids ids\<rparr>"
| remove: "server_step cmd stof (Removed i) \<lparr>sv_world = w, sv_main = Removing (i # todo) ids\<rparr>
             \<lparr>sv_world = map_svc (RemoveClient i) w, sv_main = Removing todo ids\<rparr>"
| ticked: "server_step cmd stof Ticked \<lparr>sv_world = w, sv_main = Removing [] ids\<rparr> \<lparr>sv_world = w, sv_main = Leaving ids\<rparr>"
| leave: "OnClientLeave i w = Inr w' \<Longrightarrow>
    server_step cmd stof (Announced i) \<lparr>sv_world = w, sv_main = Leaving (i # ids)\<rparr> \<lparr>sv_world = w', sv_main = Leaving ids\<rparr>"
| sleep: "server_step cmd stof Slept \<lparr>sv_world = w, sv_main = Leaving []\<rparr> \<lparr>sv_world = w, sv_main = Sleeping\<rparr>"

inductive server_path ::
  "'s redis_command \<Rightarrow> (string \<Rightarrow> f32 result) \<Rightarrow> server_event list \<Rightarrow> 's server \<Rightarrow> 's server \<Rightarrow> bool"
  for cmd stof where
  path_refl: "server_path cmd stof [] s s"
| path_step: "server_path cmd stof es s t \<Longrightarrow> server_step cmd stof e t u \<Longrightarrow> server_path cmd stof (es @ [e]) s u"

inductive_cases server_stepE: "server_step cmd stof e s t"
inductive_cases server_path_NilE: "server_path cmd stof [] s t"

abbreviation sv_svc :: "'s server \<Rightarrow> udp_service" where
  "sv_svc s \<equiv> w_svc (sv_world s)"

section \<open>Steps and the table\<close>

definition in_order :: "server_event \<Rightarrow> bool" where
  "in_order e = (case e of Received now now' a buf n \<Rightarrow>
     (case load_header buf of Inl f \<Rightarrow> True | Inr h \<Rightarrow> ph_sessionId h = 0 \<or> ph_sequence h \<noteq> 0) | _ \<Rightarrow> True)"

lemma OnRecvPacket_table_step:
  assumes "registry_ok (w_svc w)" and "OnRecvPacket cmd stof alive now now' a buf n w = Inr w'"
  shows "table_step (in_order (Received now now' a buf n)) (w_svc w) (w_svc w')"
  using assms(2)
proof (cases rule: OnRecvPacket_cases)
  case 1
  then show ?thesis by (simp add: table_step_same)
next
  case (2 hdr ctx svc)
  have "svc = snd (RegisterClient now a (w_svc w))" using 2(3) by simp
  with table_step_then [OF table_step_RegisterClient [OF assms(1)]] HandlePacket_table [OF 2(4)]
  show ?thesis by simp
next
  case (3 hdr ctx)
  let ?s = "upd_ctx ctx (\<lambda>c. c\<lparr>ctx_lastSeq := ph_sequence hdr, ctx_lastAliveMs := now\<rparr>) (w_svc w)"
  have "table_step (in_order (Received now now' a buf n)) (w_svc w) ?s"
    using 3(1,2,4) by (auto simp: table_step_def client_addr_upd_ctx in_order_def)
  with HandlePacket_table [OF 3(5)] show ?thesis by (simp add: table_step_then)
qed

lemma server_step_table:
  assumes "server_step cmd stof e s t" and "registry_ok (sv_svc s)"
  shows "table_step (in_order e) (sv_svc s) (sv_svc t)"
  using assms
proof cases
  case (recv now now' a buf n w w' pc)
  with assms(2) show ?thesis
    by (auto simp: ProcessRecv_def OnRecvPacket_table_step table_step_same split: if_splits)
next
  case (leave i w w' ids)
  then show ?thesis by (auto simp: table_step_same dest: OnClientLeave_table)
qed (simp_all add: table_step_same table_step_RemoveClient map_svc_def)

lemma server_step_registry:
  assumes "server_step cmd stof e s t" and "registry_ok (sv_svc s)" and "has_room (sv_svc s)"
  shows "registry_ok (sv_svc t)"
  using assms
proof cases
  case (recv now now' a buf n w w' pc)
  with assms(2,3) show ?thesis
    by (auto simp: ProcessRecv_def intro: OnRecvPacket_registry split: if_splits)
next
  case (leave i w w' ids)
  with assms(2) show ?thesis by (auto intro: same_table_registry dest: OnClientLeave_table)
qed (simp_all add: registry_ok_RemoveClient map_svc_def)

interpretation sv: table_machine "server_step cmd stof" sv_svc in_order for cmd stof
  by unfold_locales (rule server_step_table server_step_registry; assumption)+

lemma server_path_run: "server_path cmd stof es s t \<Longrightarrow> run_of (server_step cmd stof) es s t"
  by (induction rule: server_path.induct) (auto intro: run_of.intros)

lemmas server_path_ok = sv.run_ok [OF server_path_run]
lemmas server_path_clients = sv.run_clients [OF server_path_run]
lemmas server_path_lastSeq = sv.run_lastSeq [OF server_path_run]
lemmas server_path_invariant = sv.run_invariant [OF server_path_run]

section \<open>One round of the main loop\<close>

text \<open>The loop body of \<^verbatim>\<open>main\<close>, run without a datagram in between.\<close>

fun leave_all :: "u64 list \<Rightarrow> 's world \<Rightarrow> 's world result" where
  "leave_all [] w = Inr w"
| "leave_all (i # ids) w = bindr (OnClientLeave i w) (leave_all ids)"

definition main_round :: "i64 \<Rightarrow> 's world \<Rightarrow> 's world result" where
  "main_round now w = (let (left, svc) = Tick now (w_svc w) in leave_all left (w\<lparr>w_svc := svc\<rparr>))"

lemma server_path_append:
  "server_path cmd stof fs t u \<Longrightarrow> server_path cmd stof es s t \<Longrightarrow> server_path cmd stof (es @ fs) s u"
  by (induction rule: server_path.induct) (auto simp flip: append_assoc intro: path_step)

lemma server_path_Cons: "server_step cmd stof e s t \<Longrightarrow> server_path cmd stof es t u \<Longrightarrow> server_path cmd stof (e # es) s u"
  using server_path_append [of cmd stof es t u "[e]" s] path_step [OF path_refl] by fastforce

lemma path_removals:
  "server_path cmd stof (map Removed todo) \<lparr>sv_world = w, sv_main = Removing todo ids\<rparr>
     \<lparr>sv_world = map_svc (fold RemoveClient todo) w, sv_main = Removing [] ids\<rparr>"
proof (induction todo arbitrary: w)
  case Nil
  then show ?case using path_refl by (simp add: map_svc_def)
next
  case (Cons i todo)
  have "map_svc (fold RemoveClient (i # todo)) w = map_svc (fold RemoveClient todo) (map_svc (RemoveClient i) w)"
    by (simp add: map_svc_def)
  with server_path_Cons [OF remove Cons.IH [of "map_svc (RemoveClient i) w"]] show ?case
    by (simp only: list.map)
qed

lemma path_leaves:
  "leave_all ids w = Inr w' \<Longrightarrow> server_path cmd stof (map Announced ids)
     \<lparr>sv_world = w, sv_main = Leaving ids\<rparr> \<lparr>sv_world = w', sv_main = Leaving []\<rparr>"
proof (induction ids arbitrary: w)
  case Nil
  then show ?case using path_refl by simp
next
  case (Cons i ids)
  then show ?case by (auto simp: bindr_Inr_iff intro: server_path_Cons leave)
qed

lemma OnClientLeave_eq:
  assumes "registry_ok (w_svc w)"
  shows "OnClientLeave i w = Inr (map_svc (us_sent_update (\<lambda>ds. ds @
     map (\<lambda>j. (the (client_addr (w_svc w) j), header_bytes 0 0 353 @ enc_u64 i)) (map fst (us_idMap (w_svc w))))) w)"
proof -
  have "distinct (map fst (us_idMap (w_svc w)))" using assms by (simp add: registry_ok_def)
  then have e: "map (\<lambda>(sid, r). (ctx_addr (us_ctxs (w_svc w) r), bs)) (us_idMap (w_svc w)) =
      map (\<lambda>j. (the (client_addr (w_svc w) j), bs)) (map fst (us_idMap (w_svc w)))" for bs
    by (auto simp: client_addr_def FindById_def)
  show ?thesis
    unfolding e [symmetric]
    by (simp add: OnClientLeave_def Make_leave_eq Broadcast_def Broadcast_loop_eq map_svc_def)
qed

lemma leave_all_eq:
  assumes "registry_ok (w_svc w)"
  shows "leave_all ids w = Inr (map_svc (us_sent_update (\<lambda>ds. ds @ concat (map (\<lambda>i.
     map (\<lambda>j. (the (client_addr (w_svc w) j), header_bytes 0 0 353 @ enc_u64 i)) (map fst (us_idMap (w_svc w)))) ids))) w)"
  using assms
proof (induction ids arbitrary: w)
  case Nil
  then show ?case by (simp add: map_svc_def)
next
  case (Cons i ids)
  let ?f = "us_sent_update (\<lambda>ds. ds @
     map (\<lambda>j. (the (client_addr (w_svc w) j), header_bytes 0 0 353 @ enc_u64 i)) (map fst (us_idMap (w_svc w))))"
  have same: "same_table (w_svc w) (?f (w_svc w))" by (simp add: same_table_def)
  then have "registry_ok (w_svc (map_svc ?f w))" "client_addr (?f (w_svc w)) = client_addr (w_svc w)"
    using Cons.prems by (simp_all add: map_svc_def same_table_registry same_table_client)
  from Cons.IH [OF this(1)] this(2) show ?case
    by (simp add: OnClientLeave_eq [OF Cons.prems]) (simp add: map_svc_def)
qed

lemma recv_heartbeat:
  assumes "FindByAddr a (w_svc w) = Some r"
    and "load_header buf = Inr hdr" "ph_sessionId hdr \<noteq> 0" "ph_id hdr = packet_id C_LOBBY_HEARTBEAT"
    and "ctx_lastSeq (ctx_of r w) < ph_sequence hdr" and "14 \<le> n"
  shows "ProcessRecv cmd stof True now now' a buf n w = Inr (map_svc (upd_ctx r (\<lambda>c.
     c\<lparr>ctx_lastSeq := ph_sequence hdr, ctx_lastAliveMs := now'\<rparr>)) w)"
proof -
  have "\<not> ph_sequence hdr \<le> ctx_lastSeq (ctx_of r w)" using assms(5) by simp
  then show ?thesis
    using assms
    by (simp add: ProcessRecv_def UDP_HEADER_SIZE_def recv_registered HandlePacket_def Handle_C_LOBBY_HEARTBEAT_def
        map_svc_def upd_ctx_def)
qed

section \<open>A short run\<close>

text \<open>A server without Redis that has registered one client.\<close>

definition demo_server :: "small_redis server" where
  "demo_server = \<lparr>sv_world = \<lparr>w_svc = udp_service_init\<lparr>us_ctxs := (us_ctxs udp_service_init)
       (0 := \<lparr>ctx_sessionId = 1, ctx_addr = demo_addr 8, ctx_lastSeq = 0, ctx_lastAliveMs = 5, ctx_userId = ''u''\<rparr>),
     us_nextRef := 1, us_idMap := [(1, 0)], us_addrMap := [(SockAddrKey (demo_addr 8), 0)], us_sCounter := 2,
     us_sent := [(demo_addr 8, header_bytes 1 0 350 @ enc_u64 1)]\<rparr>,
     w_redis = \<lparr>rc_ctx = False, rc_server = []\<rparr>\<rparr>, sv_main = Sleeping\<rparr>"

abbreviation demo_hello :: server_event where
  "demo_hello \<equiv> Received 5 6 (demo_addr 8) (hello_wire 0 ''u'') (int (length (hello_wire 0 ''u'')))"

lemma demo_start: "server_start ConnectNull [] = \<lparr>sv_world = \<lparr>w_svc = udp_service_init,
    w_redis = \<lparr>rc_ctx = False, rc_server = []\<rparr>\<rparr>, sv_main = Sleeping\<rparr>"
  by (simp add: server_start_def Connect_def Disconnect_def)

lemma demo_run: "server_path small_cmd (\<lambda>_. Inr 0) [demo_hello] (server_start ConnectNull []) demo_server"
proof -
  have "ProcessRecv small_cmd (\<lambda>_. Inr 0) True 5 6 (demo_addr 8) (hello_wire 0 ''u'') (int (length (hello_wire 0 ''u'')))
      (sv_world (server_start ConnectNull [])) = Inr (sv_world demo_server)"
    using recv_hello [of "''u''" small_cmd "\<lambda>_. Inr 0" 5 6 "demo_addr 8" 0 "sv_world (server_start ConnectNull [])"]
    by (simp add: ProcessRecv_def UDP_HEADER_SIZE_def hello_wire_def header_bytes_def demo_start demo_server_def
        RegisterClient_def GenerateSessionId_def udp_service_init_def fresh_context_def send_player_info_def
        GetPlayerInfo_def reply_to_def client_addr_def FindById_def upd_ctx_def)
  then have "server_step small_cmd (\<lambda>_. Inr 0) demo_hello (server_start ConnectNull []) demo_server"
    unfolding demo_start by (simp add: demo_server_def recv)
  from server_path_Cons [OF this path_refl] show ?thesis .
qed

lemma recv_step:
  "ProcessRecv cmd stof True now now' a buf n (sv_world s) = Inr w' \<Longrightarrow>
   server_step cmd stof (Received now now' a buf n) s (s\<lparr>sv_world := w'\<rparr>)"
  by (cases s) (simp add: recv)

lemma demo_beat:
  "server_step small_cmd (\<lambda>_. Inr 0) (Received 7 8 (demo_addr 8) (header_bytes 1 4 302 @ [0]) 14) demo_server
     (demo_server\<lparr>sv_world := map_svc (upd_ctx 0 (\<lambda>c. c\<lparr>ctx_lastSeq := 4, ctx_lastAliveMs := 8\<rparr>)) (sv_world demo_server)\<rparr>)"
  "FindByAddr (demo_addr 8) (sv_svc demo_server) = Some 0"
proof -
  have "FindByAddr (demo_addr 8) (sv_svc demo_server) = Some 0" "ctx_lastSeq (ctx_of 0 (sv_world demo_server)) = 0"
    by (simp_all add: demo_server_def FindByAddr_def)
  note d = this
  show "FindByAddr (demo_addr 8) (sv_svc demo_server) = Some 0" by (rule d)
  have "ProcessRecv small_cmd (\<lambda>_. Inr 0) True 7 8 (demo_addr 8) (header_bytes 1 4 302 @ [0]) 14 (sv_world demo_server) =
     Inr (map_svc (upd_ctx 0 (\<lambda>c. c\<lparr>ctx_lastSeq := 4, ctx_lastAliveMs := 8\<rparr>)) (sv_world demo_server))"
    using recv_heartbeat [OF d(1) load_header_bytes, of 1 4 302 14 small_cmd "\<lambda>_. Inr 0" 7 8 "[0]"] d(2) by simp
  then show "server_step small_cmd (\<lambda>_. Inr 0) (Received 7 8 (demo_addr 8) (header_bytes 1 4 302 @ [0]) 14) demo_server
     (demo_server\<lparr>sv_world := map_svc (upd_ctx 0 (\<lambda>c. c\<lparr>ctx_lastSeq := 4, ctx_lastAliveMs := 8\<rparr>)) (sv_world demo_server)\<rparr>)"
    by (rule recv_step)
qed

lemma demo_main_round: "main_round 1 (sv_world demo_server) = Inr (sv_world demo_server)" 
  by (simp add: main_round_def Tick_def Tick_collect_def demo_server_def SESSION_TIMEOUT_MS_def word_sless_alt)

section \<open>Properties\<close>

text \<open>
  In every run of the server of fewer than \<open>2 ^ 64 - 1\<close> steps (so that the session counter does not
  wrap around) the client table stays consistent: the two maps agree, ids and address keys are
  unique, and the counter is above every id handed out.
\<close>

theorem server_keeps_table:
  assumes "server_path cmd stof es (server_start outcome redis) s" and "length es < 2 ^ 64 - 1"
  shows "registry_ok (sv_svc s)"
  using server_path_ok [OF assms(1)] assms(2) registry_ok_init
  by (simp add: server_start_def udp_service_init_def)

theorem server_keeps_table_witness: "registry_ok (sv_svc demo_server)"
  by (rule server_keeps_table [OF demo_run]) simp

text \<open>
  A session id that has been handed out never comes to mean another client: for the rest of the run
  it belongs to the same address or to nobody.
\<close>

theorem session_id_never_reused:
  assumes "server_path cmd stof es (server_start outcome redis) s" and "server_path cmd stof fs s t"
    and "length es + length fs < 2 ^ 64 - 1" and "i < us_sCounter (sv_svc s)"
  shows "client_addr (sv_svc t) i = client_addr (sv_svc s) i \<or> client_addr (sv_svc t) i = None"
proof -
  have "registry_ok (sv_svc s) \<and> unat (us_sCounter (sv_svc s)) \<le> 1 + length es"
    using server_path_ok [OF assms(1)] assms(3) registry_ok_init
    by (simp add: server_start_def udp_service_init_def)
  then show ?thesis using server_path_clients [OF assms(2) _ _ assms(4)] assms(3) by simp
qed

theorem session_id_never_reused_witness:
  "client_addr (sv_svc (demo_server\<lparr>sv_world := map_svc (upd_ctx 0 (\<lambda>c. c\<lparr>ctx_lastSeq := 4, ctx_lastAliveMs := 8\<rparr>)) (sv_world demo_server)\<rparr>)) 1 =
     client_addr (sv_svc demo_server) 1 \<or>
   client_addr (sv_svc (demo_server\<lparr>sv_world := map_svc (upd_ctx 0 (\<lambda>c. c\<lparr>ctx_lastSeq := 4, ctx_lastAliveMs := 8\<rparr>)) (sv_world demo_server)\<rparr>)) 1 = None"
  by (rule session_id_never_reused [OF demo_run server_path_Cons [OF demo_beat(1) path_refl]])
     (simp_all add: demo_server_def)

text \<open>
  As long as the clients number their packets from 1 on, a datagram that has been handled (or was
  already stale) is never handled again in the rest of the run, however datagrams, expiries and
  announcements interleave, unless its sender was removed and registered anew.
\<close>

theorem datagram_handled_once:
  assumes start: "server_path cmd stof es (server_start outcome redis) s"
    and hdr: "load_header buf = Inr hdr" "ph_sessionId hdr \<noteq> 0" "ph_sequence hdr \<noteq> 0"
    and known: "FindByAddr a (sv_svc s) = Some r"
    and first: "server_step cmd stof (Received now now' a buf n) s s1"
    and later: "server_path cmd stof fs s1 t" "\<forall>e \<in> set fs. in_order e"
    and len: "length es + length fs < 2 ^ 64 - 2"
    and same: "FindByAddr a (sv_svc t) \<in> {None, Some r}"
  shows "ProcessRecv cmd stof True late late' a buf n (sv_world t) = Inr (sv_world t)"
proof (cases "14 \<le> n")
  case True
  have ok: "registry_ok (sv_svc s)" "unat (us_sCounter (sv_svc s)) \<le> 1 + length es"
    using server_path_ok [OF start] len registry_ok_init
    by (simp_all add: server_start_def udp_service_init_def)
  then have room: "has_room (sv_svc s)" using len by (intro has_room_below) simp
  note ok1 = server_step_registry [OF first ok(1) room]
  have "us_nextRef (sv_svc s) \<le> us_nextRef (sv_svc s1) \<and> unat (us_sCounter (sv_svc s1)) \<le> 2 + length es"
    using server_step_table [OF first ok(1)] ok(2) counter_Suc [OF room] by (auto simp: table_step_def)
  moreover have "r < us_nextRef (sv_svc s)"
    using known ok(1) by (auto simp: FindByAddr_def registry_ok_def linked_def Let_def simp del: map_of_eq_Some_iff split: option.splits if_splits)
  ultimately have mono: "ctx_lastSeq (us_ctxs (sv_svc s1) r) \<le> ctx_lastSeq (us_ctxs (sv_svc t) r)"
    using server_path_lastSeq [OF later(1) ok1 _ _ later(2)] len by simp
  have "ProcessRecv cmd stof True now now' a buf n (sv_world s) = Inr (sv_world s1)"
    using first by cases simp
  then have "ph_sequence hdr \<le> ctx_lastSeq (us_ctxs (sv_svc s1) r)"
    using True known hdr(3)
    by (auto simp: ProcessRecv_def UDP_HEADER_SIZE_def recv_registered [OF hdr(1,2)] dest!: HandlePacket_table same_table_lastSeq [of _ _ r] split: if_splits)
  with mono True same hdr(3) show ?thesis
    by (auto simp: ProcessRecv_def UDP_HEADER_SIZE_def recv_registered [OF hdr(1,2)])
qed (simp add: ProcessRecv_def UDP_HEADER_SIZE_def)

theorem datagram_handled_once_witness:
  "\<exists>w. ctx_lastSeq (ctx_of 0 w) = 4 \<and>
     ProcessRecv small_cmd (\<lambda>_. Inr 0) True 9 10 (demo_addr 8) (header_bytes 1 4 302 @ [0]) 14 w = Inr w"
proof (intro exI conjI)
  let ?t = "demo_server\<lparr>sv_world := map_svc (upd_ctx 0 (\<lambda>c. c\<lparr>ctx_lastSeq := 4, ctx_lastAliveMs := 8\<rparr>)) (sv_world demo_server)\<rparr>"
  have "FindByAddr (demo_addr 8) (sv_svc ?t) = Some 0" by (simp add: demo_server_def map_svc_def FindByAddr_def)
  then show "ProcessRecv small_cmd (\<lambda>_. Inr 0) True 9 10 (demo_addr 8) (header_bytes 1 4 302 @ [0]) 14 (sv_world ?t) = Inr (sv_world ?t)"
    by (intro datagram_handled_once [OF demo_run load_header_bytes _ _ demo_beat(2,1) path_refl]) simp_all
qed (simp add: map_svc_def)

text \<open>
  C35: One uninterrupted round of the main loop removes the expired clients and then sends, for each of
  them, one leave packet with its session id to every remaining client and to nobody else.
\<close>

theorem main_round_announces:
  assumes "registry_ok (w_svc w)" and "Tick now (w_svc w) = (left, svc)"
  shows "\<exists>js. distinct js \<and> set js = dom (client_addr (w_svc w)) - set left \<and>
     main_round now w = Inr (w\<lparr>w_svc := svc\<lparr>us_sent := us_sent (w_svc w) @
       concat (map (\<lambda>i. map (\<lambda>j. (the (client_addr (w_svc w) j), header_bytes 0 0 353 @ enc_u64 i)) js) left)\<rparr>\<rparr>)"
proof -
  have svc: "svc = fold RemoveClient left (w_svc w)" using assms(2) by (auto simp: Tick_def Let_def)
  have ok: "registry_ok svc" unfolding svc by (rule udp.fold_remove_ok [OF assms(1)])
  have addr: "client_addr svc = client_addr (w_svc w) |` (- set left)"
    unfolding svc by (rule udp.fold_remove [OF assms(1)])
  have sent: "us_sent (fold RemoveClient is s) = us_sent s" for "is" s
    by (induction "is" arbitrary: s) simp_all
  let ?js = "map fst (us_idMap svc)"
  have "set ?js = dom (client_addr svc)"
    by (simp add: client_addr_def FindById_def dom_def flip: dom_map_of_conv_image_fst)
  then have js: "set ?js = dom (client_addr (w_svc w)) - set left"
    unfolding addr by auto
  have e: "map (\<lambda>j. (the (client_addr svc j), bs)) ?js = map (\<lambda>j. (the (client_addr (w_svc w) j), bs)) ?js" for bs
    using js by (intro map_cong refl) (simp add: addr)
  have "main_round now w = Inr (map_svc (us_sent_update (\<lambda>ds. ds @ concat (map (\<lambda>i.
     map (\<lambda>j. (the (client_addr svc j), header_bytes 0 0 353 @ enc_u64 i)) ?js) left))) (w\<lparr>w_svc := svc\<rparr>))"
    using ok assms(2) by (simp add: main_round_def leave_all_eq)
  moreover have "distinct ?js" using ok by (simp add: registry_ok_def)
  moreover have "us_sent svc = us_sent (w_svc w)" by (simp add: svc sent)
  ultimately show ?thesis
    using js unfolding e by (intro exI [of _ ?js]) (simp add: map_svc_def)
qed

theorem main_round_announces_witness:
  "\<exists>js w. distinct js \<and> set js = {1} \<and>
     main_round 10001 \<lparr>w_svc = upd_ctx 0 (\<lambda>c. c\<lparr>ctx_lastAliveMs := 9000\<rparr>) demo_svc, w_redis = \<lparr>rc_ctx = False, rc_server = ()\<rparr>\<rparr> = Inr w \<and>
     us_sent (w_svc w) = us_sent demo_svc @
       concat (map (\<lambda>i. map (\<lambda>j. (the (client_addr demo_svc j), header_bytes 0 0 353 @ enc_u64 i)) js) [2])"
proof -
  let ?w = "\<lparr>w_svc = upd_ctx 0 (\<lambda>c. c\<lparr>ctx_lastAliveMs := 9000\<rparr>) demo_svc, w_redis = \<lparr>rc_ctx = False, rc_server = ()\<rparr>\<rparr>"
  have ok: "registry_ok (w_svc ?w)" by (simp add: registry_ok_upd_ctx demo_svc_ok)
  have tick: "Tick 10001 (w_svc ?w) = ([2], RemoveClient 2 (w_svc ?w))"
    by (simp add: Tick_def Tick_collect_def demo_svc_eq fresh_context_def SESSION_TIMEOUT_MS_def word_sless_alt)
  have "dom (client_addr (w_svc ?w)) - set [2] = {1}"
    by (auto simp: client_addr_upd_ctx demo_clients)
  with main_round_announces [OF ok tick] obtain js where "distinct js" "set js = {1}"
    "main_round 10001 ?w = Inr (?w\<lparr>w_svc := (RemoveClient 2 (w_svc ?w))\<lparr>us_sent := us_sent (w_svc ?w) @
       concat (map (\<lambda>i. map (\<lambda>j. (the (client_addr (w_svc ?w) j), header_bytes 0 0 353 @ enc_u64 i)) js) [2])\<rparr>\<rparr>)"
    by auto
  then show ?thesis
    by (intro exI [of _ js] exI [of _ "projr (main_round 10001 ?w)"]) (simp add: client_addr_upd_ctx)
qed

text \<open>
  The sequential loop body is a run of the step relation from the sleeping main thread back to it,
  collecting, removing each expired client, announcing each of them.
\<close>

theorem main_round_is_run:
  assumes "main_round now w = Inr w'"
  shows "\<exists>left. server_path cmd stof (Collected now # map Removed left @ Ticked # map Announced left @ [Slept])
     \<lparr>sv_world = w, sv_main = Sleeping\<rparr> \<lparr>sv_world = w', sv_main = Sleeping\<rparr>"
proof -
  let ?ids = "Tick_collect now (w_svc w)"
  have "leave_all ?ids (map_svc (fold RemoveClient ?ids) w) = Inr w'"
    using assms by (simp add: main_round_def Tick_def Let_def map_svc_def)
  note leaves = path_leaves [OF this, of cmd stof]
  have "server_path cmd stof (map Announced ?ids @ [Slept])
     \<lparr>sv_world = map_svc (fold RemoveClient ?ids) w, sv_main = Leaving ?ids\<rparr> \<lparr>sv_world = w', sv_main = Sleeping\<rparr>"
    by (rule path_step [OF leaves sleep])
  from server_path_append [OF server_path_Cons [OF ticked this] path_removals]
  show ?thesis by (blast intro: server_path_Cons collect)
qed

theorem main_round_is_run_witness:
  "\<exists>left. server_path small_cmd (\<lambda>_. Inr 0) (Collected 1 # map Removed left @ Ticked # map Announced left @ [Slept])
     \<lparr>sv_world = sv_world demo_server, sv_main = Sleeping\<rparr> \<lparr>sv_world = sv_world demo_server, sv_main = Sleeping\<rparr>"
  by (rule main_round_is_run [OF demo_main_round])

text \<open>
  A client whose heartbeat is handled between the collection of the expired clients and its removal
  is removed all the same: \<^verbatim>\<open>Tick\<close> releases the lock in between and does not look again.
\<close>

theorem removed_although_alive:
  assumes "FindByAddr a (w_svc w) = Some r" and "i = ctx_sessionId (ctx_of r w)"
    and "load_header buf = Inr hdr" "ph_sessionId hdr \<noteq> 0" "ph_id hdr = packet_id C_LOBBY_HEARTBEAT"
    and "ctx_lastSeq (ctx_of r w) < ph_sequence hdr" and "14 \<le> n"
  shows "\<exists>t. server_path cmd stof [Received now now' a buf n, Removed i]
       \<lparr>sv_world = w, sv_main = Removing (i # todo) ids\<rparr> t \<and>
     ctx_lastAliveMs (ctx_of r (sv_world t)) = now' \<and> client_addr (sv_svc t) i = None"
proof -
  note beat = recv_heartbeat [OF assms(1,3-7), of cmd stof now now']
  from server_path_Cons [OF recv [OF beat] server_path_Cons [OF remove path_refl]] show ?thesis
    by (rule exI [where x = "\<lparr>sv_world = map_svc (RemoveClient i) _, sv_main = Removing todo ids\<rparr>", OF conjI])
       (simp add: map_svc_def client_addr_RemoveClient)
qed

theorem removed_although_alive_witness:
  "\<exists>t. server_path small_cmd (\<lambda>_. Inr 0) [Received 7 8 (demo_addr 8) (header_bytes 1 4 302 @ [0]) 14, Removed 1]
       \<lparr>sv_world = sv_world demo_server, sv_main = Removing [1] [1]\<rparr> t \<and>
     ctx_lastAliveMs (ctx_of 0 (sv_world t)) = 8 \<and> client_addr (sv_svc t) 1 = None"
proof -
  have "1 = ctx_sessionId (ctx_of 0 (sv_world demo_server))" "ctx_lastSeq (ctx_of 0 (sv_world demo_server)) = 0"
    by (simp_all add: demo_server_def)
  then show ?thesis
    by (intro removed_although_alive [OF demo_beat(2) _ load_header_bytes]) simp_all
qed

end
