(* ===== verification/SentPackets.thy ===== *)
theory SentPackets
  imports GameServer
begin

text \<open>
  What the UDP server sends: the packets of the protocol as a datatype, their bytes, and the typing
  of the datagrams that go out: every one is a packet of the protocol, fits into
  \<^verbatim>\<open>UDP_MAX_PACKET\<close>, goes to the address of a client that has registered, and names a session that has
  been handed out.
\<close>

section \<open>Packets of the server\<close>

datatype server_packet =
    HandshakeAck u64
  | PlayerMove u64 string f32 f32 f32 f32 byte
  | PlayerLeave u64
  | PlayerInfo u64 player_redis_info
  | PurchaseResult u64 bool i32 i64

fun wire :: "server_packet \<Rightarrow> byte list" where
  "wire (HandshakeAck sid) = header_bytes sid 0 (packet_id S_UDP_HANDSHAKE_ACK) @ enc_u64 sid"
| "wire (PlayerMove sid u x y z rot anim) =
     header_bytes sid 0 (packet_id S_LOBBY_PLAYER_MOVE) @ move_bytes sid u x y z rot anim"
| "wire (PlayerLeave sid) = header_bytes 0 0 (packet_id S_LOBBY_PLAYER_LEAVE) @ enc_u64 sid"
| "wire (PlayerInfo sid info) = header_bytes sid 0 (packet_id S_PLAYER_INFO) @ info_bytes sid info"
| "wire (PurchaseResult sid ok t b) =
     header_bytes sid 0 (packet_id S_PURCHASE_WEAPON_RESULT) @ buy_bytes sid ok t b"

fun session_of :: "server_packet \<Rightarrow> u64" where
  "session_of (HandshakeAck sid) = sid"
| "session_of (PlayerMove sid u x y z rot anim) = sid"
| "session_of (PlayerLeave sid) = sid"
| "session_of (PlayerInfo sid info) = sid"
| "session_of (PurchaseResult sid ok t b) = sid"

definition fits :: "server_packet \<Rightarrow> bool" where
  "fits p \<longleftrightarrow> length (wire p) \<le> unat UDP_MAX_PACKET"

section \<open>Typing\<close>

text \<open>The addresses that have registered, also those of clients that have left.\<close>

definition known_addrs :: "udp_service \<Rightarrow> sockaddr_in set" where
  "known_addrs s = (\<lambda>r. ctx_addr (us_ctxs s r)) ` {..<us_nextRef s}"

definition handed_out :: "udp_service \<Rightarrow> u64 \<Rightarrow> bool" where
  "handed_out s sid \<longleftrightarrow> 0 < sid \<and> sid < us_sCounter s"

inductive typed :: "udp_service \<Rightarrow> sockaddr_in \<times> byte list \<Rightarrow> bool" for s where
  typed: "a \<in> known_addrs s \<Longrightarrow> handed_out s (session_of p) \<Longrightarrow> fits p \<Longrightarrow> typed s (a, wire p)"

inductive_simps typed_iff: "typed s (a, bs)"

definition sent_typed :: "udp_service \<Rightarrow> bool" where
  "sent_typed s \<longleftrightarrow> (\<forall>d \<in> set (us_sent s). typed s d)"

text \<open>The identifiers the main thread holds.\<close>

definition pc_typed :: "udp_service \<Rightarrow> main_pc \<Rightarrow> bool" where
  "pc_typed s pc = (case pc of Sleeping \<Rightarrow> True
     | Removing todo ids \<Rightarrow> list_all (handed_out s) ids
     | Leaving ids \<Rightarrow> list_all (handed_out s) ids)"

text \<open>A later table knows all the addresses and sessions an earlier one knows.\<close>

definition grows :: "udp_service \<Rightarrow> udp_service \<Rightarrow> bool" where
  "grows s t \<longleftrightarrow> known_addrs s \<subseteq> known_addrs t \<and> us_sCounter s \<le> us_sCounter t"

lemma growsI:
  assumes "us_nextRef s \<le> us_nextRef t" and "us_sCounter s \<le> us_sCounter t"
    and "\<And>r. r < us_nextRef s \<Longrightarrow> ctx_addr (us_ctxs t r) = ctx_addr (us_ctxs s r)"
  shows "grows s t"
  unfolding grows_def known_addrs_def
proof (intro conjI subsetI assms(2))
  fix a
  assume "a \<in> (\<lambda>r. ctx_addr (us_ctxs s r)) ` {..<us_nextRef s}"
  then obtain r where "a = ctx_addr (us_ctxs s r)" "r < us_nextRef s" by blast
  with assms(1) assms(3) [of r] show "a \<in> (\<lambda>r. ctx_addr (us_ctxs t r)) ` {..<us_nextRef t}"
    by (intro image_eqI [of _ _ r]) simp_all
qed

lemma grows_refl [simp]: "grows s s"
  by (simp add: grows_def)

lemma grows_trans [trans]: "grows s t \<Longrightarrow> grows t u \<Longrightarrow> grows s u"
  unfolding grows_def by (blast intro: order_trans)

lemma grows_handed_out: "grows s t \<Longrightarrow> handed_out s sid \<Longrightarrow> handed_out t sid"
  by (auto simp: grows_def handed_out_def)

lemma grows_typed: "grows s t \<Longrightarrow> typed s d \<Longrightarrow> typed t d"
  by (auto elim!: typed.cases intro!: typed.intros simp: grows_def handed_out_def)

lemma grows_pc: "grows s t \<Longrightarrow> pc_typed s pc \<Longrightarrow> pc_typed t pc"
  by (auto simp: pc_typed_def list_all_iff grows_handed_out split: main_pc.splits)

lemma same_table_grows: "same_table s t \<Longrightarrow> grows s t"
  by (rule growsI) (simp_all add: same_table_def)

lemma grows_upd_ctx: "(\<And>c. ctx_addr (f c) = ctx_addr c) \<Longrightarrow> grows s (upd_ctx r f s)"
  by (rule growsI) simp_all

lemma grows_RemoveClient: "grows s (RemoveClient i s)"
  by (simp add: grows_def known_addrs_def)

lemma grows_RegisterClient:
  assumes "has_room s"
  shows "grows s (snd (RegisterClient now a s))"
proof (cases "map_of (us_addrMap s) (SockAddrKey a)")
  case None
  have "us_sCounter s \<le> us_sCounter s + 1"
    using counter_Suc [OF assms] by (simp add: word_le_nat_alt)
  then show ?thesis
    by (intro growsI) (simp_all add: RegisterClient_def None GenerateSessionId_def Let_def)
next
  case (Some r)
  then show ?thesis by (simp add: RegisterClient_def grows_upd_ctx)
qed

section \<open>What the operations send\<close>

text \<open>From \<open>s\<close> to \<open>t\<close> only packets about \<open>sid\<close> have gone out, to clients of the table.\<close>

definition sends :: "u64 \<Rightarrow> udp_service \<Rightarrow> udp_service \<Rightarrow> bool" where
  "sends sid s t \<longleftrightarrow> same_table s t \<and> (\<exists>ds. us_sent t = us_sent s @ ds \<and>
     (\<forall>(a, bs) \<in> set ds. a \<in> ran (client_addr s) \<and> (\<exists>p. fits p \<and> session_of p = sid \<and> bs = wire p)))"

lemma sends_refl [simp]: "sends sid s s"
  by (simp add: sends_def)

lemma sends_trans [trans]: "sends sid s t \<Longrightarrow> sends sid t u \<Longrightarrow> sends sid s u"
  by (fastforce simp: sends_def same_table_client dest: same_table_trans)

lemma sends_upd_fields:
  "sends sid s (upd_ctx r (ctx_userId_update f) s)" "sends sid s (upd_ctx r (ctx_lastAliveMs_update g) s)"
  by (simp_all add: sends_def)

lemma sends_typed:
  assumes "sends sid s t" and "sent_typed s" and "registry_ok s" and "handed_out s sid"
  shows "sent_typed t"
proof -
  obtain ds where ds: "us_sent t = us_sent s @ ds" "\<forall>(a, bs) \<in> set ds. a \<in> ran (client_addr s) \<and>
      (\<exists>p. fits p \<and> session_of p = sid \<and> bs = wire p)" and same: "same_table s t"
    using assms(1) by (auto simp: sends_def)
  have "ran (client_addr s) \<subseteq> known_addrs s"
    using assms(3) by (auto simp: ran_def client_addr_def FindById_def known_addrs_def registry_ok_def linked_def
        simp del: map_of_eq_Some_iff)
  then have "\<forall>d \<in> set ds. typed s d"
    using ds(2) assms(4) by (fastforce simp: typed_iff)
  then show ?thesis
    using ds(1) assms(2) grows_typed [OF same_table_grows [OF same]] by (auto simp: sent_typed_def)
qed

lemma SendTo_sends:
  assumes "SendTo to buf s = Inr t" and "sb_wire buf = Inr (wire p)" and "fits p"
  shows "sends (session_of p) s t"
proof (cases "FindById to s")
  case (Some r)
  then have "ctx_addr (us_ctxs s r) \<in> ran (client_addr s)" by (auto simp: client_addr_def ran_def)
  with Some assms show ?thesis
    by (auto simp: SendTo_def UdpSession_SendTo_def sends_def sent_same_table)
qed (use assms(1) in \<open>simp add: SendTo_def\<close>)

lemma Broadcast_loop_sends:
  assumes "registry_ok s" and "Broadcast_loop kvs buf s = Inr t" and "set kvs \<subseteq> set (us_idMap s)"
    and "sb_wire buf = Inr (wire p)" and "fits p"
  shows "sends (session_of p) s t"
proof -
  have t: "t = s\<lparr>us_sent := us_sent s @ map (\<lambda>(sid, r). (ctx_addr (us_ctxs s r), wire p)) kvs\<rparr>"
    using assms(2) by (simp add: Broadcast_loop_eq [OF assms(4)])
  have "(sid, r) \<in> set kvs \<Longrightarrow> ctx_addr (us_ctxs s r) \<in> ran (client_addr s)" for sid r
    using assms(3) map_of_client [OF assms(1)] by (blast intro: ranI)
  then show ?thesis
    using assms(5) by (auto simp: t sends_def sent_same_table)
qed

text \<open>Every builder that returns gives the bytes of a packet that fits.\<close>

lemma builders_wire:
  "Make_S_UDP_HANDSHAKE_ACK sid = Inr buf \<Longrightarrow> sb_wire buf = Inr (wire (HandshakeAck sid)) \<and> fits (HandshakeAck sid)"
  "Make_S_LOBBY_PLAYER_LEAVE sid = Inr buf \<Longrightarrow> sb_wire buf = Inr (wire (PlayerLeave sid)) \<and> fits (PlayerLeave sid)"
  "Make_S_LOBBY_PLAYER_MOVE sid u x y z rot anim = Inr buf \<Longrightarrow>
     sb_wire buf = Inr (wire (PlayerMove sid u x y z rot anim)) \<and> fits (PlayerMove sid u x y z rot anim)"
  "Make_S_PLAYER_INFO sid info = Inr buf \<Longrightarrow> sb_wire buf = Inr (wire (PlayerInfo sid info)) \<and> fits (PlayerInfo sid info)"
  "Make_S_BUY_WEAPON_RESULT sid ok t b = Inr buf \<Longrightarrow>
     sb_wire buf = Inr (wire (PurchaseResult sid ok t b)) \<and> fits (PurchaseResult sid ok t b)"
  by (auto simp: Make_ack_eq Make_leave_eq Make_move_eq Make_info_eq Make_buy_eq fits_def
      length_move_bytes length_info_bytes split: if_splits)

lemma w_send_sends:
  assumes "w_send to mk w = Inr w'" and "\<And>buf. mk = Inr buf \<Longrightarrow> sb_wire buf = Inr (wire p) \<and> fits p"
  shows "sends (session_of p) (w_svc w) (w_svc w')"
  using assms by (auto simp: w_send_def bindr_Inr_iff dest: SendTo_sends)

lemma send_player_info_sends:
  "send_player_info cmd stof ctx u w = Inr w' \<Longrightarrow> sends (ctx_sessionId (ctx_of ctx w)) (w_svc w) (w_svc w')"
  by (auto simp: send_player_info_def bindr_Inr_iff Let_def split: if_splits
      dest!: w_send_sends [OF _ builders_wire(4)])

lemma buy_result_sends:
  "buy_result ctx ok t b w = Inr w' \<Longrightarrow> sends (ctx_sessionId (ctx_of ctx w)) (w_svc w) (w_svc w')"
  by (auto simp: buy_result_def dest!: w_send_sends [OF _ builders_wire(5)])

lemma sends_session: "sends sid s t \<Longrightarrow> ctx_sessionId (us_ctxs t r) = ctx_sessionId (us_ctxs s r)"
  by (simp add: sends_def same_table_def)

lemma hello_sends:
  assumes "hello cmd stof ctx u w = Inr w'"
  shows "sends (ctx_sessionId (ctx_of ctx w)) (w_svc w) (w_svc w')"
proof -
  let ?sid = "ctx_sessionId (ctx_of ctx w)" and ?w = "w\<lparr>w_svc := upd_ctx ctx (\<lambda>c. c\<lparr>ctx_userId := u\<rparr>) (w_svc w)\<rparr>"
  obtain w1 v where w1: "w_send ?sid (Make_S_UDP_HANDSHAKE_ACK ?sid) ?w = Inr w1"
    "send_player_info cmd stof ctx v w1 = Inr w'"
    using assms by (auto simp: hello_def bindr_Inr_iff Let_def)
  have "sends ?sid (w_svc w) (w_svc ?w)" by (simp add: sends_upd_fields)
  also have ack: "sends ?sid (w_svc ?w) (w_svc w1)" using w_send_sends [OF w1(1) builders_wire(1)] by simp
  also have "sends ?sid (w_svc w1) (w_svc w')"
    using send_player_info_sends [OF w1(2)] sends_session [OF ack, of ctx] by simp
  finally show ?thesis .
qed

lemma buy_weapon_sends:
  assumes "buy_weapon cmd stof ctx u t w = Inr w'"
  shows "sends (ctx_sessionId (ctx_of ctx w)) (w_svc w) (w_svc w')"
  using assms
  by (auto simp: buy_weapon_def bindr_Inr_iff Let_def split_beta split: option.splits if_splits
      dest!: buy_result_sends send_player_info_sends simp: sends_session intro: sends_trans)

lemma relay_move_sends:
  assumes "registry_ok (w_svc w)" and "relay_move ctx x y z rot anim w = Inr w'"
  shows "sends (ctx_sessionId (ctx_of ctx w)) (w_svc w) (w_svc w')"
proof -
  let ?sid = "ctx_sessionId (ctx_of ctx w)" and ?u = "ctx_userId (ctx_of ctx w)"
  obtain buf svc where b: "Make_S_LOBBY_PLAYER_MOVE ?sid ?u x y z rot anim = Inr buf"
    "Broadcast_loop (filter (\<lambda>(i, r). i \<noteq> ?sid) (us_idMap (w_svc w))) buf (w_svc w) = Inr svc"
    "w' = w\<lparr>w_svc := svc\<rparr>"
    using assms(2) by (auto simp: relay_move_def bindr_Inr_iff Let_def BroadcastExcept_def BroadcastExcept_loop_eq)
  note wire = builders_wire(3) [OF b(1)]
  have "sends (session_of (PlayerMove ?sid ?u x y z rot anim)) (w_svc w) svc"
    by (rule Broadcast_loop_sends [OF assms(1) b(2)]) (use wire in auto)
  then show ?thesis by (simp add: b(3))
qed

lemma HandlePacket_sends:
  assumes "registry_ok (w_svc w)" and "HandlePacket cmd stof now ctx buf n w = Inr w'"
  shows "sends (ctx_sessionId (ctx_of ctx w)) (w_svc w) (w_svc w')"
  using assms(2)
  by (auto simp: HandlePacket_def bindr_Inr_iff Let_def Handle_C_UDP_HELLO_def Handle_C_LOBBY_MOVE_def
      Handle_C_LOBBY_HEARTBEAT_def Handle_C_BUY_WEAPON_def Handle_C_GUN_SHOT_LOBBY_def sends_upd_fields
      dest!: hello_sends relay_move_sends [OF assms(1)] buy_weapon_sends split: if_splits)

lemma OnClientLeave_sends:
  assumes "registry_ok (w_svc w)" and "OnClientLeave sid w = Inr w'"
  shows "sends sid (w_svc w) (w_svc w')"
proof -
  obtain buf svc where b: "Make_S_LOBBY_PLAYER_LEAVE sid = Inr buf"
    "Broadcast_loop (us_idMap (w_svc w)) buf (w_svc w) = Inr svc" "w' = w\<lparr>w_svc := svc\<rparr>"
    using assms(2) by (auto simp: OnClientLeave_def bindr_Inr_iff Broadcast_def)
  from Broadcast_loop_sends [OF assms(1) b(2) subset_refl, of "PlayerLeave sid"] builders_wire(2) [OF b(1)]
  show ?thesis by (simp add: b(3))
qed

section \<open>Steps keep the types\<close>

lemma registered_handed_out:
  assumes "registry_ok s" and "r < us_nextRef s"
  shows "handed_out s (ctx_sessionId (us_ctxs s r))"
  using assms by (simp add: registry_ok_def linked_def handed_out_def word_less_nat_alt)

lemma registered_ref:
  assumes "registry_ok s"
  shows "map_of (us_idMap s) i = Some r \<Longrightarrow> r < us_nextRef s \<and> ctx_sessionId (us_ctxs s r) = i"
    and "FindByAddr a s = Some r \<Longrightarrow> r < us_nextRef s"
  using assms by (auto simp: registry_ok_def linked_def FindByAddr_def Let_def simp del: map_of_eq_Some_iff
      split: option.splits if_splits)

lemma sent_typed_grows: "grows s t \<Longrightarrow> us_sent t = us_sent s \<Longrightarrow> sent_typed s \<Longrightarrow> sent_typed t"
  by (simp add: sent_typed_def grows_typed)

lemma RegisterClient_sent [simp]: "us_sent (snd (RegisterClient now a s)) = us_sent s"
  by (simp add: RegisterClient_def GenerateSessionId_def Let_def split: option.split)

lemma RegisterClient_ref:
  assumes "registry_ok s" and "RegisterClient now a s = (r, t)"
  shows "r < us_nextRef t"
  using assms
  by (auto simp: RegisterClient_def GenerateSessionId_def Let_def registry_ok_def linked_def simp del: map_of_eq_Some_iff
      split: option.splits)

lemma OnRecvPacket_typed:
  assumes ok: "registry_ok (w_svc w)" and room: "has_room (w_svc w)" and ty: "sent_typed (w_svc w)"
    and "OnRecvPacket cmd stof alive now now' a buf n w = Inr w'"
  shows "grows (w_svc w) (w_svc w') \<and> sent_typed (w_svc w')"
  using assms(4)
proof (cases rule: OnRecvPacket_cases)
  case 1
  then show ?thesis using ty by simp
next
  case (2 hdr ctx svc)
  then have svc: "svc = snd (RegisterClient now a (w_svc w))" by simp
  have ok': "registry_ok svc" using registry_ok_RegisterClient [OF ok room] by (simp add: svc)
  have g: "grows (w_svc w) svc" using grows_RegisterClient [OF room] by (simp add: svc)
  have "sends (ctx_sessionId (us_ctxs svc ctx)) svc (w_svc w')" using HandlePacket_sends [OF _ 2(4)] ok' by simp
  moreover have "handed_out svc (ctx_sessionId (us_ctxs svc ctx))"
    using registered_handed_out [OF ok' RegisterClient_ref [OF ok 2(3)]] .
  moreover have "sent_typed svc" using sent_typed_grows [OF g] ty by (simp add: svc)
  ultimately have "sent_typed (w_svc w')" using sends_typed ok' by blast
  moreover have "grows svc (w_svc w')" using same_table_grows HandlePacket_table [OF 2(4)] by simp
  ultimately show ?thesis using grows_trans [OF g] by blast
next
  case (3 hdr ctx)
  let ?svc = "upd_ctx ctx (\<lambda>c. c\<lparr>ctx_lastSeq := ph_sequence hdr, ctx_lastAliveMs := now\<rparr>) (w_svc w)"
  have ok': "registry_ok ?svc" using ok by (simp add: registry_ok_upd_ctx)
  have g: "grows (w_svc w) ?svc" by (simp add: grows_upd_ctx)
  have "sends (ctx_sessionId (us_ctxs ?svc ctx)) ?svc (w_svc w')" using HandlePacket_sends [OF _ 3(5)] ok' by simp
  moreover have "handed_out ?svc (ctx_sessionId (us_ctxs ?svc ctx))"
    using registered_handed_out [OF ok', of ctx] registered_ref(2) [OF ok 3(3)] by simp
  moreover have "sent_typed ?svc" using sent_typed_grows [OF g] ty by simp
  ultimately have "sent_typed (w_svc w')" using sends_typed ok' by blast
  moreover have "grows ?svc (w_svc w')" using same_table_grows HandlePacket_table [OF 3(5)] by simp
  ultimately show ?thesis using grows_trans [OF g] by blast
qed

lemma server_step_typed:
  assumes "server_step cmd stof e s t" and ok: "registry_ok (sv_svc s)" "has_room (sv_svc s)"
    and ty: "sent_typed (sv_svc s)" "pc_typed (sv_svc s) (sv_main s)"
  shows "sent_typed (sv_svc t) \<and> pc_typed (sv_svc t) (sv_main t)"
  using assms(1)
proof cases
  case (recv now now' a buf n w w' pc)
  show ?thesis
  proof (cases "int UDP_HEADER_SIZE \<le> n")
    case True
    then show ?thesis
      using recv ty ok OnRecvPacket_typed [of w cmd stof True now now' a buf n w'] by (auto simp: ProcessRecv_def intro: grows_pc)
  qed (use recv ty in \<open>simp add: ProcessRecv_def\<close>)
next
  case (collect ids now w)
  have ok': "registry_ok (w_svc w)" using collect ok(1) by simp
  have "handed_out (w_svc w) i" if i: "i \<in> set ids" for i
  proof -
    obtain r where "(i, r) \<in> set (us_idMap (w_svc w))" using i collect by (auto simp: Tick_collect_def)
    then have "map_of (us_idMap (w_svc w)) i = Some r" using ok' by (simp add: registry_ok_def)
    from registered_ref(1) [OF ok' this] registered_handed_out [OF ok', of r] show ?thesis by simp
  qed
  then have "list_all (handed_out (w_svc w)) ids" by (simp add: list_all_iff)
  then show ?thesis using collect ty by (simp add: pc_typed_def)
next
  case (remove i w todo ids)
  note g = grows_RemoveClient [of "w_svc w" i]
  show ?thesis
    using remove ty sent_typed_grows [OF g] grows_pc [OF g, of "Removing todo ids"] by (simp add: pc_typed_def map_svc_def)
next
  case (leave i w w' ids)
  have "sends i (w_svc w) (w_svc w')" using OnClientLeave_sends leave ok(1) by simp
  then have "sent_typed (w_svc w')" "grows (w_svc w) (w_svc w')"
    using sends_typed leave ty ok(1) by (auto simp: pc_typed_def intro: same_table_grows simp: sends_def)
  then show ?thesis using leave ty grows_pc [of "w_svc w" "w_svc w'" "Leaving ids"] by (simp add: pc_typed_def)
qed (use ty in \<open>auto simp: pc_typed_def\<close>)

end
