(* ===== verification/Interleaving.thy ===== *)
theory Interleaving
  imports SentPackets
begin

text \<open>
  The server at the grain of its critical sections: a datagram takes up to four steps, between which
  the main thread may run. Each step of the worker enters the lock of the client table at most
  once, or writes the one field the main thread reads without it (\<^verbatim>\<open>lastAliveMs\<close>); everything else a step
  touches (the context's other fields, the Redis connection, the receive buffer) only the worker
  that holds the datagram uses. The steps of the main thread are those of \<^verbatim>\<open>GameServer\<close>.
\<close>

section \<open>The phases of a datagram\<close>

datatype work =
    Idle
  | Looking sockaddr_in "byte list" int
  | Found ctxref "byte list" int
  | Handling ctxref "byte list" int
  | Informing ctxref string

text \<open>\<^verbatim>\<open>OnRecvPacket\<close> up to the critical section of \<^verbatim>\<open>RegisterClient\<close> or \<^verbatim>\<open>FindByAddr\<close>.\<close>

definition work_lookup :: "i64 \<Rightarrow> sockaddr_in \<Rightarrow> byte list \<Rightarrow> int \<Rightarrow> 's world \<Rightarrow> (work \<times> 's world) result" where
  "work_lookup now senderAddr buffer len w =
     (if len < int UDP_HEADER_SIZE then Inr (Idle, w)
      else bindr (load_header buffer) (\<lambda>header.
        if ph_sessionId header = 0
        then let (ctx, svc) = RegisterClient now senderAddr (w_svc w)
             in Inr (Handling ctx buffer len, w\<lparr>w_svc := svc\<rparr>)
        else case FindByAddr senderAddr (w_svc w) of
               None \<Rightarrow> Inr (Idle, w)
             | Some ctx \<Rightarrow> Inr (Found ctx buffer len, w)))"

text \<open>The check of the sequence number and the two stores into the context.\<close>

definition work_stamp :: "i64 \<Rightarrow> ctxref \<Rightarrow> byte list \<Rightarrow> int \<Rightarrow> 's world \<Rightarrow> (work \<times> 's world) result" where
  "work_stamp now ctx buffer len w =
     bindr (load_header buffer) (\<lambda>header.
       if ph_sequence header \<noteq> 0 \<and> ph_sequence header \<le> ctx_lastSeq (ctx_of ctx w) then Inr (Idle, w)
       else Inr (Handling ctx buffer len,
              w\<lparr>w_svc := upd_ctx ctx (\<lambda>c. c\<lparr>ctx_lastSeq := ph_sequence header, ctx_lastAliveMs := now\<rparr>) (w_svc w)\<rparr>))"

text \<open>What the handlers of the handshake and of a purchase read.\<close>

definition hello_user :: "byte list \<Rightarrow> int \<Rightarrow> string option result" where
  "hello_user payload payloadLen =
     (if payloadLen < 2 then Inr None
      else bindr (br_shift dec_u16 2 (BufferReader payload (of_int payloadLen) 0)) (\<lambda>(userIdLen, br).
        if br_FreeSize br < ucast userIdLen then Inr None
        else bindr (load_at 2 (unat userIdLen) payload) (\<lambda>bs. Inr (Some (string_of bs)))))"

definition buy_order :: "byte list \<Rightarrow> int \<Rightarrow> (string \<times> i32) option result" where
  "buy_order payload payloadLen =
     (if payloadLen < 6 then Inr None
      else bindr (br_shift dec_u16 2 (BufferReader payload (of_int payloadLen) 0)) (\<lambda>(userIdLen, br).
        if br_FreeSize br < ucast userIdLen + 4 then Inr None
        else bindr (load_at 2 (unat userIdLen) payload) (\<lambda>bs.
             bindr (load_at (2 + unat userIdLen) 4 payload) (\<lambda>wt.
               Inr (Some (string_of bs, dec_u32 wt))))))"

text \<open>The two handlers up to their first packet; the info packet, if they get to it, is a phase of its own.\<close>

definition hello_ack :: "ctxref \<Rightarrow> string \<Rightarrow> 's world \<Rightarrow> (work \<times> 's world) result" where
  "hello_ack ctx userId w =
     (let w = w\<lparr>w_svc := upd_ctx ctx (\<lambda>c. c\<lparr>ctx_userId := userId\<rparr>) (w_svc w)\<rparr>;
          sid = ctx_sessionId (ctx_of ctx w)
      in bindr (w_send sid (Make_S_UDP_HANDSHAKE_ACK sid) w)
           (\<lambda>w. Inr (Informing ctx (ctx_userId (ctx_of ctx w)), w)))"

definition finish :: "'s world result \<Rightarrow> (work \<times> 's world) result" where
  "finish r = bindr r (\<lambda>w. Inr (Idle, w))"

definition buy_pay :: "'s redis_command \<Rightarrow> ctxref \<Rightarrow> string \<Rightarrow> i32 \<Rightarrow> 's world \<Rightarrow> (work \<times> 's world) result" where
  "buy_pay cmd ctx userId weaponType w =
     (case FindWeapon weaponType of
        None \<Rightarrow> finish (buy_result ctx False weaponType 0 w)
      | Some weapon \<Rightarrow>
          bindr (GetBalance cmd userId 0 (w_redis w)) (\<lambda>(ok, balance, rc).
          let w = w\<lparr>w_redis := rc\<rparr>
          in if \<not> ok then finish (buy_result ctx False weaponType 0 w)
          else if balance <s wi_price weapon then finish (buy_result ctx False weaponType balance w)
          else
            let newBalance = balance - wi_price weapon;
                ammoOnPurchase = wi_magazineSize weapon * 5;
                (ok, rc) = PurchaseWeapon cmd userId newBalance weaponType ammoOnPurchase 0 (w_redis w);
                w = w\<lparr>w_redis := rc\<rparr>
            in if \<not> ok then finish (buy_result ctx False weaponType balance w)
            else bindr (buy_result ctx True weaponType newBalance w) (\<lambda>w. Inr (Informing ctx userId, w))))"

definition work_handle ::
  "'s redis_command \<Rightarrow> (string \<Rightarrow> f32 result) \<Rightarrow> i64 \<Rightarrow> ctxref \<Rightarrow> byte list \<Rightarrow> int \<Rightarrow> 's world \<Rightarrow>
     (work \<times> 's world) result" where
  "work_handle cmd stof now ctx buffer len w =
     bindr (load_header buffer) (\<lambda>header.
       let payload = drop UDP_HEADER_SIZE buffer;
           payloadLen = len - int UDP_HEADER_SIZE;
           t = ph_id header
       in if t = packet_id C_UDP_HELLO then
            bindr (hello_user payload payloadLen) (\<lambda>u. case u of None \<Rightarrow> Inr (Idle, w) | Some u \<Rightarrow> hello_ack ctx u w)
          else if t = packet_id C_LOBBY_MOVE then finish (Handle_C_LOBBY_MOVE ctx payload payloadLen w)
          else if t = packet_id C_LOBBY_HEARTBEAT then Inr (Idle, Handle_C_LOBBY_HEARTBEAT now ctx w)
          else if t = packet_id C_PURCHASE_WEAPON then
            bindr (buy_order payload payloadLen) (\<lambda>p. case p of None \<Rightarrow> Inr (Idle, w) | Some (u, wt) \<Rightarrow> buy_pay cmd ctx u wt w)
          else if t = packet_id C_GUN_SHOT_LOBBY then finish (Handle_C_GUN_SHOT_LOBBY cmd stof ctx w)
          else Inr (Idle, w))"

fun work_step ::
  "'s redis_command \<Rightarrow> (string \<Rightarrow> f32 result) \<Rightarrow> i64 \<Rightarrow> work \<Rightarrow> 's world \<Rightarrow> (work \<times> 's world) result" where
  "work_step cmd stof now Idle w = Inr (Idle, w)"
| "work_step cmd stof now (Looking a buf n) w = work_lookup now a buf n w"
| "work_step cmd stof now (Found ctx buf n) w = work_stamp now ctx buf n w"
| "work_step cmd stof now (Handling ctx buf n) w = work_handle cmd stof now ctx buf n w"
| "work_step cmd stof now (Informing ctx u) w = finish (send_player_info cmd stof ctx u w)"

section \<open>What is left to do\<close>

text \<open>The rest of the work in one piece, in terms of the functions of the code.\<close>

fun work_rest ::
  "'s redis_command \<Rightarrow> (string \<Rightarrow> f32 result) \<Rightarrow> i64 \<Rightarrow> i64 \<Rightarrow> work \<Rightarrow> 's world \<Rightarrow> 's world result" where
  "work_rest cmd stof now now' Idle w = Inr w"
| "work_rest cmd stof now now' (Looking a buf n) w = ProcessRecv cmd stof True now now' a buf n w"
| "work_rest cmd stof now now' (Found ctx buf n) w =
     bindr (work_stamp now ctx buf n w) (\<lambda>(k, w). case k of Idle \<Rightarrow> Inr w | _ \<Rightarrow> HandlePacket cmd stof now' ctx buf n w)"
| "work_rest cmd stof now now' (Handling ctx buf n) w = HandlePacket cmd stof now' ctx buf n w"
| "work_rest cmd stof now now' (Informing ctx u) w = send_player_info cmd stof ctx u w"

fun work_clock :: "i64 \<Rightarrow> i64 \<Rightarrow> work \<Rightarrow> i64" where
  "work_clock now now' (Handling ctx buf n) = now'"
| "work_clock now now' k = now"

lemma finish_rest [simp]: "bindr (finish r) (\<lambda>(k, w). work_rest cmd stof now now' k w) = r"
  by (cases r) (simp_all add: finish_def)

lemma hello_rest: "bindr (hello_ack ctx u w) (\<lambda>(k, w). work_rest cmd stof now now' k w) = hello cmd stof ctx u w"
  by (simp add: hello_ack_def hello_def Let_def bindr_assoc)

lemma buy_rest: "bindr (buy_pay cmd ctx u t w) (\<lambda>(k, w). work_rest cmd stof now now' k w) = buy_weapon cmd stof ctx u t w"
proof (cases "FindWeapon t")
  case (Some weapon)
  show ?thesis
  proof (cases "GetBalance cmd u 0 (w_redis w)")
    case (Inr r)
    obtain ok balance rc where "r = (ok, balance, rc)" by (cases r)
    with Some Inr show ?thesis by (simp add: buy_pay_def buy_weapon_def Let_def bindr_assoc split_beta)
  qed (use Some in \<open>simp add: buy_pay_def buy_weapon_def\<close>)
qed (simp add: buy_pay_def buy_weapon_def)

lemma Handle_C_UDP_HELLO_parse:
  "Handle_C_UDP_HELLO cmd stof ctx p n w =
     bindr (hello_user p n) (\<lambda>u. case u of None \<Rightarrow> Inr w | Some u \<Rightarrow> hello cmd stof ctx u w)"
  by (cases "br_shift dec_u16 2 (BufferReader p (of_int n) 0)")
     (auto simp: Handle_C_UDP_HELLO_def hello_user_def bindr_assoc split_beta)

lemma Handle_C_BUY_WEAPON_parse:
  "Handle_C_BUY_WEAPON cmd stof ctx p n w =
     bindr (buy_order p n) (\<lambda>q. case q of None \<Rightarrow> Inr w | Some (u, t) \<Rightarrow> buy_weapon cmd stof ctx u t w)"
  by (cases "br_shift dec_u16 2 (BufferReader p (of_int n) 0)")
     (auto simp: Handle_C_BUY_WEAPON_def buy_order_def bindr_assoc split_beta)

lemma handle_rest:
  "bindr (work_handle cmd stof now' ctx buf n w) (\<lambda>(k, w). work_rest cmd stof now now' k w) = HandlePacket cmd stof now' ctx buf n w"
proof (cases "load_header buf")
  case (Inr h)
  have "bindr (bindr (hello_user p m) (\<lambda>u. case u of None \<Rightarrow> Inr (Idle, w) | Some u \<Rightarrow> hello_ack ctx u w))
      (\<lambda>(k, w). work_rest cmd stof now now' k w) = Handle_C_UDP_HELLO cmd stof ctx p m w" for p m
    unfolding Handle_C_UDP_HELLO_parse by (cases "hello_user p m") (auto simp: hello_rest split: option.split)
  moreover have "bindr (bindr (buy_order p m) (\<lambda>q. case q of None \<Rightarrow> Inr (Idle, w) | Some (u, t) \<Rightarrow> buy_pay cmd ctx u t w))
      (\<lambda>(k, w). work_rest cmd stof now now' k w) = Handle_C_BUY_WEAPON cmd stof ctx p m w" for p m
    unfolding Handle_C_BUY_WEAPON_parse by (cases "buy_order p m") (auto simp: buy_rest split: option.split)
  ultimately show ?thesis using Inr by (simp add: work_handle_def HandlePacket_def Let_def)
qed (simp add: work_handle_def HandlePacket_def)

text \<open>Each phase leaves exactly what the code still has to do.\<close>

lemma work_step_rest:
  "bindr (work_step cmd stof (work_clock now now' k) k w) (\<lambda>(k, w). work_rest cmd stof now now' k w) =
     work_rest cmd stof now now' k w"
proof (cases k)
  case (Looking a buf n)
  show ?thesis
  proof (cases "n < int UDP_HEADER_SIZE")
    case False
    then have n: "int UDP_HEADER_SIZE \<le> n" by simp
    show ?thesis
    proof (cases "load_header buf")
      case (Inr h)
      with n show ?thesis
        by (auto simp: Looking work_lookup_def ProcessRecv_def OnRecvPacket_def work_stamp_def split_beta Let_def split: option.split)
    qed (use n in \<open>simp add: Looking work_lookup_def ProcessRecv_def OnRecvPacket_def\<close>)
  qed (simp add: Looking work_lookup_def ProcessRecv_def)
next
  case (Found ctx buf n)
  show ?thesis
    by (cases "load_header buf") (simp_all add: Found work_stamp_def)
qed (simp_all add: handle_rest)

section \<open>The worker alone\<close>

fun rank :: "work \<Rightarrow> nat" where
  "rank Idle = 0"
| "rank (Informing ctx u) = 1"
| "rank (Handling ctx buf n) = 2"
| "rank (Found ctx buf n) = 3"
| "rank (Looking a buf n) = 4"

lemma rank_0: "rank k = 0 \<longleftrightarrow> k = Idle"
  by (cases k) simp_all

lemma rank_finish: "finish r = Inr (k, w) \<Longrightarrow> k = Idle"
  by (auto simp: finish_def bindr_Inr_iff)

lemma rank_buy: "buy_pay cmd ctx u t w = Inr (k, w') \<Longrightarrow> rank k \<le> 1"
proof (cases "FindWeapon t")
  case (Some weapon)
  assume "buy_pay cmd ctx u t w = Inr (k, w')"
  with Some show ?thesis
    by (cases "GetBalance cmd u 0 (w_redis w)")
       (auto simp: buy_pay_def bindr_Inr_iff Let_def split_beta dest!: rank_finish split: if_splits)
qed (auto simp: buy_pay_def dest: rank_finish)

lemma rank_handle:
  assumes "work_handle cmd stof now ctx buf n w = Inr (k, w')"
  shows "rank k \<le> 1"
proof -
  obtain h where h: "load_header buf = Inr h" using assms by (auto simp: work_handle_def bindr_Inr_iff)
  show ?thesis
    using assms
    by (auto simp: work_handle_def h hello_ack_def bindr_Inr_iff Let_def
        dest!: rank_finish rank_buy split: option.splits if_splits)
qed

lemma work_step_rank: "work_step cmd stof now k w = Inr (k', w') \<Longrightarrow> rank k' \<le> rank k - 1"
  by (cases k) (auto simp: work_lookup_def work_stamp_def bindr_Inr_iff split_beta
      dest: rank_finish rank_handle split: if_splits option.splits)

fun phases ::
  "'s redis_command \<Rightarrow> (string \<Rightarrow> f32 result) \<Rightarrow> i64 \<Rightarrow> i64 \<Rightarrow> nat \<Rightarrow> work \<Rightarrow> 's world \<Rightarrow> (work \<times> 's world) result" where
  "phases cmd stof now now' 0 k w = Inr (k, w)"
| "phases cmd stof now now' (Suc m) k w =
     bindr (work_step cmd stof (work_clock now now' k) k w) (\<lambda>(k, w). phases cmd stof now now' m k w)"

lemma phases_rest: "rank k \<le> m \<Longrightarrow> phases cmd stof now now' m k w = finish (work_rest cmd stof now now' k w)"
proof (induction m arbitrary: k w)
  case 0
  then show ?case by (simp add: rank_0 finish_def)
next
  case (Suc m)
  note rest = work_step_rest [of cmd stof now now' k w]
  show ?case
  proof (cases "work_step cmd stof (work_clock now now' k) k w")
    case (Inl e)
    with rest show ?thesis by (simp add: finish_def flip: rest)
  next
    case (Inr r)
    obtain k' w' where r: "r = (k', w')" by fastforce
    with Inr have "rank k' \<le> m" using work_step_rank Suc.prems by fastforce
    from Suc.IH [OF this] Inr r rest show ?thesis by simp
  qed
qed

section \<open>Interleaved runs\<close>

datatype turn_event =
    Arrives sockaddr_in "byte list" int
  | Works i64
  | Main server_event

fun main_event :: "server_event \<Rightarrow> bool" where
  "main_event (Received now now' a buf n) \<longleftrightarrow> False"
| "main_event e \<longleftrightarrow> True"

inductive turn ::
  "'s redis_command \<Rightarrow> (string \<Rightarrow> f32 result) \<Rightarrow> turn_event \<Rightarrow> 's server \<times> work \<Rightarrow> 's server \<times> work \<Rightarrow> bool"
  for cmd stof where
  arrive: "turn cmd stof (Arrives a buf n) (s, Idle) (s, Looking a buf n)"
| work: "k \<noteq> Idle \<Longrightarrow> work_step cmd stof now k (sv_world s) = Inr (k', w') \<Longrightarrow>
    turn cmd stof (Works now) (s, k) (s\<lparr>sv_world := w'\<rparr>, k')"
| main: "server_step cmd stof e s t \<Longrightarrow> main_event e \<Longrightarrow> turn cmd stof (Main e) (s, k) (t, k)"

inductive_cases turnE: "turn cmd stof e p q"

text \<open>The worker alone takes its phases one after the other.\<close>

lemma phases_run:
  assumes "phases cmd stof now now' m k w = Inr (Idle, w')"
  shows "\<exists>es. length es \<le> m \<and> run_of (turn cmd stof) es (\<lparr>sv_world = w, sv_main = pc\<rparr>, k) (\<lparr>sv_world = w', sv_main = pc\<rparr>, Idle)"
  using assms
proof (induction m arbitrary: k w)
  case 0
  then show ?case using run_refl by fastforce
next
  case (Suc m)
  show ?case
  proof (cases "k = Idle")
    case True
    with Suc.prems have "phases cmd stof now now' m Idle w = Inr (Idle, w')" by simp
    with Suc.IH show ?thesis unfolding True by (meson le_SucI)
  next
    case False
    from Suc.prems obtain k1 w1 where 1: "work_step cmd stof (work_clock now now' k) k w = Inr (k1, w1)"
      "phases cmd stof now now' m k1 w1 = Inr (Idle, w')" by (auto simp: bindr_Inr_iff)
    from Suc.IH [OF 1(2)] obtain es where "length es \<le> m"
      "run_of (turn cmd stof) es (\<lparr>sv_world = w1, sv_main = pc\<rparr>, k1) (\<lparr>sv_world = w', sv_main = pc\<rparr>, Idle)" by blast
    with work [OF False, of cmd stof _ "\<lparr>sv_world = w, sv_main = pc\<rparr>"] 1(1) show ?thesis
      by (intro exI [of _ "Works (work_clock now now' k) # es"]) (auto intro: run_of_Cons)
  qed
qed

lemma server_step_turns:
  assumes "server_step cmd stof e s t"
  shows "\<exists>es. length es \<le> 5 \<and> run_of (turn cmd stof) es (s, Idle) (t, Idle)"
proof (cases "main_event e")
  case True
  with main [OF assms, of Idle] show ?thesis
    by (intro exI [of _ "[Main e]"]) (auto intro: run_of_Cons run_refl)
next
  case False
  then obtain now now' a buf n where e: "e = Received now now' a buf n" by (cases e) auto
  from assms obtain w w' pc where s: "s = \<lparr>sv_world = w, sv_main = pc\<rparr>" "t = \<lparr>sv_world = w', sv_main = pc\<rparr>"
    "ProcessRecv cmd stof True now now' a buf n w = Inr w'" unfolding e by cases auto
  have "phases cmd stof now now' 4 (Looking a buf n) w = Inr (Idle, w')"
    by (simp only: phases_rest rank.simps order.refl work_rest.simps) (simp add: s(3) finish_def)
  from phases_run [OF this] obtain es where "length es \<le> 4"
    "run_of (turn cmd stof) es (\<lparr>sv_world = w, sv_main = pc\<rparr>, Looking a buf n) (t, Idle)" unfolding s by blast
  then show ?thesis
    unfolding s(1) by (intro exI [of _ "Arrives a buf n # es"]) (auto intro: run_of_Cons arrive)
qed

lemma server_path_turns:
  "server_path cmd stof es s t \<Longrightarrow> \<exists>fs. length fs \<le> 5 * length es \<and> run_of (turn cmd stof) fs (s, Idle) (t, Idle)"
proof (induction rule: server_path.induct)
  case (path_refl s)
  then show ?case using run_refl by fastforce
next
  case (path_step es s t e u)
  then obtain fs gs where "length fs \<le> 5 * length es" "run_of (turn cmd stof) fs (s, Idle) (t, Idle)"
    "length gs \<le> 5" "run_of (turn cmd stof) gs (t, Idle) (u, Idle)" using server_step_turns by metis
  then show ?case by (intro exI [of _ "fs @ gs"]) (auto intro: run_of_append)
qed

section \<open>Properties\<close>

text \<open>
  The four phases, taken one after the other, are \<^verbatim>\<open>ProcessRecv\<close>: the same failures, the same state at
  the end, and nothing left to do.
\<close>

theorem phases_are_ProcessRecv:
  "phases cmd stof now now' 4 (Looking a buf n) w =
     (case ProcessRecv cmd stof True now now' a buf n w of Inl e \<Rightarrow> Inl e | Inr w' \<Rightarrow> Inr (Idle, w'))"
  by (simp only: phases_rest rank.simps order.refl work_rest.simps finish_def) (simp add: bindr_def split: sum.split)

end
