(* ===== verification/ServerTurns.thy ===== *)
theory ServerTurns
  imports Interleaving
begin

text \<open>
  What holds in every interleaving of the phases of the datagrams with the main thread: the client
  table stays consistent, session identifiers are not reused, what is sent is typed, nothing faults;
  and what the finer grain lets happen.
\<close>

section \<open>What a phase does\<close>

fun worker_ctx :: "work \<Rightarrow> ctxref option" where
  "worker_ctx (Found ctx buf n) = Some ctx"
| "worker_ctx (Handling ctx buf n) = Some ctx"
| "worker_ctx (Informing ctx u) = Some ctx"
| "worker_ctx k = None"

definition work_ok :: "udp_service \<Rightarrow> work \<Rightarrow> bool" where
  "work_ok s k \<longleftrightarrow> (\<forall>r. worker_ctx k = Some r \<longrightarrow> r < us_nextRef s)"

lemma finish_Inr_iff [simp]: "finish r = Inr (k, w) \<longleftrightarrow> k = Idle \<and> r = Inr w"
  by (auto simp: finish_def bindr_Inr_iff)

lemma hello_ack_sends:
  "hello_ack ctx u w = Inr (k, w') \<Longrightarrow>
     sends (ctx_sessionId (ctx_of ctx w)) (w_svc w) (w_svc w') \<and> (\<forall>r. worker_ctx k = Some r \<longrightarrow> r = ctx)"
  by (auto simp: hello_ack_def bindr_Inr_iff Let_def dest!: w_send_sends [OF _ builders_wire(1)]
      intro: sends_trans [OF sends_upd_fields(1)])

lemma buy_pay_sends:
  assumes "buy_pay cmd ctx u t w = Inr (k, w')"
  shows "sends (ctx_sessionId (ctx_of ctx w)) (w_svc w) (w_svc w') \<and> (\<forall>r. worker_ctx k = Some r \<longrightarrow> r = ctx)"
proof (cases "FindWeapon t")
  case (Some weapon)
  with assms show ?thesis
    by (cases "GetBalance cmd u 0 (w_redis w)")
       (auto simp: buy_pay_def bindr_Inr_iff Let_def split_beta dest!: buy_result_sends split: if_splits)
qed (use assms in \<open>auto simp: buy_pay_def dest: buy_result_sends\<close>)

lemma work_handle_sends:
  assumes "registry_ok (w_svc w)" and "work_handle cmd stof now ctx buf n w = Inr (k, w')"
  shows "sends (ctx_sessionId (ctx_of ctx w)) (w_svc w) (w_svc w') \<and> (\<forall>r. worker_ctx k = Some r \<longrightarrow> r = ctx)"
proof -
  obtain h where h: "load_header buf = Inr h" using assms(2) by (auto simp: work_handle_def bindr_Inr_iff)
  show ?thesis
    using assms(2)
    by (auto simp: work_handle_def h bindr_Inr_iff Let_def Handle_C_LOBBY_MOVE_def Handle_C_LOBBY_HEARTBEAT_def
        Handle_C_GUN_SHOT_LOBBY_def sends_upd_fields dest: hello_ack_sends buy_pay_sends relay_move_sends [OF assms(1)]
        split: option.splits if_splits)
qed

text \<open>A phase leaves the table alone, registers the sender, stamps a context, or sends.\<close>

lemma work_step_cases:
  assumes "work_step cmd stof now k w = Inr (k', w')" and "registry_ok (w_svc w)"
  obtains
    (same) "w' = w" "worker_ctx k' = None"
  | (found) a buf n ctx where "k = Looking a buf n" "w' = w" "k' = Found ctx buf n" "FindByAddr a (w_svc w) = Some ctx"
  | (register) a buf n ctx where "k = Looking a buf n" "RegisterClient now a (w_svc w) = (ctx, w_svc w')" "k' = Handling ctx buf n"
  | (stamp) ctx buf n q where "k = Found ctx buf n" "k' = Handling ctx buf n"
      "w_svc w' = upd_ctx ctx (\<lambda>c. c\<lparr>ctx_lastSeq := q, ctx_lastAliveMs := now\<rparr>) (w_svc w)"
  | (send) ctx where "worker_ctx k = Some ctx" "sends (ctx_sessionId (ctx_of ctx w)) (w_svc w) (w_svc w')"
      "\<forall>r. worker_ctx k' = Some r \<longrightarrow> r = ctx"
proof (cases k)
  case (Looking a buf n)
  show ?thesis
  proof (cases "n < int UDP_HEADER_SIZE")
    case False
    with assms(1) Looking obtain h where h: "load_header buf = Inr h" by (auto simp: work_lookup_def bindr_Inr_iff)
    show ?thesis
    proof (cases "ph_sessionId h = 0")
      case True
      with assms(1) Looking False h register [of a buf n "fst (RegisterClient now a (w_svc w))"] show ?thesis
        by (auto simp: work_lookup_def split_beta)
    next
      case sid: False
      with assms(1) Looking False h same found show ?thesis by (auto simp: work_lookup_def split: option.splits)
    qed
  qed (use assms(1) Looking same in \<open>simp add: work_lookup_def\<close>)
next
  case (Found ctx buf n)
  with assms(1) same stamp show ?thesis by (auto simp: work_stamp_def bindr_Inr_iff split: if_splits)
next
  case (Handling ctx buf n)
  with assms(1) work_handle_sends [OF assms(2)] send [of ctx] show ?thesis by simp
next
  case (Informing ctx u)
  with assms(1) send [of ctx] show ?thesis by (auto dest: send_player_info_sends)
qed (use assms(1) same in simp)

lemma work_step_table:
  assumes "work_step cmd stof now k w = Inr (k', w')" and "registry_ok (w_svc w)"
  shows "table_step False (w_svc w) (w_svc w')"
  using assms
proof (cases rule: work_step_cases)
  case (register a buf n ctx)
  then have "w_svc w' = snd (RegisterClient now a (w_svc w))" by simp
  with table_step_RegisterClient [OF assms(2)] show ?thesis by simp
next
  case (stamp ctx buf n q)
  then show ?thesis by (simp add: table_step_def client_addr_upd_ctx)
next
  case (send ctx)
  then show ?thesis by (simp add: sends_def table_step_same)
qed (simp_all add: table_step_same)

lemma work_step_registry:
  assumes "work_step cmd stof now k w = Inr (k', w')" and "registry_ok (w_svc w)" and "has_room (w_svc w)"
  shows "registry_ok (w_svc w')"
  using assms(1,2)
proof (cases rule: work_step_cases)
  case (register a buf n ctx)
  then have "w_svc w' = snd (RegisterClient now a (w_svc w))" by simp
  with registry_ok_RegisterClient [OF assms(2,3)] show ?thesis by simp
next
  case (stamp ctx buf n q)
  with assms(2) show ?thesis by (simp add: registry_ok_upd_ctx)
next
  case (send ctx)
  with assms(2) show ?thesis by (auto simp: sends_def intro: same_table_registry)
qed (use assms(2) in simp_all)

interpretation turns: table_machine "turn cmd stof" "\<lambda>p. sv_svc (fst p)" "\<lambda>_. False" for cmd stof
proof unfold_locales
  fix e and p q :: "'a server \<times> work"
  assume "turn cmd stof e p q" and ok: "registry_ok (sv_svc (fst p))"
  then show "table_step False (sv_svc (fst p)) (sv_svc (fst q))"
  proof cases
    case (work k now s k' w')
    with work_step_table [OF work(5)] ok show ?thesis by simp
  next
    case (main e s t k)
    with server_step_table [OF main(4)] ok show ?thesis by (simp add: table_step_def)
  qed (simp add: table_step_same)
next
  fix e and p q :: "'a server \<times> work"
  assume "turn cmd stof e p q" and ok: "registry_ok (sv_svc (fst p))" and room: "has_room (sv_svc (fst p))"
  then show "registry_ok (sv_svc (fst q))"
  proof cases
    case (work k now s k' w')
    with work_step_registry [OF work(5)] ok room show ?thesis by simp
  next
    case (main e s t k)
    with server_step_registry [OF main(4)] ok room show ?thesis by simp
  qed (use ok in simp)
qed

section \<open>Types\<close>

lemma work_step_typed:
  assumes "work_step cmd stof now k w = Inr (k', w')" and ok: "registry_ok (w_svc w)" and room: "has_room (w_svc w)"
    and ty: "sent_typed (w_svc w)" "work_ok (w_svc w) k"
  shows "grows (w_svc w) (w_svc w') \<and> sent_typed (w_svc w') \<and> work_ok (w_svc w') k'"
  using assms(1,2)
proof (cases rule: work_step_cases)
  case same
  with ty show ?thesis by (simp add: work_ok_def)
next
  case (found a buf n ctx)
  with ty registered_ref(2) [OF ok] show ?thesis by (simp add: work_ok_def)
next
  case (register a buf n ctx)
  then have svc: "w_svc w' = snd (RegisterClient now a (w_svc w))" by simp
  have g: "grows (w_svc w) (w_svc w')" unfolding svc by (rule grows_RegisterClient [OF room])
  moreover have "us_sent (w_svc w') = us_sent (w_svc w)" by (simp add: svc)
  ultimately show ?thesis
    using sent_typed_grows [OF g _ ty(1)] RegisterClient_ref [OF ok register(2)] register(3) by (simp add: work_ok_def)
next
  case (stamp ctx buf n q)
  have g: "grows (w_svc w) (w_svc w')" by (simp add: stamp(3) grows_upd_ctx)
  with stamp ty sent_typed_grows [OF g _ ty(1)] show ?thesis by (simp add: work_ok_def)
next
  case (send ctx)
  have same: "same_table (w_svc w) (w_svc w')" using send(2) by (simp add: sends_def)
  have "handed_out (w_svc w) (ctx_sessionId (ctx_of ctx w))"
    using registered_handed_out [OF ok] ty(2) send(1) by (simp add: work_ok_def)
  from sends_typed [OF send(2) ty(1) ok this] same_table_grows [OF same] ty(2) send(1,3) same show ?thesis
    by (auto simp: work_ok_def same_table_def)
qed

lemma turn_typed:
  assumes "turn cmd stof e p q" and ok: "registry_ok (sv_svc (fst p))" "has_room (sv_svc (fst p))"
    and ty: "sent_typed (sv_svc (fst p))" "pc_typed (sv_svc (fst p)) (sv_main (fst p))" "work_ok (sv_svc (fst p)) (snd p)"
  shows "sent_typed (sv_svc (fst q)) \<and> pc_typed (sv_svc (fst q)) (sv_main (fst q)) \<and> work_ok (sv_svc (fst q)) (snd q)"
  using assms(1)
proof cases
  case (arrive a buf n s)
  with ty show ?thesis by (simp add: work_ok_def)
next
  case (work k now s k' w')
  with work_step_typed [OF work(5)] ok ty show ?thesis by (auto intro: grows_pc)
next
  case (main e s t k)
  have "us_nextRef (sv_svc s) \<le> us_nextRef (sv_svc t)"
    using server_step_table [OF main(4)] ok(1) main(2) by (auto simp: table_step_def)
  with main server_step_typed [OF main(4)] ok ty show ?thesis by (fastforce simp: work_ok_def)
qed

lemma start_ok:
  "registry_ok (sv_svc (server_start outcome redis))" "us_sCounter (sv_svc (server_start outcome redis)) = 1"
  "sent_typed (sv_svc (server_start outcome redis))"
  "pc_typed (sv_svc (server_start outcome redis)) (sv_main (server_start outcome redis))"
  using registry_ok_init by (simp_all add: server_start_def udp_service_init_def sent_typed_def pc_typed_def)

lemma turns_inv:
  assumes "run_of (turn cmd stof) es (server_start outcome redis, Idle) p" and "length es < 2 ^ 64 - 1"
  shows "sent_typed (sv_svc (fst p)) \<and> pc_typed (sv_svc (fst p)) (sv_main (fst p)) \<and> work_ok (sv_svc (fst p)) (snd p)"
proof (rule turns.run_invariant [OF assms(1), where ok = "\<lambda>_. True"])
  fix e t u
  assume "turn cmd stof e t u" "registry_ok (sv_svc (fst t))" "has_room (sv_svc (fst t))" and
    "sent_typed (sv_svc (fst t)) \<and> pc_typed (sv_svc (fst t)) (sv_main (fst t)) \<and> work_ok (sv_svc (fst t)) (snd t)"
  then show "sent_typed (sv_svc (fst u)) \<and> pc_typed (sv_svc (fst u)) (sv_main (fst u)) \<and> work_ok (sv_svc (fst u)) (snd u)"
    using turn_typed by blast
qed (use assms(2) start_ok [of outcome redis] in \<open>simp_all add: list_all_iff work_ok_def\<close>)

lemmas turns_typed = conjunct1 [OF turns_inv]
lemmas turns_work_ok = conjunct2 [OF conjunct2 [OF turns_inv]]

section \<open>A move after the farewell\<close>

lemma RemoveClient_idMap: "us_idMap (RemoveClient i s) = filter (\<lambda>(j, r). j \<noteq> i) (us_idMap s)"
proof (cases "map_of (us_idMap s) i")
  case None
  then have "filter (\<lambda>(j, r). j \<noteq> i) (us_idMap s) = us_idMap s"
    by (intro filter_True) (force simp: map_of_eq_None_iff image_iff)
  with None show ?thesis by (simp add: RemoveClient_def)
next
  case (Some r)
  then show ?thesis by (auto simp: RemoveClient_def Let_def AList.delete_eq intro!: filter_cong)
qed

lemma sent_to:
  assumes "registry_ok s" and "set kvs \<subseteq> set (us_idMap s)"
  shows "map (\<lambda>(j, r). (ctx_addr (us_ctxs s r), bs)) kvs = map (\<lambda>j. (the (client_addr s j), bs)) (map fst kvs)"
proof -
  have "the (client_addr s j) = ctx_addr (us_ctxs s r)" if "(j, r) \<in> set kvs" for j r
    using map_of_client [OF assms(1), of j r] assms(2) that by auto
  then show ?thesis by auto
qed

lemma leave_then_work:
  assumes "OnClientLeave i (map_svc (RemoveClient i) w) = Inr w2"
    and "k \<noteq> Idle" and "work_step cmd stof now k w2 = Inr (k', w3)"
  shows "run_of (turn cmd stof) [Main (Removed i), Main Ticked, Main (Announced i), Works now]
     (\<lparr>sv_world = w, sv_main = Removing [i] [i]\<rparr>, k) (\<lparr>sv_world = w3, sv_main = Leaving []\<rparr>, k')"
proof -
  let ?s = "\<lambda>w pc. \<lparr>sv_world = w, sv_main = pc\<rparr>" and ?w1 = "map_svc (RemoveClient i) w"
  have 1: "turn cmd stof (Main (Removed i)) (?s w (Removing [i] [i]), k) (?s ?w1 (Removing [] [i]), k)"
    by (intro main remove) simp
  have 2: "turn cmd stof (Main Ticked) (?s ?w1 (Removing [] [i]), k) (?s ?w1 (Leaving [i]), k)"
    by (intro main ticked) simp
  have 3: "turn cmd stof (Main (Announced i)) (?s ?w1 (Leaving [i]), k) (?s w2 (Leaving []), k)"
    by (intro main leave [OF assms(1)]) simp
  have 4: "turn cmd stof (Works now) (?s w2 (Leaving []), k) (?s w3 (Leaving []), k')"
    using work [OF assms(2), of cmd stof now "?s w2 (Leaving [])"] assms(3) by simp
  from run_of_Cons [of "turn cmd stof", OF 1 run_of_Cons [of "turn cmd stof", OF 2 run_of_Cons [of "turn cmd stof", OF 3
        run_of_Cons [of "turn cmd stof", OF 4 run_refl]]]]
  show ?thesis .
qed

lemma work_handle_move:
  "load_header buf = Inr h \<Longrightarrow> ph_id h = packet_id C_LOBBY_MOVE \<Longrightarrow>
     work_handle cmd stof now r buf n w = finish (Handle_C_LOBBY_MOVE r (drop 14 buf) (n - 14) w)"
  by (simp add: work_handle_def UDP_HEADER_SIZE_def Let_def)

lemma relay_move_eq:
  assumes "length (ctx_userId (ctx_of r w)) \<le> 1173" and "ctx_sessionId (ctx_of r w) = i"
  shows "relay_move r x y z rot anim w = Inr (map_svc (us_sent_update (\<lambda>ds. ds @
    map (\<lambda>(j, s). (ctx_addr (us_ctxs (w_svc w) s), wire (PlayerMove i (ctx_userId (ctx_of r w)) x y z rot anim)))
      (filter (\<lambda>(j, r). j \<noteq> i) (us_idMap (w_svc w))))) w)"
proof -
  have "length (ctx_userId (ctx_of r w)) mod 2 ^ 16 \<le> 1173"
    using assms(1) by (simp add: order.trans [OF mod_less_eq_dividend])
  then show ?thesis
    by (simp add: relay_move_def assms(2) Make_move_eq BroadcastExcept_def BroadcastExcept_loop_eq Broadcast_loop_eq Let_def
        length_move_bytes map_svc_def)
qed

text \<open>The clients other than \<open>i\<close>, and one packet sent to each of them.\<close>

definition others :: "u64 \<Rightarrow> 's world \<Rightarrow> u64 list" where
  "others i w = map fst (filter (\<lambda>(j, r). j \<noteq> i) (us_idMap (w_svc w)))"

abbreviation sent_others :: "u64 \<Rightarrow> 's world \<Rightarrow> byte list \<Rightarrow> 's world \<Rightarrow> 's world" where
  "sent_others i w bs v \<equiv> map_svc (us_sent_update (\<lambda>ds. ds @ map (\<lambda>j. (the (client_addr (w_svc w) j), bs)) (others i w))) v"

lemma others_set:
  assumes "registry_ok (w_svc w)"
  shows "distinct (others i w)" and "set (others i w) = dom (client_addr (w_svc w)) - {i}"
proof -
  show "distinct (others i w)" using assms by (auto simp: others_def registry_ok_def distinct_map_filter)
  have "set (map fst (us_idMap (w_svc w))) = dom (client_addr (w_svc w))"
    by (simp add: client_addr_def FindById_def dom_def flip: dom_map_of_conv_image_fst)
  moreover have "set (others i w) = set (map fst (us_idMap (w_svc w))) - {i}" by (force simp: others_def)
  ultimately show "set (others i w) = dom (client_addr (w_svc w)) - {i}" by simp
qed

lemma leave_others:
  assumes "registry_ok (w_svc w)"
  shows "OnClientLeave i (map_svc (RemoveClient i) w) = Inr (sent_others i w (wire (PlayerLeave i)) (map_svc (RemoveClient i) w))"
proof -
  let ?w1 = "map_svc (RemoveClient i) w"
  have ok1: "registry_ok (w_svc ?w1)" using registry_ok_RemoveClient [OF assms] by (simp add: map_svc_def)
  have ids1: "map fst (us_idMap (w_svc ?w1)) = others i w" by (simp add: map_svc_def RemoveClient_idMap others_def)
  have to: "map (\<lambda>j. (the (client_addr (w_svc ?w1) j), bs)) (others i w) = map (\<lambda>j. (the (client_addr (w_svc w) j), bs)) (others i w)" for bs
    using others_set(2) [OF assms, of i] by (auto simp: map_svc_def client_addr_RemoveClient)
  show ?thesis using OnClientLeave_eq [OF ok1, of i] unfolding ids1 to by simp
qed

text \<open>A move handled when its sender is no longer in the table.\<close>

lemma move_others:
  assumes "registry_ok (w_svc w)" and "ctx_sessionId (ctx_of r w) = i" and "length (ctx_userId (ctx_of r w)) \<le> 1173"
    and "us_ctxs (w_svc v) = us_ctxs (w_svc w)" and "us_idMap (w_svc v) = filter (\<lambda>(j, r). j \<noteq> i) (us_idMap (w_svc w))"
  shows "relay_move r x y z rot anim v = Inr (sent_others i w (wire (PlayerMove i (ctx_userId (ctx_of r w)) x y z rot anim)) v)"
proof -
  let ?kvs = "filter (\<lambda>(j, r). j \<noteq> i) (us_idMap (w_svc w))"
  have v: "length (ctx_userId (ctx_of r v)) \<le> 1173" "ctx_sessionId (ctx_of r v) = i"
    unfolding assms(4) by (rule assms(3), rule assms(2))
  have kvs: "filter (\<lambda>(j, r). j \<noteq> i) ?kvs = ?kvs" by simp
  have "map (\<lambda>(j, s). (ctx_addr (us_ctxs (w_svc w) s), bs)) ?kvs = map (\<lambda>j. (the (client_addr (w_svc w) j), bs)) (others i w)" for bs
    unfolding others_def by (rule sent_to [OF assms(1)]) auto
  note to = this
  show ?thesis unfolding relay_move_eq [OF v] assms(4,5) kvs to ..
qed

section \<open>Properties\<close>

text \<open>
  C1: In every interleaving of the phases of datagrams with the main thread, of fewer than \<open>2 ^ 64 - 1\<close>
  steps, the client table stays consistent: the two maps agree, ids and address keys are unique,
  and the counter is above every id handed out.
\<close>

theorem interleaved_table:
  assumes "run_of (turn cmd stof) es (server_start outcome redis, Idle) p" and "length es < 2 ^ 64 - 1"
  shows "registry_ok (sv_svc (fst p))"
  using turns.run_ok [OF assms(1)] assms(2) start_ok [of outcome redis] by simp

theorem interleaved_table_witness: "registry_ok (sv_svc demo_server)"
proof -
  obtain es where "length es \<le> 5" "run_of (turn small_cmd (\<lambda>_. Inr 0)) es (server_start ConnectNull [], Idle) (demo_server, Idle)"
    using server_path_turns [OF demo_run] by auto
  then show ?thesis using interleaved_table by fastforce
qed

text \<open>
  C4: Nor does an interleaving make a session id that has been handed out mean another client: for the
  rest of the run it belongs to the same address or to nobody.
\<close>

theorem interleaved_ids:
  assumes "run_of (turn cmd stof) es (server_start outcome redis, Idle) p" and "run_of (turn cmd stof) fs p q"
    and "length es + length fs < 2 ^ 64 - 1" and "i < us_sCounter (sv_svc (fst p))"
  shows "client_addr (sv_svc (fst q)) i = client_addr (sv_svc (fst p)) i \<or> client_addr (sv_svc (fst q)) i = None"
proof -
  have "registry_ok (sv_svc (fst p)) \<and> unat (us_sCounter (sv_svc (fst p))) \<le> 1 + length es"
    using turns.run_ok [OF assms(1)] assms(3) start_ok [of outcome redis] by simp
  then show ?thesis using turns.run_clients [OF assms(2) _ _ assms(4)] assms(3) by simp
qed

theorem interleaved_ids_witness:
  "\<exists>t :: small_redis server. sv_main t = Removing [] [] \<and>
     (client_addr (sv_svc t) 1 = client_addr (sv_svc demo_server) 1 \<or> client_addr (sv_svc t) 1 = None)"
proof -
  obtain es where es: "length es \<le> 5" "run_of (turn small_cmd (\<lambda>_. Inr 0)) es (server_start ConnectNull [], Idle) (demo_server, Idle)"
    using server_path_turns [OF demo_run] by auto
  let ?t = "\<lparr>sv_world = sv_world demo_server, sv_main = Removing [] []\<rparr>"
  have "Tick_collect 5 (sv_svc demo_server) = []"
    by (simp add: Tick_collect_def demo_server_def SESSION_TIMEOUT_MS_def word_sless_alt)
  moreover have "demo_server = \<lparr>sv_world = sv_world demo_server, sv_main = Sleeping\<rparr>" by (simp add: demo_server_def)
  ultimately have "server_step small_cmd (\<lambda>_. Inr 0) (Collected 5) demo_server ?t"
    using collect [of "[]" 5 "sv_world demo_server" small_cmd "\<lambda>_. Inr 0"] by metis
  then have "run_of (turn small_cmd (\<lambda>_. Inr 0)) [Main (Collected 5)] (demo_server, Idle) (?t, Idle)"
    by (intro run_of_Cons [OF _ run_refl] main) simp_all
  note later = this
  have "client_addr (sv_svc ?t) 1 = client_addr (sv_svc demo_server) 1 \<or> client_addr (sv_svc ?t) 1 = None"
    using interleaved_ids [OF es(2) later, of 1] es(1) by (simp add: demo_server_def)
  then show ?thesis by (intro exI [of _ ?t]) simp
qed

text \<open>
  C3: In every interleaving of fewer than \<open>2 ^ 64 - 1\<close> steps every datagram sent is one of the five packets
  of the protocol, at most \<^verbatim>\<open>UDP_MAX_PACKET\<close> bytes long, addressed to an address that has registered
  as a client, and about a session that has been handed out; so no memory beyond a packet, no
  half-written buffer and no number of an unknown session ever reaches the network.
\<close>

theorem server_sends_typed:
  assumes "run_of (turn cmd stof) es (server_start outcome redis, Idle) p" and "length es < 2 ^ 64 - 1"
    and "(a, bs) \<in> set (us_sent (sv_svc (fst p)))"
  shows "\<exists>pkt. bs = wire pkt \<and> length bs \<le> unat UDP_MAX_PACKET \<and>
     0 < session_of pkt \<and> session_of pkt < us_sCounter (sv_svc (fst p)) \<and>
     (\<exists>r < us_nextRef (sv_svc (fst p)). ctx_addr (us_ctxs (sv_svc (fst p)) r) = a)"
  using turns_typed [OF assms(1,2)] assms(3)
  by (fastforce simp: sent_typed_def typed_iff fits_def handed_out_def known_addrs_def)

theorem server_sends_typed_witness:
  "\<exists>pkt. header_bytes 1 0 350 @ enc_u64 1 = wire pkt \<and> 0 < session_of pkt \<and> session_of pkt < us_sCounter (sv_svc demo_server)"
proof -
  obtain es where es: "length es \<le> 5" "run_of (turn small_cmd (\<lambda>_. Inr 0)) es (server_start ConnectNull [], Idle) (demo_server, Idle)"
    using server_path_turns [OF demo_run] by auto
  from server_sends_typed [OF es(2), of "demo_addr 8" "header_bytes 1 0 350 @ enc_u64 1"] es(1) show ?thesis
    by (auto simp: demo_server_def)
qed

text \<open>
  When the main thread removes and announces a client between the lookup and the handling of a move
  of that client, every other client is told that the player has left and after that where the
  player has moved: the handler does not look the client up again.
\<close>

theorem move_after_leave:
  assumes "registry_ok (w_svc w)" and "i = ctx_sessionId (ctx_of r w)" and "length (ctx_userId (ctx_of r w)) \<le> 1173"
    and "load_header buf = Inr h" and "ph_id h = packet_id C_LOBBY_MOVE" and "31 \<le> n" and "n \<le> length buf"
  shows "\<exists>t js x y z rot anim. distinct js \<and> set js = dom (client_addr (w_svc w)) - {i} \<and>
     run_of (turn cmd stof) [Main (Removed i), Main Ticked, Main (Announced i), Works now]
       (\<lparr>sv_world = w, sv_main = Removing [i] [i]\<rparr>, Handling r buf (int n)) (t, Idle) \<and>
     us_sent (sv_svc t) = us_sent (w_svc w) @ map (\<lambda>j. (the (client_addr (w_svc w) j), wire (PlayerLeave i))) js @
       map (\<lambda>j. (the (client_addr (w_svc w) j), wire (PlayerMove i (ctx_userId (ctx_of r w)) x y z rot anim))) js"
proof -
  let ?p = "drop 14 buf" and ?u = "ctx_userId (ctx_of r w)" and ?w1 = "map_svc (RemoveClient i) w"
  let ?m = "wire (PlayerMove i ?u (dec_u32 (take 4 ?p)) (dec_u32 (take 4 (drop 4 ?p))) (dec_u32 (take 4 (drop 8 ?p)))
     (dec_u32 (take 4 (drop 12 ?p))) (dec_u8 (take 1 (drop 16 ?p))))"
  let ?w2 = "sent_others i w (wire (PlayerLeave i)) ?w1"
  let ?w3 = "sent_others i w ?m ?w2"
  have w2: "us_ctxs (w_svc ?w2) = us_ctxs (w_svc w)" "us_idMap (w_svc ?w2) = filter (\<lambda>(j, r). j \<noteq> i) (us_idMap (w_svc w))"
    by (simp_all add: map_svc_def RemoveClient_idMap)
  have n: "\<not> n - 14 < 17" and len: "int n - 14 = int (n - 14)" using assms(6) by simp_all
  have "Handle_C_LOBBY_MOVE r ?p (int (n - 14)) ?w2 = relay_move r (dec_u32 (take 4 ?p)) (dec_u32 (take 4 (drop 4 ?p)))
     (dec_u32 (take 4 (drop 8 ?p))) (dec_u32 (take 4 (drop 12 ?p))) (dec_u8 (take 1 (drop 16 ?p))) ?w2"
    by (subst move_eq) (use assms(6,7) in simp, simp only: n if_False)
  also have "\<dots> = Inr ?w3" by (rule move_others [OF assms(1) assms(2) [symmetric] assms(3) w2])
  finally have handle: "work_handle cmd stof now r buf (int n) ?w2 = Inr (Idle, ?w3)"
    unfolding work_handle_move [OF assms(4,5)] len finish_Inr_iff by blast
  have "run_of (turn cmd stof) [Main (Removed i), Main Ticked, Main (Announced i), Works now]
     (\<lparr>sv_world = w, sv_main = Removing [i] [i]\<rparr>, Handling r buf (int n)) (\<lparr>sv_world = ?w3, sv_main = Leaving []\<rparr>, Idle)"
    by (rule leave_then_work [OF leave_others [OF assms(1)]])
       (simp_all only: work_step.simps handle work.distinct not_False_eq_True)
  moreover have "us_sent (sv_svc \<lparr>sv_world = ?w3, sv_main = Leaving []\<rparr>) = us_sent (w_svc w) @
       map (\<lambda>j. (the (client_addr (w_svc w) j), wire (PlayerLeave i))) (others i w) @
       map (\<lambda>j. (the (client_addr (w_svc w) j), ?m)) (others i w)"
    by (simp add: map_svc_def del: wire.simps)
  ultimately show ?thesis using others_set [OF assms(1), of i] by blast
qed

theorem move_after_leave_witness:
  "\<exists>t js x y z rot anim. distinct js \<and> set js = {2} \<and>
     run_of (turn small_cmd (\<lambda>_. Inr 0)) [Main (Removed 1), Main Ticked, Main (Announced 1), Works 7]
       (\<lparr>sv_world = demo_world, sv_main = Removing [1] [1]\<rparr>, Handling 0 (header_bytes 1 4 301 @ replicate 17 0) (int 31)) (t, Idle) \<and>
     us_sent (sv_svc t) = us_sent (w_svc demo_world) @ map (\<lambda>j. (the (client_addr (w_svc demo_world) j), wire (PlayerLeave 1))) js @
       map (\<lambda>j. (the (client_addr (w_svc demo_world) j), wire (PlayerMove 1 (ctx_userId (ctx_of 0 demo_world)) x y z rot anim))) js"
proof -
  have svc: "w_svc demo_world = demo_svc" by (simp add: demo_world_def)
  have "dom (client_addr (w_svc demo_world)) - {1} = {2}" unfolding svc demo_clients by auto
  moreover have "ctx_sessionId (ctx_of 0 demo_world) = 1" "length (ctx_userId (ctx_of 0 demo_world)) \<le> 1173"
    unfolding svc by (simp_all add: demo_svc_eq fresh_context_def)
  moreover have "registry_ok (w_svc demo_world)" unfolding svc by (rule demo_svc_ok)
  moreover have "31 \<le> length (header_bytes 1 4 301 @ replicate 17 0)" by (simp add: header_bytes_def)
  ultimately show ?thesis
    using move_after_leave [of demo_world 1 0 "header_bytes 1 4 301 @ replicate 17 0" _ 31 small_cmd "\<lambda>_. Inr 0" 7,
      OF _ _ _ load_header_bytes] by simp
qed

end
