(* ===== verification/ServerProgress.thy ===== *)
theory ServerProgress
  imports ServerTurns
begin

text \<open>
  The server with Redis connected: the handlers keep the stored players presentable, and then no datagram of
  a length a well-behaved client sends makes the process fail.
\<close>

section \<open>Handlers\<close>

definition redis_fine :: "('s \<Rightarrow> string \<Rightarrow> string \<Rightarrow> string option) \<Rightarrow> (string \<Rightarrow> f32 result) \<Rightarrow> 's redis_client \<Rightarrow> bool" where
  "redis_fine hash stof c \<longleftrightarrow> (rc_ctx c \<longrightarrow> (\<forall>k. presentable stof (rhash hash c k)))"

text \<open>What the handlers rely on and keep.\<close>

definition fine :: "('s \<Rightarrow> string \<Rightarrow> string \<Rightarrow> string option) \<Rightarrow> (string \<Rightarrow> f32 result) \<Rightarrow> 's world \<Rightarrow> bool" where
  "fine hash stof w \<longleftrightarrow> redis_fine hash stof (w_redis w) \<and> short_ids (w_svc w)"

lemma short_ids_simps [simp]:
  "short_ids (reply_to sid bs s) = short_ids s"
  "short_ids (s\<lparr>us_sent := ds\<rparr>) = short_ids s"
  "short_ids (RemoveClient i s) = short_ids s"
  by (simp_all add: short_ids_def)

lemma short_ids_upd:
  "short_ids s \<Longrightarrow> (\<And>c. length (ctx_userId c) \<le> 1173 \<Longrightarrow> length (ctx_userId (f c)) \<le> 1173) \<Longrightarrow> short_ids (upd_ctx r f s)"
  by (simp add: short_ids_def)

lemma short_ids_RegisterClient: "short_ids s \<Longrightarrow> short_ids (snd (RegisterClient now a s))"
  by (auto simp: RegisterClient_def GenerateSessionId_def Let_def fresh_context_def short_ids_def split: option.split)

lemma send_player_info_fine:
  assumes law: "redis_hashes cmd hash" and "fine hash stof w"
  shows "\<exists>w'. send_player_info cmd stof ctx u w = Inr w' \<and> fine hash stof w'"
proof (cases "rc_ctx (w_redis w)")
  case True
  then have "presentable stof (rhash hash (w_redis w) (c_str (user_key u)))"
    using assms(2) by (simp add: fine_def redis_fine_def)
  from send_player_info_keeps [OF law True this] show ?thesis
    by (rule exE) (use assms(2) True in \<open>auto simp: fine_def redis_fine_def\<close>)
qed (use assms(2) in \<open>simp add: offline_info\<close>)

lemma hello_ack_fine:
  assumes "fine hash stof w" and "length u \<le> 1173"
  shows "\<exists>w'. hello_ack ctx u w = Inr (Informing ctx u, w') \<and> fine hash stof w'"
  using assms by (auto simp: hello_ack_def Make_ack_eq w_send_packet Let_def fine_def intro!: short_ids_upd)

lemma buy_pay_fine:
  assumes law: "redis_hashes cmd hash" and fine: "fine hash stof w"
  shows "\<exists>w'. (buy_pay cmd ctx u t w = Inr (Idle, w') \<or> buy_pay cmd ctx u t w = Inr (Informing ctx u, w')) \<and> fine hash stof w'"
proof (cases "rc_ctx (w_redis w)")
  case True
  let ?k = "c_str (user_key u)"
  have p: "presentable stof (rhash hash (w_redis w) k)" for k
    using fine True by (simp add: fine_def redis_fine_def)
  obtain rc where rc: "rhash hash rc = rhash hash (w_redis w)" "rc_ctx rc"
    "GetBalance cmd u 0 (w_redis w) = (case rhash hash (w_redis w) ?k ''balance'' of
        None \<Rightarrow> Inr (False, 0, rc) | Some v \<Rightarrow> bindr (stoll (c_str v)) (\<lambda>b. Inr (True, b, rc)))"
    by (rule GetBalance_reads [OF law True, of u 0])
  have stoll: "\<exists>b. stoll (c_str v) = Inr b" if "rhash hash (w_redis w) ?k ''balance'' = Some v" for v
    using p [of ?k] that by (fastforce simp: presentable_def readable_def assign_field_def bindr_Inr_iff)
  obtain ok b where bal: "GetBalance cmd u 0 (w_redis w) = Inr (ok, b, rc)"
    using rc(3) stoll by (cases "rhash hash (w_redis w) ?k ''balance''") auto
  have stores: "\<exists>rc'. PurchaseWeapon cmd u nb t ma 0 rc = (True, rc') \<and> redis_fine hash stof rc'" for nb ma
  proof -
    obtain rc' where rc': "PurchaseWeapon cmd u nb t ma 0 rc = (True, rc')"
      "rhash hash rc' = (rhash hash rc)(?k := (rhash hash rc ?k)
        (''balance'' \<mapsto> to_string (sint nb), ''weapon'' \<mapsto> to_string (sint t),
         ''ammo_type'' \<mapsto> to_string (sint (0 :: i32)), ''ammo'' \<mapsto> to_string (sint ma)))"
      using PurchaseWeapon_stores [OF law rc(2)] by blast
    have "presentable stof ((rhash hash rc ?k)
        (''balance'' \<mapsto> to_string (sint nb), ''weapon'' \<mapsto> to_string (sint t),
         ''ammo_type'' \<mapsto> to_string (sint (0 :: i32)), ''ammo'' \<mapsto> to_string (sint ma)))"
      unfolding rc(1) by (intro presentable_numbers p)
    then have "presentable stof (rhash hash rc' k)" for k
      using p [of k] by (simp add: rc'(2) rc(1))
    with rc'(1) show ?thesis by (simp add: redis_fine_def)
  qed
  have rcf: "redis_fine hash stof rc" using p rc(1) by (simp add: redis_fine_def)
  have ids: "short_ids (w_svc w)" using fine by (simp add: fine_def)
  show ?thesis
  proof (cases "FindWeapon t")
    case None
    with fine show ?thesis by (simp add: buy_pay_def buy_result_eq fine_def)
  next
    case (Some weapon)
    show ?thesis
    proof (cases "\<not> ok \<or> b <s wi_price weapon")
      case True
      with Some bal rcf ids show ?thesis by (cases ok) (simp_all add: buy_pay_def buy_result_eq fine_def Let_def)
    next
      case False
      obtain rc' where rc': "PurchaseWeapon cmd u (b - wi_price weapon) t (wi_magazineSize weapon * 5) 0 rc = (True, rc')"
        "redis_fine hash stof rc'" using stores by blast
      let ?sid = "ctx_sessionId (ctx_of ctx w)"
      let ?w = "w\<lparr>w_redis := rc', w_svc := reply_to ?sid (buy_packet ?sid True t (b - wi_price weapon)) (w_svc w)\<rparr>"
      have "fine hash stof ?w" using rc'(2) ids by (simp add: fine_def)
      then show ?thesis
        using False Some bal rc'(1) by (auto simp: buy_pay_def buy_result_eq Let_def)
    qed
  qed
qed (use fine in \<open>auto simp: buy_pay_def GetBalance_def buy_result_eq fine_def split: option.split\<close>)

lemma gun_shot_fine:
  assumes law: "redis_hashes cmd hash" and fine: "fine hash stof w"
  shows "\<exists>w'. Handle_C_GUN_SHOT_LOBBY cmd stof ctx w = Inr w' \<and> fine hash stof w'"
proof (cases "rc_ctx (w_redis w)")
  case True
  let ?u = "ctx_userId (ctx_of ctx w)" and ?k = "c_str (user_key (ctx_userId (ctx_of ctx w)))"
  have p: "presentable stof (rhash hash (w_redis w) k)" for k
    using fine True by (simp add: fine_def redis_fine_def)
  then have r: "readable stof (rhash hash (w_redis w) ?k)" by (simp add: presentable_def)
  have "\<exists>c' ok n. ConsumeLobbyAmmo cmd stof ?u 0 (w_redis w) = Inr (ok, n, c') \<and> rc_ctx c' \<and>
      (rhash hash c' = rhash hash (w_redis w) \<or>
       (\<exists>v. rhash hash c' = set_field ?k ''ammo'' (to_string (sint (v :: i32))) (rhash hash (w_redis w))))"
    using ConsumeLobbyAmmo_eq [OF law True refl r, of 0] by (auto split: if_splits)
  then obtain c' ok n where
    c: "ConsumeLobbyAmmo cmd stof ?u 0 (w_redis w) = Inr (ok, n, c')" "rc_ctx c'" and
    h: "rhash hash c' = rhash hash (w_redis w) \<or>
      (\<exists>v. rhash hash c' = set_field ?k ''ammo'' (to_string (sint (v :: i32))) (rhash hash (w_redis w)))"
    by blast
  have "presentable stof (rhash hash c' k)" for k
    using h p [of k] presentable_numbers(3) [OF p [of ?k]] by (auto simp: set_field_def)
  then have "redis_fine hash stof c'" by (simp add: redis_fine_def)
  then show ?thesis using c fine by (simp add: Handle_C_GUN_SHOT_LOBBY_def fine_def)
qed (use fine in \<open>simp add: Handle_C_GUN_SHOT_LOBBY_def ConsumeLobbyAmmo_def GetPlayerInfo_def\<close>)

lemma relay_move_fine:
  assumes "fine hash stof w"
  shows "\<exists>w'. relay_move ctx x y z r a w = Inr w' \<and> fine hash stof w'"
proof -
  obtain w' where w': "relay_move ctx x y z r a w = Inr w'" using relay_move_ok [of w ctx x y z r a] assms by (fastforce simp: fine_def)
  then obtain ds where "w' = w\<lparr>w_svc := (w_svc w)\<lparr>us_sent := us_sent (w_svc w) @ ds\<rparr>\<rparr>"
    by (auto simp: relay_move_def bindr_Inr_iff Let_def BroadcastExcept_def BroadcastExcept_loop_eq dest!: Broadcast_loop_frame)
  with w' assms show ?thesis by (simp add: fine_def)
qed

text \<open>1189 bytes are the header, the length and the longest user id a move packet has room for.\<close>

fun small_work :: "work \<Rightarrow> bool" where
  "small_work (Looking a buf n) \<longleftrightarrow> n \<le> int (length buf) \<and> n \<le> 1189"
| "small_work (Found ctx buf n) \<longleftrightarrow> 14 \<le> n \<and> n \<le> int (length buf) \<and> n \<le> 1189"
| "small_work (Handling ctx buf n) \<longleftrightarrow> 14 \<le> n \<and> n \<le> int (length buf) \<and> n \<le> 1189"
| "small_work k \<longleftrightarrow> True"

lemma hello_user_small:
  assumes "n \<le> length p" and "n \<le> 1175"
  shows "hello_user p (int n) = Inr None \<or> (\<exists>u. hello_user p (int n) = Inr (Some u) \<and> length u \<le> 1173)"
proof (cases "n < 2")
  case False
  have "unat (ucast (dec_u16 (take 2 p)) :: u32) = user_id_len p"
    by (simp add: user_id_len_def unat_ucast_u16)
  with False assms FreeSize_after [of 2 n p] show ?thesis
    by (auto simp: hello_user_def first_u16 word_less_nat_alt load_at_def user_id_len_def)
qed (simp add: hello_user_def)

lemma buy_order_returns:
  assumes "n \<le> length p" and "n < 2 ^ 31"
  shows "\<exists>q. buy_order p (int n) = Inr q"
proof (cases "n < 6")
  case False
  have "unat (ucast (dec_u16 (take 2 p)) + 4 :: u32) = user_id_len p + 4"
    using unsigned_less [of "dec_u16 (take 2 p)", where ?'a = nat]
    by (simp add: user_id_len_def unat_ucast_u16 unat_word_ariths(1))
  with False assms FreeSize_after [of 2 n p] show ?thesis
    by (auto simp: buy_order_def first_u16 word_less_nat_alt load_at_def user_id_len_def)
qed (simp add: buy_order_def)

lemma work_handle_fine:
  assumes law: "redis_hashes cmd hash" and fine: "fine hash stof w"
    and "14 \<le> n" and "n \<le> length buf" and "n \<le> 1189"
  shows "\<exists>k w'. work_handle cmd stof now ctx buf (int n) w = Inr (k, w') \<and> fine hash stof w' \<and> small_work k"
proof -
  have i: "int n - 14 = int (n - 14)" using assms(3) by simp
  have p: "n - 14 \<le> length (drop 14 buf)" "n - 14 \<le> 1175" "n - 14 < 2 ^ 31" using assms(3-5) by simp_all
  obtain h where h: "load_header buf = Inr h" using load_header_ok [of buf] assms(3,4) by auto
  note [simp] = work_handle_def UDP_HEADER_SIZE_def Let_def i h
  consider (hello) "ph_id h = packet_id C_UDP_HELLO" | (move) "ph_id h = packet_id C_LOBBY_MOVE"
    | (beat) "ph_id h = packet_id C_LOBBY_HEARTBEAT" | (buy) "ph_id h = packet_id C_PURCHASE_WEAPON"
    | (shot) "ph_id h = packet_id C_GUN_SHOT_LOBBY"
    | (other) "ph_id h \<notin> packet_id ` {C_UDP_HELLO, C_LOBBY_MOVE, C_LOBBY_HEARTBEAT, C_PURCHASE_WEAPON, C_GUN_SHOT_LOBBY}"
    by blast
  then show ?thesis
  proof cases
    case hello
    with hello_user_small [OF p(1,2)] hello_ack_fine [OF fine, of _ ctx] fine show ?thesis by fastforce
  next
    case move
    have "\<exists>w'. Handle_C_LOBBY_MOVE ctx (drop 14 buf) (int (n - 14)) w = Inr w' \<and> fine hash stof w'"
      unfolding move_eq [OF p(1)] using fine relay_move_fine [OF fine] by simp
    with move show ?thesis by fastforce
  next
    case beat
    have "fine hash stof (Handle_C_LOBBY_HEARTBEAT now ctx w)"
      using fine by (simp add: Handle_C_LOBBY_HEARTBEAT_def fine_def short_ids_upd)
    with beat show ?thesis by simp
  next
    case buy
    obtain q where q: "buy_order (drop 14 buf) (int (n - 14)) = Inr q" using buy_order_returns [OF p(1,3)] by blast
    show ?thesis
    proof (cases q)
      case (Some ut)
      obtain u t where "ut = (u, t)" by fastforce
      with Some q buy buy_pay_fine [OF law fine, of ctx u t] show ?thesis by fastforce
    qed (use q buy fine in simp)
  next
    case shot
    with gun_shot_fine [OF law fine, of ctx] show ?thesis by fastforce
  qed (use fine in simp)
qed

lemma work_step_fine:
  assumes law: "redis_hashes cmd hash" and fine: "fine hash stof w" and small: "small_work k"
  shows "\<exists>k' w'. work_step cmd stof now k w = Inr (k', w') \<and> fine hash stof w' \<and> small_work k'"
proof (cases k)
  case (Looking a buf n)
  show ?thesis
  proof (cases "n < 14")
    case False
    then obtain h where h: "load_header buf = Inr h" using load_header_ok [of buf] small Looking by fastforce
    have "fine hash stof (w\<lparr>w_svc := snd (RegisterClient now a (w_svc w))\<rparr>)"
      using fine by (simp add: fine_def short_ids_RegisterClient)
    then show ?thesis
      using False small h fine by (simp add: Looking work_lookup_def UDP_HEADER_SIZE_def split_beta split: option.split)
  qed (use fine in \<open>simp add: Looking work_lookup_def UDP_HEADER_SIZE_def\<close>)
next
  case (Found ctx buf n)
  then obtain h where h: "load_header buf = Inr h" using load_header_ok [of buf] small by fastforce
  have "fine hash stof (w\<lparr>w_svc := upd_ctx ctx (\<lambda>c. c\<lparr>ctx_lastSeq := ph_sequence h, ctx_lastAliveMs := now\<rparr>) (w_svc w)\<rparr>)"
    using fine by (simp add: fine_def short_ids_upd)
  then show ?thesis using small fine by (simp add: Found work_stamp_def h)
next
  case (Handling ctx buf n)
  then have "nat n \<le> length buf" "14 \<le> nat n" "nat n \<le> 1189" "int (nat n) = n" using small by (auto simp: nat_le_iff le_nat_iff)
  with work_handle_fine [OF law fine, of "nat n" buf now ctx] show ?thesis by (simp add: Handling)
next
  case (Informing ctx u)
  from send_player_info_fine [OF law fine, of ctx u] show ?thesis by (auto simp: Informing)
qed (use fine in simp)

section \<open>Runs\<close>

text \<open>Datagrams of at most 1189 bytes.\<close>

fun small_event :: "turn_event \<Rightarrow> bool" where
  "small_event (Arrives a buf n) \<longleftrightarrow> n \<le> int (length buf) \<and> n \<le> 1189"
| "small_event e \<longleftrightarrow> True"

lemma OnClientLeave_fine:
  assumes "fine hash stof w" and "registry_ok (w_svc w)"
  shows "\<exists>w'. OnClientLeave i w = Inr w' \<and> fine hash stof w'"
  using assms(1) by (simp add: OnClientLeave_eq [OF assms(2)] fine_def map_svc_def short_ids_def)

lemma main_fine:
  assumes "server_step cmd stof e s t" and "main_event e" and "fine hash stof (sv_world s)" and "registry_ok (sv_svc s)"
  shows "fine hash stof (sv_world t)"
  using assms(1)
proof cases
  case (leave i w w' ids)
  with OnClientLeave_fine [OF assms(3,4), of i] show ?thesis by simp
qed (use assms(2,3) in \<open>simp_all add: fine_def map_svc_def\<close>)

lemma turn_fine:
  assumes "turn cmd stof e p q" and law: "redis_hashes cmd hash" and "registry_ok (sv_svc (fst p))" and "small_event e"
    and "fine hash stof (sv_world (fst p)) \<and> small_work (snd p)"
  shows "fine hash stof (sv_world (fst q)) \<and> small_work (snd q)"
  using assms(1)
proof cases
  case (work k now s k' w')
  with work_step_fine [OF law, of stof "sv_world s" k now] assms(5) show ?thesis by simp
next
  case (main e s t k)
  with main_fine [OF main(4,5)] assms(3,5) show ?thesis by simp
qed (use assms(4,5) in simp)

lemma turns_fine:
  assumes "redis_hashes cmd hash" and "\<And>k. presentable stof (hash redis k)"
    and "run_of (turn cmd stof) es (server_start outcome redis, Idle) p"
    and "list_all small_event es" and "length es < 2 ^ 64 - 1"
  shows "fine hash stof (sv_world (fst p)) \<and> small_work (snd p)"
proof -
  have "fine hash stof (sv_world (server_start outcome redis))"
    using assms(2) by (auto simp: server_start_def fine_def redis_fine_def udp_service_init_def short_ids_def
        fresh_context_def Connect_def Disconnect_def Let_def split: connect_outcome.splits)
  note start = this
  show ?thesis
    by (rule turns.run_invariant [OF assms(3), where ok = small_event])
       (use assms(4,5) start start_ok [of outcome redis] turn_fine [OF _ assms(1)] in \<open>simp_all, blast?\<close>)
qed

lemma main_moves:
  assumes "fine hash stof (sv_world s)" and "registry_ok (sv_svc s)"
  shows "\<exists>e t. main_event e \<and> server_step cmd stof e s t"
proof -
  obtain w pc where s: "s = \<lparr>sv_world = w, sv_main = pc\<rparr>" by (cases s)
  show ?thesis
  proof (cases pc)
    case Sleeping
    with collect [OF refl] main_event.simps(2) show ?thesis unfolding s by blast
  next
    case (Removing todo ids)
    with remove ticked main_event.simps(3,4) show ?thesis unfolding s by (cases todo) blast+
  next
    case (Leaving ids)
    show ?thesis
    proof (cases ids)
      case Nil
      with sleep main_event.simps(6) show ?thesis unfolding s Leaving by blast
    next
      case (Cons i todo)
      obtain w' where "OnClientLeave i w = Inr w'" using OnClientLeave_fine assms by (fastforce simp: s)
      with leave main_event.simps(5) show ?thesis unfolding s Leaving Cons by blast
    qed
  qed
qed

section \<open>Properties\<close>

text \<open>
  C2: The server keeps running: with or without Redis, if the stored players are presentable when it
  starts and no datagram is longer than 1189 bytes, then at every point of every interleaving a
  worker with a datagram can take its next phase, whatever the bytes, with no access outside a
  buffer, no packet that does not fit and no uncaught exception; a worker without one can take
  the next; and the main thread can take its next step.
\<close>

theorem server_never_faults:
  assumes "redis_hashes cmd hash" and "\<And>k. presentable stof (hash redis k)"
    and "run_of (turn cmd stof) es (server_start outcome redis, Idle) (s, k)"
    and "list_all small_event es" and "length es < 2 ^ 64 - 1"
  shows "(if k = Idle then \<forall>a buf n. turn cmd stof (Arrives a buf n) (s, k) (s, Looking a buf n)
      else \<forall>now. \<exists>q. turn cmd stof (Works now) (s, k) q) \<and>
    (\<exists>e q. turn cmd stof (Main e) (s, k) q)"
proof -
  have ok: "registry_ok (sv_svc s)" using turns.run_ok [OF assms(3)] assms(5) start_ok [of outcome redis] by simp
  from turns_fine [OF assms] have f: "fine hash stof (sv_world s)" "small_work k" by simp_all
  have "\<exists>q. turn cmd stof (Works now) (s, k) q" if "k \<noteq> Idle" for now
    using work_step_fine [OF assms(1) f] work [OF that] by blast
  moreover have "turn cmd stof (Arrives a buf n) (s, Idle) (s, Looking a buf n)" for a buf n by (rule arrive)
  moreover have "\<exists>e q. turn cmd stof (Main e) (s, k) q" using main_moves [OF f(1) ok] main by blast
  ultimately show ?thesis by simp
qed

theorem server_never_faults_witness:
  "\<forall>now. \<exists>q. turn small_cmd (\<lambda>_. Inr 0) (Works now) (server_start ConnectNull [], Looking (demo_addr 9) (replicate 40 0) 40) q"
proof -
  have "presentable (\<lambda>_. Inr 0) (small_hash [] k)" for k
    by (simp add: presentable_def readable_def small_hash_def text_len_def)
  moreover have "run_of (turn small_cmd (\<lambda>_. Inr 0)) [Arrives (demo_addr 9) (replicate 40 0) 40]
      (server_start ConnectNull [], Idle) (server_start ConnectNull [], Looking (demo_addr 9) (replicate 40 0) 40)"
    by (intro run_of_Cons [OF _ run_refl] arrive)
  ultimately show ?thesis
    using server_never_faults [OF small_redis_hashes, of "\<lambda>_. Inr 0" "[]"] by fastforce
qed

end
