(* ===== verification/Iocp.thy ===== *)
theory Iocp
  imports Prelude
begin

text \<open>
  \<^verbatim>\<open>ServerCore/IocpEvent\<close> and \<^verbatim>\<open>ServerCore/IocpCore\<close>: the events handed to the operating system and
  the dispatch of their completions. An event carries the zeroed \<^verbatim>\<open>OVERLAPPED\<close> structure, its type and
  its owner, an object of the type \<open>'o\<close>; the virtual \<^verbatim>\<open>Dispatch\<close> of the objects is the parameter
  \<open>disp\<close>. What \<^verbatim>\<open>GetQueuedCompletionStatus\<close> gives back is the input \<open>completion\<close>.
\<close>

section \<open>Events\<close>

datatype event_type = ConnectEvent | DisconnectEvent | AcceptEvent | RecvEvent | SendEvent

record 'o iocp_event =
  ev_Internal :: u64
  ev_InternalHigh :: u64
  ev_Offset :: u32
  ev_OffsetHigh :: u32
  ev_hEvent :: u64
  ev_eventType :: event_type
  ev_owner :: "'o option"

definition IocpEvent_Init :: "'o iocp_event \<Rightarrow> 'o iocp_event" where
  "IocpEvent_Init e = e\<lparr>ev_hEvent := 0, ev_Internal := 0, ev_InternalHigh := 0, ev_Offset := 0, ev_OffsetHigh := 0\<rparr>"

text \<open>The constructors of the events: the memory \<open>e\<close> is not initialised, a new owner is null.\<close>

definition IocpEvent :: "event_type \<Rightarrow> 'o iocp_event \<Rightarrow> 'o iocp_event" where
  "IocpEvent ty e = IocpEvent_Init (e\<lparr>ev_eventType := ty, ev_owner := None\<rparr>)"

lemma IocpEvent_eq:
  "IocpEvent ty e = \<lparr>ev_Internal = 0, ev_InternalHigh = 0, ev_Offset = 0, ev_OffsetHigh = 0, ev_hEvent = 0,
     ev_eventType = ty, ev_owner = None\<rparr>"
  by (cases e) (simp add: IocpEvent_def IocpEvent_Init_def)

text \<open>A failed overlapped call has an error code other than \<^verbatim>\<open>WSA_IO_PENDING\<close>.\<close>

definition WSA_IO_PENDING :: i32 where "WSA_IO_PENDING = 997"
definition WAIT_TIMEOUT :: i32 where "WAIT_TIMEOUT = 258"

definition failed :: "i32 option \<Rightarrow> bool" where
  "failed r \<longleftrightarrow> r \<noteq> None \<and> r \<noteq> Some WSA_IO_PENDING"

lemma not_failed_None [simp]: "\<not> failed None"
  by (simp add: failed_def)

section \<open>Dispatch\<close>

record 'o completion =
  cp_success :: bool
  cp_iocpEvent :: "'o iocp_event option"
  cp_numOfBytes :: i32
  cp_errCode :: i32

definition dispatch_event ::
  "('o \<Rightarrow> 'o iocp_event \<Rightarrow> i32 \<Rightarrow> 's \<Rightarrow> 's result option) \<Rightarrow> 'o iocp_event option \<Rightarrow> i32 \<Rightarrow> 's \<Rightarrow> 's result option"
where
  "dispatch_event disp iocpEvent numOfBytes s =
     (case iocpEvent of None \<Rightarrow> Some (Inl NullDeref)
      | Some ev \<Rightarrow> (case ev_owner ev of None \<Rightarrow> Some (Inl NullDeref)
          | Some iocpObject \<Rightarrow> disp iocpObject ev numOfBytes s))"

definition IocpCore_Dispatch ::
  "('o \<Rightarrow> 'o iocp_event \<Rightarrow> i32 \<Rightarrow> 's \<Rightarrow> 's result option) \<Rightarrow> 'o completion \<Rightarrow> 's \<Rightarrow> (bool \<times> 's) result option"
where
  "IocpCore_Dispatch disp c s =
     (if cp_success c then map_option (\<lambda>r. bindr r (\<lambda>s. Inr (True, s))) (dispatch_event disp (cp_iocpEvent c) (cp_numOfBytes c) s)
      else if cp_errCode c = WAIT_TIMEOUT then Some (Inr (False, s))
      else map_option (\<lambda>r. bindr r (\<lambda>s. Inr (True, s))) (dispatch_event disp (cp_iocpEvent c) (cp_numOfBytes c) s))"

section \<open>Lemmas\<close>

lemma Dispatch_event:
  "cp_iocpEvent c = Some ev \<Longrightarrow> ev_owner ev = Some obj \<Longrightarrow> cp_success c \<or> cp_errCode c \<noteq> WAIT_TIMEOUT \<Longrightarrow>
   IocpCore_Dispatch disp c s = map_option (\<lambda>r. bindr r (\<lambda>s. Inr (True, s))) (disp obj ev (cp_numOfBytes c) s)"
  by (auto simp: IocpCore_Dispatch_def dispatch_event_def)

lemma Dispatch_timeout:
  "\<not> cp_success c \<Longrightarrow> cp_errCode c = WAIT_TIMEOUT \<Longrightarrow> IocpCore_Dispatch disp c s = Some (Inr (False, s))"
  by (simp add: IocpCore_Dispatch_def)

lemma Dispatch_null:
  "cp_iocpEvent c = None \<Longrightarrow> \<not> cp_success c \<Longrightarrow> cp_errCode c \<noteq> WAIT_TIMEOUT \<Longrightarrow>
   IocpCore_Dispatch disp c s = Some (Inl NullDeref)"
  by (simp add: IocpCore_Dispatch_def dispatch_event_def)

end
