(* ===== verification/UdpReceive.thy ===== *)
theory UdpReceive
  imports GameServer Iocp
begin

text \<open>
  The receive side of \<^verbatim>\<open>ServerCore/UdpSession\<close> and \<^verbatim>\<open>UdpService::Start\<close>: the one receive of the one
  socket, registered again after every completion. \<open>uk_posted\<close> counts the receives the operating
  system holds. The results of the successive \<^verbatim>\<open>WSARecvFrom\<close> calls of one registration are the
  function \<open>os\<close>. The source calls itself again after every immediate failure, and
  \<^const>\<open>None\<close> says that it never comes back.
\<close>

record udp_socket =
  uk_recvOwner :: bool
  uk_recvFromAddrLen :: i32
  uk_posted :: nat

definition new_udp_socket :: udp_socket where
  "new_udp_socket = \<lparr>uk_recvOwner = False, uk_recvFromAddrLen = 16, uk_posted = 0\<rparr>"

partial_function (option) UdpSession_RegisterRecv ::
  "(nat \<Rightarrow> i32 option) \<Rightarrow> nat \<Rightarrow> udp_socket \<Rightarrow> udp_socket option" where
  "UdpSession_RegisterRecv os k u =
     (let u = u\<lparr>uk_recvOwner := True, uk_recvFromAddrLen := 16\<rparr> in
      if failed (os k)
      then let u = u\<lparr>uk_recvOwner := False\<rparr> in UdpSession_RegisterRecv os (Suc k) u
      else Some (u\<lparr>uk_posted := uk_posted u + 1\<rparr>))"

definition UdpSession_ProcessRecv ::
  "'s redis_command \<Rightarrow> (string \<Rightarrow> f32 result) \<Rightarrow> i64 \<Rightarrow> i64 \<Rightarrow> sockaddr_in \<Rightarrow> byte list \<Rightarrow> (nat \<Rightarrow> i32 option) \<Rightarrow>
     i32 \<Rightarrow> udp_socket \<times> 's world \<Rightarrow> (udp_socket \<times> 's world) result option" where
  "UdpSession_ProcessRecv cmd stof now now' recvFromAddr recvBuf os numOfBytes s =
     (let u = (fst s)\<lparr>uk_recvOwner := False\<rparr> in
      case ProcessRecv cmd stof True now now' recvFromAddr recvBuf (sint numOfBytes) (snd s) of
        Inl e \<Rightarrow> Some (Inl e)
      | Inr w \<Rightarrow> map_option (\<lambda>u. Inr (u, w)) (UdpSession_RegisterRecv os 0 u))"

definition UdpSession_Dispatch ::
  "'s redis_command \<Rightarrow> (string \<Rightarrow> f32 result) \<Rightarrow> i64 \<Rightarrow> i64 \<Rightarrow> sockaddr_in \<Rightarrow> byte list \<Rightarrow> (nat \<Rightarrow> i32 option) \<Rightarrow>
     event_type \<Rightarrow> i32 \<Rightarrow> udp_socket \<times> 's world \<Rightarrow> (udp_socket \<times> 's world) result option" where
  "UdpSession_Dispatch cmd stof now now' recvFromAddr recvBuf os ty numOfBytes s =
     (case ty of
        RecvEvent \<Rightarrow> UdpSession_ProcessRecv cmd stof now now' recvFromAddr recvBuf os numOfBytes s
      | _ \<Rightarrow> Some (Inr s))"

record start_results =
  st_session :: bool
  st_reuse :: bool
  st_bind :: bool
  st_register :: bool

definition UdpService_Start :: "start_results \<Rightarrow> (nat \<Rightarrow> i32 option) \<Rightarrow> udp_socket \<Rightarrow> (bool \<times> udp_socket) option" where
  "UdpService_Start r os u =
     (if \<not> st_session r then Some (False, u)
      else if \<not> st_reuse r then Some (False, u)
      else if \<not> st_bind r then Some (False, u)
      else if \<not> st_register r then Some (False, u)
      else map_option (\<lambda>u. (True, u)) (UdpSession_RegisterRecv os 0 u))"

section \<open>When a registration returns\<close>

lemma RegisterRecv_accepts:
  assumes "\<not> failed (os (k + d))"
  shows "UdpSession_RegisterRecv os k u =
     Some (u\<lparr>uk_recvOwner := True, uk_recvFromAddrLen := 16, uk_posted := uk_posted u + 1\<rparr>)"
  using assms
proof (induction d arbitrary: k u)
  case 0
  then show ?case by (simp add: UdpSession_RegisterRecv.simps)
next
  case (Suc d)
  then show ?case by (cases "failed (os k)") (simp_all add: UdpSession_RegisterRecv.simps [of os k])
qed

lemma RegisterRecv_returns:
  assumes "UdpSession_RegisterRecv os k u = Some u'"
  shows "\<exists>j\<ge>k. \<not> failed (os j)"
proof (rule UdpSession_RegisterRecv.raw_induct [where P = "\<lambda>os k u u'. \<exists>j\<ge>k. \<not> failed (os j)", OF _ assms])
  fix rec :: "(nat \<Rightarrow> i32 option) \<Rightarrow> nat \<Rightarrow> udp_socket \<Rightarrow> udp_socket option" and os k u u'
  assume IH: "\<And>os k u u'. rec os k u = Some u' \<Longrightarrow> \<exists>j\<ge>k. \<not> failed (os j)"
    and eq: "(let u = u\<lparr>uk_recvOwner := True, uk_recvFromAddrLen := 16\<rparr>
       in if failed (os k) then let u = u\<lparr>uk_recvOwner := False\<rparr> in rec os (Suc k) u
          else Some (u\<lparr>uk_posted := uk_posted u + 1\<rparr>)) = Some u'"
  show "\<exists>j\<ge>k. \<not> failed (os j)"
  proof (cases "failed (os k)")
    case True
    with eq IH have "\<exists>j\<ge>Suc k. \<not> failed (os j)" by (auto simp: Let_def)
    then show ?thesis using Suc_leD by blast
  qed blast
qed

lemma RegisterRecv_eq:
  "UdpSession_RegisterRecv os k u = (if \<exists>j\<ge>k. \<not> failed (os j)
     then Some (u\<lparr>uk_recvOwner := True, uk_recvFromAddrLen := 16, uk_posted := uk_posted u + 1\<rparr>) else None)"
proof (cases "\<exists>j\<ge>k. \<not> failed (os j)")
  case True
  then obtain d where "\<not> failed (os (k + d))" by (metis le_Suc_ex)
  from RegisterRecv_accepts [of os k d, OF this] True show ?thesis by simp
next
  case False
  with RegisterRecv_returns [of os k u] show ?thesis by (cases "UdpSession_RegisterRecv os k u") auto
qed

section \<open>The worker threads beside the main loop\<close>

text \<open>
  A completion of the receive: whether it is reported as a success, the clock values, the sender and
  the memory of the receive buffer, the byte count and the results of the calls that register the
  next receive.
\<close>

record udp_completion =
  uc_success :: bool
  uc_now :: i64
  uc_now' :: i64
  uc_recvFromAddr :: sockaddr_in
  uc_recvBuf :: "byte list"
  uc_numOfBytes :: i32
  uc_os :: "nat \<Rightarrow> i32 option"

definition recv_event :: "unit iocp_event" where
  "recv_event = IocpEvent_Init \<lparr>ev_Internal = 0, ev_InternalHigh = 0, ev_Offset = 0, ev_OffsetHigh = 0,
     ev_hEvent = 0, ev_eventType = RecvEvent, ev_owner = Some ()\<rparr>"

definition recv_completion :: "udp_completion \<Rightarrow> unit completion" where
  "recv_completion c = \<lparr>cp_success = uc_success c, cp_iocpEvent = Some recv_event,
     cp_numOfBytes = uc_numOfBytes c, cp_errCode = (if uc_success c then 0 else 64)\<rparr>"

definition dispatch_recv ::
  "'s redis_command \<Rightarrow> (string \<Rightarrow> f32 result) \<Rightarrow> udp_completion \<Rightarrow> udp_socket \<times> 's world \<Rightarrow>
     (bool \<times> udp_socket \<times> 's world) result option" where
  "dispatch_recv cmd stof c s =
     IocpCore_Dispatch (\<lambda>_ ev. UdpSession_Dispatch cmd stof (uc_now c) (uc_now' c) (uc_recvFromAddr c)
         (uc_recvBuf c) (uc_os c) (ev_eventType ev))
       (recv_completion c) s"

definition received :: "udp_completion \<Rightarrow> server_event" where
  "received c = Received (uc_now c) (uc_now' c) (uc_recvFromAddr c) (uc_recvBuf c) (sint (uc_numOfBytes c))"

text \<open>
  The program: the socket, the server with its main thread, and the workers that have taken a
  completion and not yet come back from its dispatch.
\<close>

record 's udp_program =
  up_socket :: udp_socket
  up_server :: "'s server"
  up_workers :: "udp_completion list"

inductive program_step ::
  "'s redis_command \<Rightarrow> (string \<Rightarrow> f32 result) \<Rightarrow> 's udp_program \<Rightarrow> 's udp_program \<Rightarrow> bool" for cmd stof where
  take: "0 < uk_posted u \<Longrightarrow>
    program_step cmd stof \<lparr>up_socket = u, up_server = s, up_workers = cs\<rparr>
      \<lparr>up_socket = u\<lparr>uk_posted := uk_posted u - 1\<rparr>, up_server = s, up_workers = cs @ [c]\<rparr>"
| dispatch: "dispatch_recv cmd stof c (u, sv_world s) = Some (Inr (True, u', w')) \<Longrightarrow>
    program_step cmd stof \<lparr>up_socket = u, up_server = s, up_workers = cs @ c # ds\<rparr>
      \<lparr>up_socket = u', up_server = s\<lparr>sv_world := w'\<rparr>, up_workers = cs @ ds\<rparr>"
| main_thread: "server_step cmd stof e s s' \<Longrightarrow> \<forall>now now' a buf n. e \<noteq> Received now now' a buf n \<Longrightarrow>
    program_step cmd stof \<lparr>up_socket = u, up_server = s, up_workers = cs\<rparr>
      \<lparr>up_socket = u, up_server = s', up_workers = cs\<rparr>"

inductive program_run ::
  "'s redis_command \<Rightarrow> (string \<Rightarrow> f32 result) \<Rightarrow> nat \<Rightarrow> 's udp_program \<Rightarrow> 's udp_program \<Rightarrow> bool" for cmd stof where
  prun_refl: "program_run cmd stof 0 p p"
| prun_step: "program_run cmd stof n p q \<Longrightarrow> program_step cmd stof q r \<Longrightarrow> program_run cmd stof (Suc n) p r"

definition program_start :: "udp_socket \<Rightarrow> connect_outcome \<Rightarrow> 's \<Rightarrow> 's udp_program" where
  "program_start u outcome redis = \<lparr>up_socket = u, up_server = server_start outcome redis, up_workers = []\<rparr>"

lemma dispatch_recv_eq:
  "dispatch_recv cmd stof c (u, w) =
     (case ProcessRecv cmd stof True (uc_now c) (uc_now' c) (uc_recvFromAddr c) (uc_recvBuf c) (sint (uc_numOfBytes c)) w of
        Inl e \<Rightarrow> Some (Inl e)
      | Inr w' \<Rightarrow> if \<exists>j. \<not> failed (uc_os c j)
          then Some (Inr (True, u\<lparr>uk_recvOwner := True, uk_recvFromAddrLen := 16, uk_posted := uk_posted u + 1\<rparr>, w'))
          else None)"
proof -
  have "dispatch_recv cmd stof c (u, w) = map_option (\<lambda>r. bindr r (\<lambda>s. Inr (True, s)))
      (UdpSession_ProcessRecv cmd stof (uc_now c) (uc_now' c) (uc_recvFromAddr c) (uc_recvBuf c) (uc_os c)
        (uc_numOfBytes c) (u, w))"
    unfolding dispatch_recv_def
    by (subst Dispatch_event [where ev = recv_event and obj = "()"])
       (simp_all add: recv_completion_def recv_event_def IocpEvent_Init_def UdpSession_Dispatch_def WAIT_TIMEOUT_def)
  then show ?thesis
    by (simp add: UdpSession_ProcessRecv_def RegisterRecv_eq split: sum.split)
qed

definition program_ok :: "'s udp_program \<Rightarrow> bool" where
  "program_ok p \<longleftrightarrow> uk_posted (up_socket p) + length (up_workers p) = 1 \<and>
     (up_workers p = [] \<longrightarrow> uk_recvOwner (up_socket p))"

lemma program_ok_step:
  assumes "program_step cmd stof p q" and "program_ok p"
  shows "program_ok q"
  using assms(1)
proof cases
  case (take u s cs c)
  then have "uk_posted u = 1" "cs = []" using assms(2) by (cases cs; simp add: program_ok_def)+
  with take show ?thesis by (simp add: program_ok_def)
next
  case (dispatch c u s u' w' cs ds)
  with assms(2) show ?thesis by (auto simp: program_ok_def dispatch_recv_eq split: sum.splits if_splits)
next
  case main_thread
  with assms(2) show ?thesis by (simp add: program_ok_def)
qed

lemma program_step_server:
  assumes "program_step cmd stof p q"
  shows "up_server q = up_server p \<or> (\<exists>e. server_step cmd stof e (up_server p) (up_server q))"
  using assms
proof cases
  case (dispatch c u s u' w' cs ds)
  then have "ProcessRecv cmd stof True (uc_now c) (uc_now' c) (uc_recvFromAddr c) (uc_recvBuf c)
      (sint (uc_numOfBytes c)) (sv_world s) = Inr w'"
    by (auto simp: dispatch_recv_eq split: sum.splits if_splits)
  from recv_step [OF this] dispatch show ?thesis by auto
qed auto

lemma program_run_ok:
  "program_run cmd stof n p q \<Longrightarrow> program_ok p \<Longrightarrow> program_ok q \<and>
     (\<exists>es. length es \<le> n \<and> server_path cmd stof es (up_server p) (up_server q))"
proof (induction rule: program_run.induct)
  case (prun_refl p)
  then show ?case using path_refl by fastforce
next
  case (prun_step n p q r)
  then obtain es where es: "program_ok q" "length es \<le> n" "server_path cmd stof es (up_server p) (up_server q)" by blast
  show ?case
  proof (cases "up_server r = up_server q")
    case True
    then show ?thesis using es program_ok_step [OF prun_step.hyps(2) es(1)] le_SucI by metis
  next
    case False
    with program_step_server [OF prun_step.hyps(2)] obtain e where "server_step cmd stof e (up_server q) (up_server r)" by blast
    from path_step [OF es(3) this] show ?thesis
      using es(2) program_ok_step [OF prun_step.hyps(2) es(1)] by (intro conjI exI [of _ "es @ [e]"]) auto
  qed
qed

lemma Start_posts:
  "UdpService_Start r os new_udp_socket = Some (True, u) \<Longrightarrow> program_ok (program_start u outcome redis)"
  by (auto simp: UdpService_Start_def RegisterRecv_eq program_ok_def program_start_def new_udp_socket_def split: if_splits)

section \<open>Properties\<close>

definition all_fine :: start_results where
  "all_fine = \<lparr>st_session = True, st_reuse = True, st_bind = True, st_register = True\<rparr>"

lemma start_demo:
  "UdpService_Start all_fine (\<lambda>_. None) new_udp_socket =
     Some (True, \<lparr>uk_recvOwner = True, uk_recvFromAddrLen = 16, uk_posted = 1\<rparr>)"
  by (simp add: UdpService_Start_def all_fine_def RegisterRecv_eq new_udp_socket_def)

text \<open>A worker has taken a completion without bytes.\<close>

definition demo_completion :: udp_completion where
  "demo_completion = \<lparr>uc_success = False, uc_now = 5, uc_now' = 6, uc_recvFromAddr = demo_addr 8, uc_recvBuf = [],
     uc_numOfBytes = 0, uc_os = (\<lambda>k. if k = 0 then Some 10054 else None)\<rparr>"

definition demo_taken :: "small_redis udp_program" where
  "demo_taken = \<lparr>up_socket = \<lparr>uk_recvOwner = True, uk_recvFromAddrLen = 16, uk_posted = 0\<rparr>,
     up_server = server_start ConnectNull [], up_workers = [demo_completion]\<rparr>"

lemma demo_taken_run:
  "program_run small_cmd (\<lambda>_. Inr 0) 1
     (program_start \<lparr>uk_recvOwner = True, uk_recvFromAddrLen = 16, uk_posted = 1\<rparr> ConnectNull []) demo_taken"
proof -
  have "program_step small_cmd (\<lambda>_. Inr 0)
      (program_start \<lparr>uk_recvOwner = True, uk_recvFromAddrLen = 16, uk_posted = 1\<rparr> ConnectNull []) demo_taken"
    using take [of "\<lparr>uk_recvOwner = True, uk_recvFromAddrLen = 16, uk_posted = 1\<rparr>" small_cmd "\<lambda>_. Inr 0"
      "server_start ConnectNull []" "[]" demo_completion]
    by (simp add: program_start_def demo_taken_def)
  from prun_step [OF prun_refl this] show ?thesis by simp
qed

text \<open>
  Once \<^verbatim>\<open>UdpService::Start\<close> has succeeded, at any time either the one receive is with the operating
  system or exactly one worker is dispatching its completion, so datagrams are handled one after the
  other however many workers there are; and whatever workers and main thread do together is a run of
  the server's step relation.
\<close>

theorem datagrams_one_at_a_time:
  assumes "UdpService_Start r os new_udp_socket = Some (True, u)"
    and "program_run cmd stof n (program_start u outcome redis) p"
  shows "uk_posted (up_socket p) + length (up_workers p) = 1 \<and>
     (\<exists>es. length es \<le> n \<and> server_path cmd stof es (server_start outcome redis) (up_server p))"
  using program_run_ok [OF assms(2) Start_posts [OF assms(1)]] by (simp add: program_ok_def program_start_def)

theorem datagrams_one_at_a_time_witness:
  "uk_posted (up_socket demo_taken) + length (up_workers demo_taken) = 1 \<and>
   (\<exists>es. length es \<le> 1 \<and> server_path small_cmd (\<lambda>_. Inr 0) es (server_start ConnectNull []) (up_server demo_taken))"
  using datagrams_one_at_a_time [OF start_demo demo_taken_run] by simp

text \<open>
  The server never stops listening: in every reachable state either the operating system holds a
  receive, or the one worker that handles a datagram registers the next receive when it is done,
  provided the handler does not fault and \<^verbatim>\<open>WSARecvFrom\<close> does not fail for ever.
\<close>

theorem server_keeps_listening:
  assumes "UdpService_Start r os new_udp_socket = Some (True, u)"
    and "program_run cmd stof n (program_start u outcome redis) p" and "uk_posted (up_socket p) = 0"
  shows "\<exists>c. up_workers p = [c] \<and>
     (\<forall>w'. ProcessRecv cmd stof True (uc_now c) (uc_now' c) (uc_recvFromAddr c) (uc_recvBuf c)
              (sint (uc_numOfBytes c)) (sv_world (up_server p)) = Inr w' \<longrightarrow> (\<exists>j. \<not> failed (uc_os c j)) \<longrightarrow>
       (\<exists>q. program_step cmd stof p q \<and> uk_posted (up_socket q) = 1 \<and> up_workers q = [] \<and>
            up_server q = (up_server p)\<lparr>sv_world := w'\<rparr>))"
proof -
  have "program_ok p" using program_run_ok [OF assms(2) Start_posts [OF assms(1)]] by blast
  with assms(3) obtain c where c: "up_workers p = [c]"
    by (auto simp: program_ok_def length_Suc_conv)
  then have p: "p = \<lparr>up_socket = up_socket p, up_server = up_server p, up_workers = [] @ c # []\<rparr>" by simp
  show ?thesis
  proof (intro exI [of _ c] conjI c allI impI)
    fix w' assume "ProcessRecv cmd stof True (uc_now c) (uc_now' c) (uc_recvFromAddr c) (uc_recvBuf c)
      (sint (uc_numOfBytes c)) (sv_world (up_server p)) = Inr w'" and "\<exists>j. \<not> failed (uc_os c j)"
    then have "dispatch_recv cmd stof c (up_socket p, sv_world (up_server p)) = Some (Inr (True,
        (up_socket p)\<lparr>uk_recvOwner := True, uk_recvFromAddrLen := 16, uk_posted := 1\<rparr>, w'))"
      using assms(3) by (simp add: dispatch_recv_eq)
    from dispatch [OF this, of "[]" "[]"] p
    show "\<exists>q. program_step cmd stof p q \<and> uk_posted (up_socket q) = 1 \<and> up_workers q = [] \<and>
        up_server q = (up_server p)\<lparr>sv_world := w'\<rparr>" by (intro exI conjI) auto
  qed
qed

theorem server_keeps_listening_witness:
  "\<exists>q. program_step small_cmd (\<lambda>_. Inr 0) demo_taken q \<and> uk_posted (up_socket q) = 1"
proof -
  have "uk_posted (up_socket demo_taken) = 0" by (simp add: demo_taken_def)
  note * = server_keeps_listening [OF start_demo demo_taken_run this]
  have c: "up_workers demo_taken = [demo_completion]" by (simp add: demo_taken_def)
  have "ProcessRecv small_cmd (\<lambda>_. Inr 0) True (uc_now demo_completion) (uc_now' demo_completion)
      (uc_recvFromAddr demo_completion) (uc_recvBuf demo_completion) (sint (uc_numOfBytes demo_completion))
      (sv_world (up_server demo_taken)) = Inr (sv_world (up_server demo_taken))"
    by (simp add: ProcessRecv_def UDP_HEADER_SIZE_def demo_completion_def)
  moreover have "\<not> failed (uc_os demo_completion 1)" by (simp add: demo_completion_def)
  ultimately show ?thesis using * unfolding c by blast
qed

end
