(* ===== verification/ServerProgram.thy ===== *)
theory ServerProgram
  imports ServerProgress UdpReceive
begin

text \<open>
  The whole UDP program: any number of worker threads beside the main thread, the one receive of the one
  socket, and the handling of a datagram cut into the phases of \<open>Interleaving\<close>. A worker takes a
  completion from the port, enters \<^verbatim>\<open>UdpSession::ProcessRecv\<close>, goes through the phases and registers the
  next receive. Nothing in the step relation keeps two workers apart; that there is never more than
  one with a datagram is proved.
\<close>

section \<open>State and steps\<close>

text \<open>\<open>pw_work\<close> is \<^const>\<open>None\<close> until the worker has entered \<^verbatim>\<open>ProcessRecv\<close>.\<close>

record prog_worker =
  pw_completion :: udp_completion
  pw_work :: "work option"

record 's prog =
  pg_socket :: udp_socket
  pg_server :: "'s server"
  pg_workers :: "prog_worker list"

datatype prog_event = Takes udp_completion | Enters | Phase i64 | Rearms | Mains server_event

definition datagram :: "udp_completion \<Rightarrow> work" where
  "datagram c = Looking (uc_recvFromAddr c) (uc_recvBuf c) (sint (uc_numOfBytes c))"

inductive prog_step ::
  "'s redis_command \<Rightarrow> (string \<Rightarrow> f32 result) \<Rightarrow> prog_event \<Rightarrow> 's prog \<Rightarrow> 's prog \<Rightarrow> bool" for cmd stof where
  takes: "0 < uk_posted u \<Longrightarrow>
    prog_step cmd stof (Takes c) \<lparr>pg_socket = u, pg_server = s, pg_workers = ws\<rparr>
      \<lparr>pg_socket = u\<lparr>uk_posted := uk_posted u - 1\<rparr>, pg_server = s,
       pg_workers = ws @ [\<lparr>pw_completion = c, pw_work = None\<rparr>]\<rparr>"
| enters: "uk_recvOwner u \<Longrightarrow>
    prog_step cmd stof Enters
      \<lparr>pg_socket = u, pg_server = s, pg_workers = ws @ \<lparr>pw_completion = c, pw_work = None\<rparr> # vs\<rparr>
      \<lparr>pg_socket = u\<lparr>uk_recvOwner := False\<rparr>, pg_server = s,
       pg_workers = ws @ \<lparr>pw_completion = c, pw_work = Some (datagram c)\<rparr> # vs\<rparr>"
| phase: "k \<noteq> Idle \<Longrightarrow> work_step cmd stof now k (sv_world s) = Inr (k', w') \<Longrightarrow>
    prog_step cmd stof (Phase now)
      \<lparr>pg_socket = u, pg_server = s, pg_workers = ws @ \<lparr>pw_completion = c, pw_work = Some k\<rparr> # vs\<rparr>
      \<lparr>pg_socket = u, pg_server = s\<lparr>sv_world := w'\<rparr>,
       pg_workers = ws @ \<lparr>pw_completion = c, pw_work = Some k'\<rparr> # vs\<rparr>"
| rearms: "UdpSession_RegisterRecv (uc_os c) 0 u = Some u' \<Longrightarrow>
    prog_step cmd stof Rearms
      \<lparr>pg_socket = u, pg_server = s, pg_workers = ws @ \<lparr>pw_completion = c, pw_work = Some Idle\<rparr> # vs\<rparr>
      \<lparr>pg_socket = u', pg_server = s, pg_workers = ws @ vs\<rparr>"
| mains: "server_step cmd stof e s s' \<Longrightarrow> main_event e \<Longrightarrow>
    prog_step cmd stof (Mains e) \<lparr>pg_socket = u, pg_server = s, pg_workers = ws\<rparr>
      \<lparr>pg_socket = u, pg_server = s', pg_workers = ws\<rparr>"

definition prog_start :: "udp_socket \<Rightarrow> connect_outcome \<Rightarrow> 's \<Rightarrow> 's prog" where
  "prog_start u outcome redis = \<lparr>pg_socket = u, pg_server = server_start outcome redis, pg_workers = []\<rparr>"

section \<open>One datagram at a time\<close>

text \<open>
  The receive is with the operating system, or with one worker; it has an owner unless that worker is
  handling the datagram.
\<close>

definition prog_ok :: "'s prog \<Rightarrow> bool" where
  "prog_ok p \<longleftrightarrow> uk_posted (pg_socket p) + length (pg_workers p) = 1 \<and>
     (uk_recvOwner (pg_socket p) \<longleftrightarrow> list_all (\<lambda>w. pw_work w = None) (pg_workers p))"

definition prog_work :: "'s prog \<Rightarrow> work" where
  "prog_work p = (case pg_workers p of [] \<Rightarrow> Idle | w # ws \<Rightarrow> (case pw_work w of None \<Rightarrow> Idle | Some k \<Rightarrow> k))"

lemma prog_step_ok: "prog_step cmd stof e p q \<Longrightarrow> prog_ok p \<Longrightarrow> prog_ok q"
proof (induction rule: prog_step.induct)
  case (takes u c s ws)
  then have "ws = []" by (cases ws) (simp_all add: prog_ok_def)
  with takes show ?case by (simp add: prog_ok_def)
qed (auto simp: prog_ok_def RegisterRecv_eq split: if_splits)

text \<open>Each step is one of the interleaved server, or changes nothing there.\<close>

fun small_take :: "prog_event \<Rightarrow> bool" where
  "small_take (Takes c) \<longleftrightarrow> sint (uc_numOfBytes c) \<le> int (length (uc_recvBuf c)) \<and> sint (uc_numOfBytes c) \<le> 1189"
| "small_take e \<longleftrightarrow> True"

definition small_workers :: "'s prog \<Rightarrow> bool" where
  "small_workers p \<longleftrightarrow> list_all (\<lambda>w. small_take (Takes (pw_completion w))) (pg_workers p)"

lemma prog_step_small: "prog_step cmd stof e p q \<Longrightarrow> small_workers p \<Longrightarrow> small_take e \<Longrightarrow> small_workers q"
  by (induction rule: prog_step.induct) (auto simp: small_workers_def)

lemma prog_step_turns:
  assumes "prog_step cmd stof e p q" and "prog_ok p"
  shows "(pg_server q = pg_server p \<and> prog_work q = prog_work p) \<or>
    (\<exists>f. turn cmd stof f (pg_server p, prog_work p) (pg_server q, prog_work q) \<and> (small_workers p \<longrightarrow> small_event f))"
  using assms(1)
proof cases
  case (takes u c s ws)
  with assms(2) show ?thesis by (cases ws) (auto simp: prog_ok_def prog_work_def)
next
  case (enters u s ws c vs)
  then have "ws = []" "vs = []" using assms(2) by (auto simp: prog_ok_def)
  with enters arrive [of cmd stof "uc_recvFromAddr c" "uc_recvBuf c" "sint (uc_numOfBytes c)" s] show ?thesis
    by (intro disjI2 exI [of _ "Arrives (uc_recvFromAddr c) (uc_recvBuf c) (sint (uc_numOfBytes c))"])
       (simp add: prog_work_def datagram_def small_workers_def)
next
  case (phase k now s k' w' u ws c vs)
  then have "ws = []" "vs = []" using assms(2) by (auto simp: prog_ok_def)
  with phase work [OF phase(4,5)] show ?thesis
    by (intro disjI2 exI [of _ "Works now"]) (simp add: prog_work_def)
next
  case (rearms c u u' s ws vs)
  then have "ws = []" "vs = []" using assms(2) by (auto simp: prog_ok_def)
  with rearms show ?thesis by (simp add: prog_work_def)
next
  case (mains e s s' u ws)
  with main [OF mains(4,5), of "prog_work p"] show ?thesis
    by (intro disjI2 exI [of _ "Main e"]) (simp add: prog_work_def)
qed

lemma prog_run_turns:
  assumes "run_of (prog_step cmd stof) es p q" and "prog_ok p" and "small_workers p"
  shows "prog_ok q \<and> (list_all small_take es \<longrightarrow> small_workers q) \<and>
    (\<exists>fs. length fs \<le> length es \<and> (list_all small_take es \<longrightarrow> list_all small_event fs) \<and>
       run_of (turn cmd stof) fs (pg_server p, prog_work p) (pg_server q, prog_work q))"
  using assms
proof induction
  case (run_refl p)
  then show ?case using run_of.run_refl by fastforce
next
  case (run_step es p q e r)
  then obtain fs where fs: "length fs \<le> length es" "list_all small_take es \<longrightarrow> list_all small_event fs"
    "run_of (turn cmd stof) fs (pg_server p, prog_work p) (pg_server q, prog_work q)" "prog_ok q"
    "list_all small_take es \<longrightarrow> small_workers q" by blast
  have r: "prog_ok r" "list_all small_take (es @ [e]) \<longrightarrow> small_workers r"
    using prog_step_ok [OF run_step.hyps(2) fs(4)] prog_step_small [OF run_step.hyps(2)] fs(5) by auto
  from prog_step_turns [OF run_step.hyps(2) fs(4)] show ?case
  proof (elim disjE conjE exE)
    assume "pg_server r = pg_server q" "prog_work r = prog_work q"
    with fs r show ?thesis by (intro conjI exI [of _ fs]) auto
  next
    fix f assume f: "turn cmd stof f (pg_server q, prog_work q) (pg_server r, prog_work r)" "small_workers q \<longrightarrow> small_event f"
    from run_of.run_step [OF fs(3) f(1)] fs f(2) r show ?thesis by (intro conjI exI [of _ "fs @ [f]"]) auto
  qed
qed

lemma prog_start_ok:
  assumes "UdpService_Start r os new_udp_socket = Some (True, u)"
  shows "prog_ok (prog_start u outcome redis)" and "small_workers (prog_start u outcome redis)"
    and "prog_work (prog_start u outcome redis) = Idle"
  using assms by (auto simp: UdpService_Start_def RegisterRecv_eq prog_ok_def small_workers_def prog_work_def
      prog_start_def new_udp_socket_def split: if_splits)

section \<open>The worker alone\<close>

text \<open>
  From any state the worker, left alone, comes to the end of its datagram and registers the next
  receive: the phases it can take are those of \<open>ServerProgress\<close>, and each lowers \<open>rank\<close>.
\<close>

abbreviation one_worker :: "udp_socket \<Rightarrow> 's server \<Rightarrow> udp_completion \<Rightarrow> work option \<Rightarrow> 's prog" where
  "one_worker u s c k \<equiv> \<lparr>pg_socket = u, pg_server = s, pg_workers = [\<lparr>pw_completion = c, pw_work = k\<rparr>]\<rparr>"

fun worker_event :: "prog_event \<Rightarrow> bool" where
  "worker_event (Takes c) \<longleftrightarrow> False"
| "worker_event (Mains e) \<longleftrightarrow> False"
| "worker_event e \<longleftrightarrow> True"

lemma phase_one: "k \<noteq> Idle \<Longrightarrow> work_step cmd stof now k (sv_world s) = Inr (k', w') \<Longrightarrow>
    prog_step cmd stof (Phase now) (one_worker u s c (Some k)) (one_worker u (s\<lparr>sv_world := w'\<rparr>) c (Some k'))"
  using phase [of k cmd stof now s k' w' u "[]" c "[]"] by simp

lemma phases_end:
  assumes law: "redis_hashes cmd hash" and "fine hash stof (sv_world s)" and "small_work k"
  shows "\<exists>es s'. length es \<le> rank k \<and> list_all worker_event es \<and>
     run_of (prog_step cmd stof) es (one_worker u s c (Some k)) (one_worker u s' c (Some Idle))"
  using assms(2,3)
proof (induction "rank k" arbitrary: k s rule: less_induct)
  case less
  show ?case
  proof (cases "k = Idle")
    case True
    then show ?thesis using run_refl by (intro exI [of _ "[]"] exI [of _ s]) simp
  next
    case False
    from work_step_fine [OF law less.prems, of 0] obtain k' w' where
      k': "work_step cmd stof 0 k (sv_world s) = Inr (k', w')" "fine hash stof w'" "small_work k'" by blast
    have r: "Suc (rank k') \<le> rank k" using work_step_rank [OF k'(1)] rank_0 [of k] False by simp
    with less.hyps [of k' "s\<lparr>sv_world := w'\<rparr>"] k'(2,3) obtain es s' where
      es: "length es \<le> rank k'" "list_all worker_event es"
      "run_of (prog_step cmd stof) es (one_worker u (s\<lparr>sv_world := w'\<rparr>) c (Some k')) (one_worker u s' c (Some Idle))" by auto
    from run_of_Cons [OF phase_one [OF False k'(1)] es(3)] es(1,2) r show ?thesis
      by (intro exI [of _ "Phase 0 # es"] exI [of _ s']) simp
  qed
qed

lemma rearm_one:
  assumes "\<exists>j. \<not> failed (uc_os c j)"
  shows "\<exists>u'. uk_posted u' = uk_posted u + 1 \<and> uk_recvOwner u' \<and>
    prog_step cmd stof Rearms (one_worker u s c (Some Idle)) \<lparr>pg_socket = u', pg_server = s, pg_workers = []\<rparr>"
proof -
  have "UdpSession_RegisterRecv (uc_os c) 0 u = Some (u\<lparr>uk_recvOwner := True, uk_recvFromAddrLen := 16, uk_posted := uk_posted u + 1\<rparr>)"
    using assms by (simp add: RegisterRecv_eq)
  from rearms [of c u, OF this, of cmd stof s "[]" "[]"] show ?thesis by (intro exI conjI) simp_all
qed

lemma enter_one: "uk_recvOwner u \<Longrightarrow>
    prog_step cmd stof Enters (one_worker u s c None) (one_worker (u\<lparr>uk_recvOwner := False\<rparr>) s c (Some (datagram c)))"
  using enters [of u cmd stof s "[]" c "[]"] by simp

lemma work_ends:
  assumes "redis_hashes cmd hash" and "fine hash stof (sv_world s)" and "small_work k" and "\<exists>j. \<not> failed (uc_os c j)"
  shows "\<exists>es u' s'. length es \<le> Suc (rank k) \<and> list_all worker_event es \<and> uk_posted u' = uk_posted u + 1 \<and> uk_recvOwner u' \<and>
    run_of (prog_step cmd stof) es (one_worker u s c (Some k)) \<lparr>pg_socket = u', pg_server = s', pg_workers = []\<rparr>"
proof -
  from phases_end [OF assms(1-3), of u c] obtain es s' where es: "length es \<le> rank k" "list_all worker_event es"
    "run_of (prog_step cmd stof) es (one_worker u s c (Some k)) (one_worker u s' c (Some Idle))" by blast
  from rearm_one [OF assms(4), of u cmd stof s'] obtain u' where u': "uk_posted u' = uk_posted u + 1" "uk_recvOwner u'"
    "prog_step cmd stof Rearms (one_worker u s' c (Some Idle)) \<lparr>pg_socket = u', pg_server = s', pg_workers = []\<rparr>" by blast
  from run_step [OF es(3) u'(3)] es(1,2) u'(1,2) show ?thesis
    by (intro exI [of _ "es @ [Rearms]"] exI [of _ u'] exI [of _ s']) simp
qed

lemma rank_le_4: "rank k \<le> 4"
  by (cases k) simp_all

lemma returns_run:
  assumes "run_of (prog_step cmd stof) es p q" and "list_all P (map pw_completion (pg_workers p))"
    and "\<forall>c. Takes c \<in> set es \<longrightarrow> P c"
  shows "list_all P (map pw_completion (pg_workers q))"
  using assms
proof induction
  case (run_step es p q e r)
  then have "list_all P (map pw_completion (pg_workers q))" by simp
  with run_step.hyps(2) run_step.prems(2) show ?case by cases auto
qed

section \<open>The dispatch of the source\<close>

text \<open>
  \<^verbatim>\<open>IocpCore::Dispatch\<close> of the completion of a receive, as the functions of \<open>UdpReceive\<close> have it, is a run
  of the worker alone: it enters, goes through the phases and registers the next receive.
\<close>

lemma phases_prog:
  assumes "phases cmd stof now now' m k w = Inr (Idle, w')"
  shows "\<exists>es. length es \<le> m \<and> list_all worker_event es \<and> run_of (prog_step cmd stof) es
    (one_worker u \<lparr>sv_world = w, sv_main = pc\<rparr> c (Some k)) (one_worker u \<lparr>sv_world = w', sv_main = pc\<rparr> c (Some Idle))"
  using assms
proof (induction m arbitrary: k w)
  case 0
  then show ?case using run_refl by fastforce
next
  case (Suc m)
  show ?case
  proof (cases "k = Idle")
    case True
    with Suc.prems have "phases cmd stof now now' m Idle w = Inr (Idle, w')" by simp
    with Suc.IH show ?thesis unfolding True by (meson le_SucI)
  next
    case False
    from Suc.prems obtain k1 w1 where 1: "work_step cmd stof (work_clock now now' k) k w = Inr (k1, w1)"
      "phases cmd stof now now' m k1 w1 = Inr (Idle, w')" by (auto simp: bindr_Inr_iff)
    let ?s = "\<lambda>w. \<lparr>sv_world = w, sv_main = pc\<rparr>"
    from Suc.IH [OF 1(2)] obtain es where es: "length es \<le> m" "list_all worker_event es"
      "run_of (prog_step cmd stof) es (one_worker u (?s w1) c (Some k1)) (one_worker u (?s w') c (Some Idle))" by blast
    have "prog_step cmd stof (Phase (work_clock now now' k)) (one_worker u (?s w) c (Some k)) (one_worker u (?s w1) c (Some k1))"
      using phase_one [OF False, of cmd stof _ "?s w"] 1(1) by simp
    from run_of_Cons [OF this es(3)] es(1,2) show ?thesis
      by (intro exI [of _ "Phase (work_clock now now' k) # es"]) simp
  qed
qed

lemma dispatch_recv_run:
  assumes "dispatch_recv cmd stof c (u, w) = Some (Inr (True, u', w'))" and "uk_recvOwner u"
  shows "\<exists>es. length es \<le> 6 \<and> list_all worker_event es \<and> run_of (prog_step cmd stof) es
    (one_worker u \<lparr>sv_world = w, sv_main = pc\<rparr> c None) \<lparr>pg_socket = u', pg_server = \<lparr>sv_world = w', sv_main = pc\<rparr>, pg_workers = []\<rparr>"
proof -
  let ?s = "\<lambda>w. \<lparr>sv_world = w, sv_main = pc\<rparr>" let ?u = "u\<lparr>uk_recvOwner := False\<rparr>"
  have r: "ProcessRecv cmd stof True (uc_now c) (uc_now' c) (uc_recvFromAddr c) (uc_recvBuf c) (sint (uc_numOfBytes c)) w = Inr w'"
    "UdpSession_RegisterRecv (uc_os c) 0 ?u = Some u'"
    using assms(1) by (auto simp: dispatch_recv_eq RegisterRecv_eq split: sum.splits if_splits)
  have "phases cmd stof (uc_now c) (uc_now' c) 4 (datagram c) w = Inr (Idle, w')"
    unfolding datagram_def by (simp only: phases_rest rank.simps order.refl work_rest.simps) (simp add: r(1) finish_def)
  from phases_prog [OF this, of ?u pc c] obtain es where es: "length es \<le> 4" "list_all worker_event es"
    "run_of (prog_step cmd stof) es (one_worker ?u (?s w) c (Some (datagram c))) (one_worker ?u (?s w') c (Some Idle))" by blast
  have "prog_step cmd stof Rearms (one_worker ?u (?s w') c (Some Idle)) \<lparr>pg_socket = u', pg_server = ?s w', pg_workers = []\<rparr>"
    using rearms [of c ?u u' cmd stof "?s w'" "[]" "[]", OF r(2)] by simp
  from run_of_Cons [OF enter_one [OF assms(2)] run_step [OF es(3) this]] es(1,2) show ?thesis
    by (intro exI [of _ "Enters # es @ [Rearms]"]) simp
qed

section \<open>Properties\<close>

definition demo_posted :: udp_socket where
  "demo_posted = \<lparr>uk_recvOwner = True, uk_recvFromAddrLen = 16, uk_posted = 1\<rparr>"

definition demo_prog :: "small_redis prog" where
  "demo_prog = one_worker (demo_posted\<lparr>uk_posted := 0\<rparr>) (server_start ConnectNull []) demo_completion None"

lemma demo_prog_run:
  "run_of (prog_step small_cmd (\<lambda>_. Inr 0)) [Takes demo_completion] (prog_start demo_posted ConnectNull []) demo_prog"
proof -
  have "prog_step small_cmd (\<lambda>_. Inr 0) (Takes demo_completion) (prog_start demo_posted ConnectNull []) demo_prog"
    using takes [of demo_posted small_cmd "\<lambda>_. Inr 0" demo_completion "server_start ConnectNull []" "[]"]
    by (simp add: prog_start_def demo_prog_def demo_posted_def)
  from run_step [of "prog_step small_cmd (\<lambda>_. Inr 0)", OF run_refl this] show ?thesis by simp
qed

text \<open>
  C14: Once \<^verbatim>\<open>UdpService::Start\<close> has succeeded, at any time of any run of the whole program either the one
  receive is with the operating system or exactly one worker has its completion, however many
  workers there are; and what workers and main thread do is a run of the interleaved server, so
  everything proved for that one holds for the program.
\<close>

theorem program_interleaved:
  assumes "UdpService_Start r os new_udp_socket = Some (True, u)"
    and "run_of (prog_step cmd stof) es (prog_start u outcome redis) p"
  shows "uk_posted (pg_socket p) + length (pg_workers p) = 1 \<and>
    (\<exists>fs. length fs \<le> length es \<and>
      run_of (turn cmd stof) fs (server_start outcome redis, Idle) (pg_server p, prog_work p))"
  using prog_run_turns [OF assms(2) prog_start_ok(1,2) [OF assms(1)]] prog_start_ok(3) [OF assms(1), of outcome redis]
  by (auto simp: prog_ok_def prog_start_def)

theorem program_interleaved_witness:
  "uk_posted (pg_socket demo_prog) + length (pg_workers demo_prog) = 1 \<and>
   (\<exists>fs. length fs \<le> 1 \<and> run_of (turn small_cmd (\<lambda>_. Inr 0)) fs (server_start ConnectNull [], Idle) (pg_server demo_prog, Idle))"
  using program_interleaved [OF start_demo demo_prog_run [unfolded demo_posted_def]]
  by (simp add: prog_work_def demo_prog_def)

text \<open>
  C22: The server does not stop listening under these conditions: Redis behaves as documented, the stored
  players are presentable when the server starts, no datagram is longer than 1189 bytes, \<^verbatim>\<open>WSARecvFrom\<close>
  does not fail for ever, and fewer than \<open>2 ^ 64 - 1\<close> steps have been made. Then from every state
  reached so the workers alone bring the receive back to the operating system in at most six steps,
  whatever else the datagram in hand holds.
\<close>

theorem server_listens_again:
  assumes "redis_hashes cmd hash" and "\<And>k. presentable stof (hash redis k)"
    and "UdpService_Start r os new_udp_socket = Some (True, u)"
    and "run_of (prog_step cmd stof) es (prog_start u outcome redis) p" and "length es < 2 ^ 64 - 1"
    and "list_all small_take es" and "\<forall>c. Takes c \<in> set es \<longrightarrow> (\<exists>j. \<not> failed (uc_os c j))"
  shows "\<exists>fs q. length fs \<le> 6 \<and> list_all worker_event fs \<and> run_of (prog_step cmd stof) fs p q \<and>
    uk_posted (pg_socket q) = 1 \<and> uk_recvOwner (pg_socket q) \<and> pg_workers q = []"
proof -
  have ret: "list_all (\<lambda>c. \<exists>j. \<not> failed (uc_os c j)) (map pw_completion (pg_workers p))"
    by (rule returns_run [OF assms(4) _ assms(7)]) (simp add: prog_start_def)
  from prog_run_turns [OF assms(4) prog_start_ok(1,2) [OF assms(3)]] prog_start_ok(3) [OF assms(3), of outcome redis] assms(6)
  obtain gs where p: "prog_ok p" "small_workers p" and gs: "length gs \<le> length es" "list_all small_event gs"
    "run_of (turn cmd stof) gs (server_start outcome redis, Idle) (pg_server p, prog_work p)"
    by (auto simp: prog_start_def)
  have fine: "fine hash stof (sv_world (pg_server p))" "small_work (prog_work p)"
    using turns_fine [OF assms(1,2) gs(3,2)] gs(1) assms(5) by simp_all
  obtain v s ws where pv: "p = \<lparr>pg_socket = v, pg_server = s, pg_workers = ws\<rparr>" by (cases p)
  consider (posted) "ws = []" "uk_posted v = 1" "uk_recvOwner v"
    | (taken) c where "ws = [\<lparr>pw_completion = c, pw_work = None\<rparr>]" "uk_posted v = 0" "uk_recvOwner v"
    | (working) c k where "ws = [\<lparr>pw_completion = c, pw_work = Some k\<rparr>]" "uk_posted v = 0"
    using p(1) unfolding prog_ok_def pv
    by (cases ws; cases "hd ws"; cases "pw_work (hd ws)") auto
  then show ?thesis
  proof cases
    case posted
    with run_refl [of "prog_step cmd stof" p] show ?thesis by (intro exI [of _ "[]"] exI [of _ p]) (simp add: pv)
  next
    case (taken c)
    have "small_work (datagram c)" using p(2) by (simp add: pv taken small_workers_def datagram_def)
    from work_ends [OF assms(1) fine(1) this, of c "v\<lparr>uk_recvOwner := False\<rparr>"] ret obtain fs u' s' where
      "length fs \<le> Suc (rank (datagram c))" "list_all worker_event fs" "uk_posted u' = uk_posted v + 1" "uk_recvOwner u'"
      "run_of (prog_step cmd stof) fs (one_worker (v\<lparr>uk_recvOwner := False\<rparr>) s c (Some (datagram c))) \<lparr>pg_socket = u', pg_server = s', pg_workers = []\<rparr>"
      by (auto simp: pv taken)
    with run_of_Cons [of "prog_step cmd stof", OF enter_one [OF taken(3), of cmd stof s c]] taken(1,2)
      rank_le_4 [of "datagram c"] show ?thesis
      unfolding pv by (intro exI [of _ "Enters # fs"] exI [of _ "\<lparr>pg_socket = u', pg_server = s', pg_workers = []\<rparr>"]) auto
  next
    case (working c k)
    have "small_work k" using fine(2) by (simp add: pv working prog_work_def)
    from work_ends [OF assms(1) fine(1) this, of c v] ret obtain fs u' s' where
      "length fs \<le> Suc (rank k)" "list_all worker_event fs" "uk_posted u' = uk_posted v + 1" "uk_recvOwner u'"
      "run_of (prog_step cmd stof) fs (one_worker v s c (Some k)) \<lparr>pg_socket = u', pg_server = s', pg_workers = []\<rparr>"
      by (auto simp: pv working)
    with working rank_le_4 [of k] show ?thesis
      unfolding pv by (intro exI [of _ fs] exI [of _ "\<lparr>pg_socket = u', pg_server = s', pg_workers = []\<rparr>"]) auto
  qed
qed

theorem server_listens_again_witness:
  "\<exists>fs q. length fs \<le> 6 \<and> run_of (prog_step small_cmd (\<lambda>_. Inr 0)) fs demo_prog q \<and> uk_posted (pg_socket q) = 1"
proof -
  have "presentable (\<lambda>_. Inr 0) (small_hash [] k)" for k
    by (simp add: presentable_def readable_def small_hash_def text_len_def)
  moreover have "small_take (Takes demo_completion)" by (simp add: demo_completion_def)
  moreover have "\<not> failed (uc_os demo_completion 1)" by (simp add: demo_completion_def)
  ultimately show ?thesis
    using server_listens_again [OF small_redis_hashes _ start_demo demo_prog_run [unfolded demo_posted_def]]
    by fastforce
qed

end
