(* ===== verification/Duplicates.thy ===== *)
theory Duplicates
  imports ServerTurns
begin

text \<open>
  Repeated and overtaken datagrams at the grain of the phases: once the sequence number of a datagram
  has been stored, no datagram of the same client with the same or a smaller number gets past the
  check again, whatever happens between the phases. The step relation is the one of \<open>Interleaving\<close>,
  restricted to datagrams that are numbered, and \<open>table_machine\<close> is interpreted on it.
\<close>

section \<open>Numbered datagrams\<close>

text \<open>Number 0 is checked against nothing and stored all the same.\<close>

definition numbered :: "byte list \<Rightarrow> bool" where
  "numbered buf \<longleftrightarrow> (case load_header buf of Inl e \<Rightarrow> True | Inr h \<Rightarrow> ph_sequence h \<noteq> 0)"

definition shakes_hands :: "byte list \<Rightarrow> bool" where
  "shakes_hands buf \<longleftrightarrow> (case load_header buf of Inl e \<Rightarrow> True | Inr h \<Rightarrow> ph_sessionId h = 0)"

fun orderly_work :: "work \<Rightarrow> bool" where
  "orderly_work (Looking a buf n) \<longleftrightarrow> shakes_hands buf \<or> numbered buf"
| "orderly_work (Found ctx buf n) \<longleftrightarrow> numbered buf"
| "orderly_work k \<longleftrightarrow> True"

fun orderly :: "turn_event \<Rightarrow> bool" where
  "orderly (Arrives a buf n) \<longleftrightarrow> shakes_hands buf \<or> numbered buf"
| "orderly e \<longleftrightarrow> True"

definition orderly_turn ::
  "'s redis_command \<Rightarrow> (string \<Rightarrow> f32 result) \<Rightarrow> turn_event \<Rightarrow> 's server \<times> work \<Rightarrow> 's server \<times> work \<Rightarrow> bool" where
  "orderly_turn cmd stof e p q \<longleftrightarrow> turn cmd stof e p q \<and> orderly_work (snd p)"

lemma work_step_orderly: "work_step cmd stof now k w = Inr (k', w') \<Longrightarrow> orderly_work k \<Longrightarrow> orderly_work k'"
proof (cases k)
  case (Looking a buf n)
  moreover assume "work_step cmd stof now k w = Inr (k', w')" "orderly_work k"
  ultimately show ?thesis
    by (auto simp: work_lookup_def bindr_Inr_iff numbered_def shakes_hands_def split_beta split: if_splits option.splits)
next
  case (Found ctx buf n)
  moreover assume "work_step cmd stof now k w = Inr (k', w')"
  ultimately show ?thesis by (auto simp: work_stamp_def bindr_Inr_iff split: if_splits)
next
  case (Handling ctx buf n)
  moreover assume "work_step cmd stof now k w = Inr (k', w')"
  ultimately have "rank k' \<le> 1" using rank_handle by fastforce
  then show ?thesis by (cases k') simp_all
qed auto

lemma turn_orderly: "turn cmd stof e p q \<Longrightarrow> orderly e \<Longrightarrow> orderly_work (snd p) \<Longrightarrow> orderly_work (snd q)"
  by (induction rule: turn.induct) (auto intro: work_step_orderly)

lemma orderly_run:
  "run_of (turn cmd stof) es p q \<Longrightarrow> list_all orderly es \<Longrightarrow> orderly_work (snd p) \<Longrightarrow>
     orderly_work (snd q) \<and> run_of (orderly_turn cmd stof) es p q"
proof (induction rule: run_of.induct)
  case (run_step es p q e r)
  then show ?case by (auto simp: orderly_turn_def intro: run_of.run_step turn_orderly)
qed (simp add: run_refl)

section \<open>The last number of a client only grows\<close>

lemma stamp_grows:
  assumes "work_stamp now ctx buf n w = Inr (k, w')" and "numbered buf"
  shows "ctx_lastSeq (us_ctxs (w_svc w) r) \<le> ctx_lastSeq (us_ctxs (w_svc w') r)"
  using assms by (auto simp: work_stamp_def bindr_Inr_iff numbered_def split: if_splits)

lemma work_step_grows:
  assumes "work_step cmd stof now k w = Inr (k', w')" and "registry_ok (w_svc w)" and "orderly_work k"
  shows "table_step True (w_svc w) (w_svc w')"
  using assms(1,2)
proof (cases rule: work_step_cases)
  case (register a buf n ctx)
  then have "w_svc w' = snd (RegisterClient now a (w_svc w))" by simp
  with table_step_RegisterClient [OF assms(2)] show ?thesis by simp
next
  case (stamp ctx buf n q)
  have "ctx_lastSeq (us_ctxs (w_svc w) r) \<le> ctx_lastSeq (us_ctxs (w_svc w') r)" for r
    using assms(1,3) stamp_grows by (simp add: stamp(1))
  with work_step_table [OF assms(1,2)] show ?thesis by (simp add: table_step_def)
next
  case (send ctx)
  then show ?thesis by (simp add: sends_def table_step_same)
qed (simp_all add: table_step_same)

interpretation orderly: table_machine "orderly_turn cmd stof" "\<lambda>p. sv_svc (fst p)" "\<lambda>_. True" for cmd stof
proof unfold_locales
  fix e and p q :: "'a server \<times> work"
  assume t: "orderly_turn cmd stof e p q" and ok: "registry_ok (sv_svc (fst p))"
  have "orderly_work (snd p)" "turn cmd stof e p q" using t by (simp_all add: orderly_turn_def)
  note o = this(1) from \<open>turn cmd stof e p q\<close>
  show "table_step True (sv_svc (fst p)) (sv_svc (fst q))"
  proof cases
    case (work k now s k' w')
    with work_step_grows [OF work(5)] ok o show ?thesis by simp
  next
    case (main e s t k)
    have "in_order e" using main(5) by (cases e) (simp_all add: in_order_def)
    with server_step_table [OF main(4)] ok main show ?thesis by simp
  qed (simp add: table_step_same)
next
  fix e and p q :: "'a server \<times> work"
  assume "orderly_turn cmd stof e p q" "registry_ok (sv_svc (fst p))" "has_room (sv_svc (fst p))"
  then show "registry_ok (sv_svc (fst q))" by (auto simp: orderly_turn_def dest: turns.step_registry)
qed

section \<open>A heartbeat that arrives twice\<close>

definition demo_beats :: "byte list" where
  "demo_beats = header_bytes 1 4 302 @ [0]"

definition beaten :: "i64 \<Rightarrow> small_redis server \<Rightarrow> small_redis server" where
  "beaten now s = s\<lparr>sv_world := map_svc (upd_ctx 0 (\<lambda>c. c\<lparr>ctx_lastSeq := 4, ctx_lastAliveMs := now\<rparr>)) (sv_world s)\<rparr>"

lemma demo_beats_header:
  "\<exists>h. load_header demo_beats = Inr h \<and> ph_sessionId h = 1 \<and> ph_sequence h = 4 \<and> ph_id h = packet_id C_LOBBY_HEARTBEAT"
  unfolding demo_beats_def by (intro exI conjI, rule load_header_bytes) simp_all

lemma looks_up:
  assumes "FindByAddr (demo_addr 8) (sv_svc s) = Some 0"
  shows "run_of (turn small_cmd (\<lambda>_. Inr 0)) [Arrives (demo_addr 8) demo_beats 14, Works 7] (s, Idle) (s, Found 0 demo_beats 14)"
proof -
  obtain h where h: "load_header demo_beats = Inr h" "ph_sessionId h = 1" using demo_beats_header by blast
  have "turn small_cmd (\<lambda>_. Inr 0) (Works 7) (s, Looking (demo_addr 8) demo_beats 14) (s, Found 0 demo_beats 14)"
    using work [of "Looking (demo_addr 8) demo_beats 14" small_cmd "\<lambda>_. Inr 0" 7 s] assms h
    by (simp add: work_lookup_def UDP_HEADER_SIZE_def)
  with arrive show ?thesis by (blast intro: run_of_Cons run_refl)
qed

lemma stamps:
  assumes "ctx_lastSeq (ctx_of 0 (sv_world s)) < 4"
  shows "turn small_cmd (\<lambda>_. Inr 0) (Works 7) (s, Found 0 demo_beats 14) (beaten 7 s, Handling 0 demo_beats 14)"
proof -
  obtain h where h: "load_header demo_beats = Inr h" "ph_sequence h = 4" using demo_beats_header by blast
  have "\<not> ph_sequence h \<le> ctx_lastSeq (ctx_of 0 (sv_world s))" using assms h(2) by simp
  then show ?thesis
    using work [of "Found 0 demo_beats 14" small_cmd "\<lambda>_. Inr 0" 7 s] h
    by (simp add: work_stamp_def beaten_def map_svc_def)
qed

lemma beats: "turn small_cmd (\<lambda>_. Inr 0) (Works 8) (beaten 7 s, Handling 0 demo_beats 14) (beaten 8 s, Idle)"
proof -
  obtain h where h: "load_header demo_beats = Inr h" "ph_id h = packet_id C_LOBBY_HEARTBEAT" using demo_beats_header by blast
  have "work_handle small_cmd (\<lambda>_. Inr 0) 8 0 demo_beats 14 (sv_world (beaten 7 s)) = Inr (Idle, sv_world (beaten 8 s))"
    using h by (simp add: work_handle_def Handle_C_LOBBY_HEARTBEAT_def beaten_def map_svc_def upd_ctx_def)
  then show ?thesis
    using work [of "Handling 0 demo_beats 14" small_cmd "\<lambda>_. Inr 0" 8 "beaten 7 s"] by (simp add: beaten_def)
qed

lemma beaten_FindByAddr: "FindByAddr a (sv_svc (beaten now s)) = FindByAddr a (sv_svc s)"
  by (auto simp: beaten_def map_svc_def FindByAddr_def upd_ctx_def Let_def split: option.split)

section \<open>Properties\<close>

text \<open>
  C6: A datagram gets past the check at most once as long as no datagram numbered 0, other than a handshake,
  arrives in between (\<open>orderly\<close>; one numbered 0 resets the check): when the worker has looked up the
  client of a datagram and taken its phase of the check, then at any later point of the interleaving a
  datagram for the same client with the same or a smaller non-zero number is dropped there, with no
  effect at all. Only a client that was removed and registered anew, under another context, starts
  from 0 again.
\<close>

theorem checked_at_most_once:
  assumes "run_of (turn cmd stof) es (server_start outcome redis, Idle) (s, Found r buf n)"
    and "load_header buf = Inr h" "ph_sequence h \<noteq> 0"
    and "turn cmd stof (Works now) (s, Found r buf n) p"
    and "run_of (turn cmd stof) fs p (t, Found r buf' n')" and "list_all orderly fs"
    and "load_header buf' = Inr h'" "ph_sequence h' \<noteq> 0" "ph_sequence h' \<le> ph_sequence h"
    and "length es + length fs < 2 ^ 64 - 2"
  shows "turn cmd stof (Works late) (t, Found r buf' n') q \<longleftrightarrow> q = (t, Idle)"
proof -
  have ok: "registry_ok (sv_svc s)" "unat (us_sCounter (sv_svc s)) \<le> 1 + length es"
    using turns.run_ok [OF assms(1)] assms(10) start_ok [of outcome redis] by simp_all
  have r: "r < us_nextRef (sv_svc s)" using turns_work_ok [OF assms(1)] assms(10) by (simp add: work_ok_def)
  have room: "has_room (sv_svc s)" using ok(2) assms(10) by (intro has_room_below) simp
  note ok1 = turns.step_registry [OF assms(4), simplified, OF ok(1) room]
  from assms(4) obtain k' w' where w': "work_stamp now r buf n (sv_world s) = Inr (k', w')" "p = (s\<lparr>sv_world := w'\<rparr>, k')"
    by cases auto
  have stamped: "ph_sequence h \<le> ctx_lastSeq (us_ctxs (w_svc w') r)" and k': "orderly_work k'"
    and same: "us_nextRef (w_svc w') = us_nextRef (sv_svc s)" "us_sCounter (w_svc w') = us_sCounter (sv_svc s)"
    using w'(1) assms(2,3) by (auto simp: work_stamp_def split: if_splits)
  have "run_of (orderly_turn cmd stof) fs p (t, Found r buf' n')"
    using orderly_run [OF assms(5,6)] k' by (simp add: w'(2))
  from orderly.run_lastSeq [OF this, of r] have "ctx_lastSeq (us_ctxs (w_svc w') r) \<le> ctx_lastSeq (us_ctxs (sv_svc t) r)"
    using ok1 ok(2) r assms(10) by (simp add: w'(2) same)
  with stamped assms(9) have stale: "ph_sequence h' \<le> ctx_lastSeq (us_ctxs (sv_svc t) r)" by simp
  with assms(7,8) have "work_stamp late r buf' n' (sv_world t) = Inr (Idle, sv_world t)" by (simp add: work_stamp_def)
  note drop = this
  have "turn cmd stof (Works late) (t, Found r buf' n') (t, Idle)"
    using work [of "Found r buf' n'" cmd stof late t] drop by simp
  moreover have "q = (t, Idle)" if "turn cmd stof (Works late) (t, Found r buf' n') q"
    using that drop by cases auto
  ultimately show ?thesis by blast
qed

theorem checked_at_most_once_witness:
  "\<forall>q. turn small_cmd (\<lambda>_. Inr 0) (Works 9) (beaten 8 demo_server, Found 0 demo_beats 14) q \<longleftrightarrow> q = (beaten 8 demo_server, Idle)"
proof -
  obtain h where h: "load_header demo_beats = Inr h" "ph_sequence h \<noteq> 0" using demo_beats_header by auto
  obtain es where es: "length es \<le> 5" "run_of (turn small_cmd (\<lambda>_. Inr 0)) es (server_start ConnectNull [], Idle) (demo_server, Idle)"
    using server_path_turns [OF demo_run] by auto
  have first: "run_of (turn small_cmd (\<lambda>_. Inr 0)) (es @ [Arrives (demo_addr 8) demo_beats 14, Works 7])
      (server_start ConnectNull [], Idle) (demo_server, Found 0 demo_beats 14)"
    by (rule run_of_append [OF looks_up [OF demo_beat(2)] es(2)])
  have st: "turn small_cmd (\<lambda>_. Inr 0) (Works 7) (demo_server, Found 0 demo_beats 14) (beaten 7 demo_server, Handling 0 demo_beats 14)"
    by (rule stamps) (simp add: demo_server_def)
  have "FindByAddr (demo_addr 8) (sv_svc (beaten 8 demo_server)) = Some 0" by (simp add: beaten_FindByAddr demo_beat(2))
  from run_of_Cons [of "turn small_cmd (\<lambda>_. Inr 0)", OF beats looks_up [OF this]]
  have again: "run_of (turn small_cmd (\<lambda>_. Inr 0)) [Works 8, Arrives (demo_addr 8) demo_beats 14, Works 7]
      (beaten 7 demo_server, Handling 0 demo_beats 14) (beaten 8 demo_server, Found 0 demo_beats 14)" .
  have "list_all orderly [Works 8, Arrives (demo_addr 8) demo_beats 14, Works 7]" using h by (simp add: numbered_def)
  from checked_at_most_once [OF first h st again this h order.refl] es(1) show ?thesis by simp
qed

end
