(* ===== verification/TickCollect.thy ===== *)
theory TickCollect
  imports ServerTurns "HOL-Library.Sublist"
begin

text \<open>
  The collecting loop of \<^verbatim>\<open>UdpService::Tick\<close> client by client. The loop holds the read lock of the table,
  so no client comes or goes meanwhile; but the worker stores \<^verbatim>\<open>lastAliveMs\<close> without a lock, so the
  time of each client is read at a different moment. The other theories collect in one step; here it
  is shown how far the two can differ.
\<close>

section \<open>The loop beside the worker\<close>

definition expired :: "i64 \<Rightarrow> udp_service \<Rightarrow> ctxref \<Rightarrow> bool" where
  "expired now s r \<longleftrightarrow> SESSION_TIMEOUT_MS <s now - ctx_lastAliveMs (us_ctxs s r)"

text \<open>The one phase that takes the write lock, and so has to wait for the loop, is the registration.\<close>

fun takes_write_lock :: "work \<Rightarrow> bool" where
  "takes_write_lock (Looking a buf n) \<longleftrightarrow> int UDP_HEADER_SIZE \<le> n \<and>
     (case load_header buf of Inl e \<Rightarrow> False | Inr h \<Rightarrow> ph_sessionId h = 0)"
| "takes_write_lock k \<longleftrightarrow> False"

record 's collector =
  co_world :: "'s world"
  co_work :: work
  co_todo :: "(u64 \<times> ctxref) list"
  co_expired :: "u64 list"

datatype collect_event = Reads | WorkerAt i64

inductive collect_step ::
  "'s redis_command \<Rightarrow> (string \<Rightarrow> f32 result) \<Rightarrow> i64 \<Rightarrow> collect_event \<Rightarrow> 's collector \<Rightarrow> 's collector \<Rightarrow> bool"
  for cmd stof now where
  reads: "collect_step cmd stof now Reads
      \<lparr>co_world = w, co_work = k, co_todo = (i, r) # todo, co_expired = ids\<rparr>
      \<lparr>co_world = w, co_work = k, co_todo = todo, co_expired = (if expired now (w_svc w) r then ids @ [i] else ids)\<rparr>"
| worker: "\<not> takes_write_lock k \<Longrightarrow> work_step cmd stof t k w = Inr (k', w') \<Longrightarrow>
    collect_step cmd stof now (WorkerAt t)
      \<lparr>co_world = w, co_work = k, co_todo = todo, co_expired = ids\<rparr>
      \<lparr>co_world = w', co_work = k', co_todo = todo, co_expired = ids\<rparr>"


section \<open>What the worker does to the times\<close>

definition alive_step :: "i64 \<Rightarrow> udp_service \<Rightarrow> udp_service \<Rightarrow> bool" where
  "alive_step t s s' \<longleftrightarrow> us_idMap s' = us_idMap s \<and>
     (\<forall>r. ctx_lastAliveMs (us_ctxs s' r) = ctx_lastAliveMs (us_ctxs s r) \<or> ctx_lastAliveMs (us_ctxs s' r) = t)"

lemma alive_step_refl [simp]: "alive_step t s s"
  by (simp add: alive_step_def)

lemma alive_step_sent [simp]: "alive_step t s (s'\<lparr>us_sent := ds\<rparr>) = alive_step t s s'"
  by (simp add: alive_step_def)










section \<open>What the loop collects\<close>






text \<open>Without the worker the loop is \<^const>\<open>Tick_collect\<close>.\<close>

lemma collect_alone:
  "run_of (collect_step cmd stof now) (replicate (length todo) Reads)
     \<lparr>co_world = w, co_work = k, co_todo = todo, co_expired = ids\<rparr>
     \<lparr>co_world = w, co_work = k, co_todo = [], co_expired = ids @ map fst (filter (\<lambda>(i, r). expired now (w_svc w) r) todo)\<rparr>"
proof (induction todo arbitrary: ids)
  case Nil
  then show ?case using run_refl by simp
next
  case (Cons ir todo)
  obtain i r where ir: "ir = (i, r)" by fastforce
  let ?ids = "if expired now (w_svc w) r then ids @ [i] else ids"
  from run_of_Cons [of "collect_step cmd stof now", OF reads [of cmd stof now w k i r todo ids] Cons.IH [of ?ids]]
  show ?case by (simp add: ir split: if_splits)
qed



section \<open>Properties\<close>





end
