(* ===== verification/RecvBuffer.thy ===== *)
theory RecvBuffer
  imports Buffers
begin

text \<open>
  \<^verbatim>\<open>ServerCore/RecvBuffer\<close>: the receive buffer of a TCP session, a memory ten times as large as one
  receive, with a read and a write cursor. \<open>rb_data\<close> is what has been received and not yet read.
  Cursors are \<^verbatim>\<open>int32\<close>, so 32-bit words compared as signed numbers. A \<^verbatim>\<open>memcpy\<close> between
  overlapping regions is the fault \<open>Overlap\<close>.
\<close>

record recv_buffer =
  rb_capacity :: i32
  rb_bufferSize :: i32
  rb_readPos :: i32
  rb_writePos :: i32
  rb_buffer :: "byte list"

definition BUFFER_COUNT :: i32 where "BUFFER_COUNT = 10"

definition RecvBuffer :: "i32 \<Rightarrow> recv_buffer" where
  "RecvBuffer bufferSize =
     (let capacity = bufferSize * BUFFER_COUNT
      in \<lparr>rb_capacity = capacity, rb_bufferSize = bufferSize, rb_readPos = 0, rb_writePos = 0,
          rb_buffer = replicate (nat (sint capacity)) 0\<rparr>)"

definition rb_DataSize :: "recv_buffer \<Rightarrow> i32" where
  "rb_DataSize b = rb_writePos b - rb_readPos b"

definition rb_FreeSize :: "recv_buffer \<Rightarrow> i32" where
  "rb_FreeSize b = rb_capacity b - rb_writePos b"

definition rb_memcpy :: "nat \<Rightarrow> nat \<Rightarrow> nat \<Rightarrow> byte list \<Rightarrow> byte list result" where
  "rb_memcpy dest src n buf =
     (if length buf < dest + n \<or> length buf < src + n then Inl OutOfBounds
      else if dest < src + n \<and> src < dest + n then Inl Overlap
      else Inr (blit dest (take n (drop src buf)) buf))"

definition rb_Clean :: "recv_buffer \<Rightarrow> recv_buffer result" where
  "rb_Clean b =
     (let dataSize = rb_DataSize b in
      if dataSize = 0 then Inr (b\<lparr>rb_readPos := 0, rb_writePos := 0\<rparr>)
      else if rb_FreeSize b <s rb_bufferSize b
      then bindr (rb_memcpy 0 (nat (sint (rb_readPos b))) (nat (sint dataSize)) (rb_buffer b)) (\<lambda>buf.
             Inr (b\<lparr>rb_buffer := buf, rb_readPos := 0, rb_writePos := dataSize\<rparr>))
      else Inr b)"

definition rb_OnRead :: "i32 \<Rightarrow> recv_buffer \<Rightarrow> bool \<times> recv_buffer" where
  "rb_OnRead n b = (if rb_DataSize b <s n then (False, b) else (True, b\<lparr>rb_readPos := rb_readPos b + n\<rparr>))"

definition rb_OnWrite :: "i32 \<Rightarrow> recv_buffer \<Rightarrow> bool \<times> recv_buffer" where
  "rb_OnWrite n b = (if rb_FreeSize b <s n then (False, b) else (True, b\<lparr>rb_writePos := rb_writePos b + n\<rparr>))"

text \<open>The operating system fills the memory at a position, usually \<open>WritePos()\<close>, with what has arrived.\<close>

definition rb_fill :: "i32 \<Rightarrow> byte list \<Rightarrow> recv_buffer \<Rightarrow> recv_buffer" where
  "rb_fill pos bs b = b\<lparr>rb_buffer := blit (nat (sint pos)) bs (rb_buffer b)\<rparr>"

definition rb_arrive :: "byte list \<Rightarrow> recv_buffer \<Rightarrow> recv_buffer" where
  "rb_arrive bs b = rb_fill (rb_writePos b) bs b"

definition rb_data :: "recv_buffer \<Rightarrow> byte list" where
  "rb_data b = take (nat (sint (rb_DataSize b))) (drop (nat (sint (rb_readPos b))) (rb_buffer b))"

section \<open>The contract of a receive buffer\<close>

locale byte_queue =
  fixes ok :: "'s \<Rightarrow> bool"
    and content :: "'s \<Rightarrow> byte list"
    and room :: "'s \<Rightarrow> nat"
    and unit_size :: nat
    and put :: "byte list \<Rightarrow> 's \<Rightarrow> bool \<times> 's"
    and pop :: "nat \<Rightarrow> 's \<Rightarrow> bool \<times> 's"
    and clean :: "'s \<Rightarrow> 's result"
  assumes put: "ok s \<Longrightarrow> length bs \<le> room s \<Longrightarrow> \<exists>s'. put bs s = (True, s') \<and> ok s' \<and> content s' = content s @ bs"
    and pop: "ok s \<Longrightarrow> n \<le> length (content s) \<Longrightarrow> \<exists>s'. pop n s = (True, s') \<and> ok s' \<and> content s' = drop n (content s)"
    and clean: "ok s \<Longrightarrow> length (content s) < unit_size \<Longrightarrow>
      \<exists>s'. clean s = Inr s' \<and> ok s' \<and> content s' = content s \<and> unit_size \<le> room s'"
begin

lemma cycle:
  assumes "ok s" "length bs \<le> room s" "n \<le> length (content s @ bs)" "length (content s @ bs) - n < unit_size"
  obtains s1 s2 s3 where "put bs s = (True, s1)" "content s1 = content s @ bs" "pop n s1 = (True, s2)"
    "clean s2 = Inr s3" "ok s3" "content s3 = drop n (content s @ bs)" "unit_size \<le> room s3"
proof -
  obtain s1 where s1: "put bs s = (True, s1)" "ok s1" "content s1 = content s @ bs"
    using put [OF assms(1,2)] by blast
  then obtain s2 where s2: "pop n s1 = (True, s2)" "ok s2" "content s2 = drop n (content s @ bs)"
    using pop [of s1 n] assms(3) by auto
  have "length (content s2) < unit_size" unfolding s2(3) length_drop by (rule assms(4))
  from clean [OF s2(2) this] obtain s3 where "clean s2 = Inr s3" "ok s3" "content s3 = content s2" "unit_size \<le> room s3"
    by blast
  with s1 s2 that show thesis by metis
qed

end

section \<open>The buffer satisfies it\<close>

definition rb_ok :: "recv_buffer \<Rightarrow> bool" where
  "rb_ok b \<longleftrightarrow> 0 \<le> sint (rb_readPos b) \<and> sint (rb_readPos b) \<le> sint (rb_writePos b) \<and>
     sint (rb_writePos b) \<le> 0xA0000 \<and> rb_bufferSize b = 0x10000 \<and> rb_capacity b = 0xA0000 \<and>
     length (rb_buffer b) = 0xA0000"

definition rb_room :: "recv_buffer \<Rightarrow> nat" where
  "rb_room b = nat (sint (rb_FreeSize b))"

definition rb_put :: "byte list \<Rightarrow> recv_buffer \<Rightarrow> bool \<times> recv_buffer" where
  "rb_put bs b = rb_OnWrite (of_nat (length bs)) (rb_arrive bs b)"

definition rb_pop :: "nat \<Rightarrow> recv_buffer \<Rightarrow> bool \<times> recv_buffer" where
  "rb_pop n b = rb_OnRead (of_nat n) b"

lemma rb_ok_init: "rb_ok (RecvBuffer 0x10000) \<and> rb_data (RecvBuffer 0x10000) = [] \<and> rb_room (RecvBuffer 0x10000) = 0xA0000"
  by (simp add: rb_ok_def RecvBuffer_def BUFFER_COUNT_def rb_data_def rb_DataSize_def rb_room_def rb_FreeSize_def)

lemma rb_positions:
  assumes "rb_ok b"
  shows "0 \<le> sint (rb_readPos b)" "sint (rb_readPos b) \<le> sint (rb_writePos b)" "sint (rb_writePos b) \<le> 0xA0000"
    "length (rb_buffer b) = 0xA0000" "rb_bufferSize b = 0x10000"
proof -
  have "sint (rb_capacity b) = 0xA0000" using assms by (simp add: rb_ok_def)
  with assms show "0 \<le> sint (rb_readPos b)" "sint (rb_readPos b) \<le> sint (rb_writePos b)" "sint (rb_writePos b) \<le> 0xA0000"
    "length (rb_buffer b) = 0xA0000" "rb_bufferSize b = 0x10000" by (simp_all add: rb_ok_def)
qed

lemma rb_sizes:
  assumes "rb_ok b"
  shows "sint (rb_DataSize b) = sint (rb_writePos b) - sint (rb_readPos b)"
    and "sint (rb_FreeSize b) = 0xA0000 - sint (rb_writePos b)"
    and "length (rb_data b) = nat (sint (rb_writePos b) - sint (rb_readPos b))"
proof -
  have c: "sint (rb_capacity b) = 0xA0000" using assms by (simp add: rb_ok_def)
  show d: "sint (rb_DataSize b) = sint (rb_writePos b) - sint (rb_readPos b)"
    using assms by (simp add: rb_DataSize_def rb_ok_def sint_diff)
  show "sint (rb_FreeSize b) = 0xA0000 - sint (rb_writePos b)"
    using assms c sint_diff [of "rb_writePos b" "rb_capacity b"] by (simp add: rb_FreeSize_def rb_ok_def)
  have "nat (sint (rb_writePos b) - sint (rb_readPos b)) \<le> 0xA0000 - nat (sint (rb_readPos b))"
    using assms c unfolding rb_ok_def by linarith
  then show "length (rb_data b) = nat (sint (rb_writePos b) - sint (rb_readPos b))"
    using assms by (simp add: rb_data_def d rb_ok_def)
qed

lemma sint_of_nat_i32: "n < 2 ^ 31 \<Longrightarrow> sint (of_nat n :: i32) = int n"
  by (simp add: signed_of_nat signed_take_bit_int_eq_self)

lemma sint_add_i32:
  "0 \<le> sint (x :: i32) \<Longrightarrow> 0 \<le> sint y \<Longrightarrow> sint x + sint y < 2 ^ 31 \<Longrightarrow> sint (x + y) = sint x + sint y"
  by (simp add: sint_word_ariths(1) signed_take_bit_int_eq_self)

lemma rb_put_ok:
  assumes "rb_ok b" "length bs \<le> rb_room b"
  shows "\<exists>b'. rb_put bs b = (True, b') \<and> rb_ok b' \<and> rb_data b' = rb_data b @ bs"
proof -
  let ?r = "sint (rb_readPos b)" and ?w = "sint (rb_writePos b)"
  note pos = rb_positions(1-3) [OF assms(1)] and len = rb_positions(4) [OF assms(1)]
  have n: "int (length bs) \<le> 0xA0000 - ?w" using assms pos by (simp add: rb_room_def rb_sizes)
  then have sn: "sint (of_nat (length bs) :: i32) = int (length bs)" using pos by (intro sint_of_nat_i32) simp
  then have w': "sint (rb_writePos b + of_nat (length bs)) = ?w + int (length bs)"
    using n pos by (subst sint_add_i32) simp_all
  let ?b = "(rb_arrive bs b)\<lparr>rb_writePos := rb_writePos b + of_nat (length bs)\<rparr>"
  have put: "rb_put bs b = (True, ?b)"
    using n sn rb_sizes(2) [OF assms(1)]
    by (simp add: rb_put_def rb_OnWrite_def rb_arrive_def rb_fill_def rb_FreeSize_def word_sless_alt)
  have ok: "rb_ok ?b"
    using assms(1) n w' pos len by (simp add: rb_ok_def rb_arrive_def rb_fill_def length_blit)
  have "rb_data ?b = rb_data b @ bs"
  proof -
    have "take (nat ?w - nat ?r) (drop (nat ?r) (rb_buffer b)) = drop (nat ?r) (take (nat ?w) (rb_buffer b))"
      by (simp add: drop_take)
    moreover have "nat ?r \<le> nat ?w" "nat ?w + length bs \<le> length (rb_buffer b)" using n pos len by simp_all
    moreover have "nat (?w + int (length bs) - ?r) = nat ?w - nat ?r + length bs" using pos by simp
    ultimately show ?thesis
      using rb_sizes(1) [OF ok] rb_sizes(1) [OF assms(1)] pos
      by (simp add: rb_data_def w' rb_arrive_def rb_fill_def blit_def nat_diff_distrib) linarith
  qed
  with put ok show ?thesis by blast
qed

lemma rb_pop_ok:
  assumes "rb_ok b" "n \<le> length (rb_data b)"
  shows "\<exists>b'. rb_pop n b = (True, b') \<and> rb_ok b' \<and> rb_data b' = drop n (rb_data b)"
proof -
  let ?r = "sint (rb_readPos b)" and ?w = "sint (rb_writePos b)"
  note pos = rb_positions(1-3) [OF assms(1)]
  have n: "int n \<le> ?w - ?r" using assms(2) pos by (simp add: rb_sizes [OF assms(1)])
  then have sn: "sint (of_nat n :: i32) = int n" using pos by (intro sint_of_nat_i32) simp
  then have r': "sint (rb_readPos b + of_nat n) = ?r + int n"
    using n pos by (subst sint_add_i32) simp_all
  let ?b = "b\<lparr>rb_readPos := rb_readPos b + of_nat n\<rparr>"
  have "rb_pop n b = (True, ?b)"
    using n sn rb_sizes(1) [OF assms(1)] by (simp add: rb_pop_def rb_OnRead_def word_sless_alt)
  moreover have ok: "rb_ok ?b" using assms(1) n r' by (simp add: rb_ok_def)
  moreover have "rb_data ?b = drop n (rb_data b)"
  proof -
    have "nat (?w - ?r) - n = nat (?w - (?r + int n))" "nat (?r + int n) = n + nat ?r" using n pos by simp_all
    then show ?thesis
      using rb_sizes(1) [OF ok] rb_sizes(1) [OF assms(1)] by (simp add: rb_data_def r' drop_take)
  qed
  ultimately show ?thesis by blast
qed

lemma rb_Clean_ok:
  assumes "rb_ok b" "length (rb_data b) < 0x10000"
  shows "\<exists>b'. rb_Clean b = Inr b' \<and> rb_ok b' \<and> rb_data b' = rb_data b \<and> 0x10000 \<le> rb_room b'"
proof -
  let ?r = "sint (rb_readPos b)" and ?w = "sint (rb_writePos b)"
  note pos = rb_positions(1-3) [OF assms(1)] and len = rb_positions(4) [OF assms(1)]
    and bs = rb_positions(5) [OF assms(1)]
  note sz = rb_sizes [OF assms(1)]
  have d: "?w - ?r < 0x10000" using assms(2) pos by (simp add: sz)
  consider "rb_DataSize b = 0" | "rb_DataSize b \<noteq> 0" "rb_FreeSize b <s 0x10000"
    | "rb_DataSize b \<noteq> 0" "\<not> rb_FreeSize b <s 0x10000" by blast
  then show ?thesis
  proof cases
    case 1
    then have "rb_data b = []" by (simp add: rb_data_def)
    with 1 assms(1) show ?thesis
      by (simp add: rb_Clean_def rb_ok_def rb_data_def rb_DataSize_def rb_room_def rb_FreeSize_def)
  next
    case 2
    then have far: "0x90000 < ?w" by (simp add: word_sless_alt sz)
    let ?buf = "blit 0 (take (nat (?w - ?r)) (drop (nat ?r) (rb_buffer b))) (rb_buffer b)"
    let ?b = "b\<lparr>rb_buffer := ?buf, rb_readPos := 0, rb_writePos := rb_DataSize b\<rparr>"
    have n: "nat (?w - ?r) \<le> 0xA0000 - nat ?r" "nat (?w - ?r) \<le> nat ?r" using pos d far by linarith+
    then have len': "length (take (nat (?w - ?r)) (drop (nat ?r) (rb_buffer b))) = nat (?w - ?r)"
      using len by simp
    have "nat ?r + nat (?w - ?r) \<le> 0xA0000" using pos by linarith
    then have "rb_memcpy 0 (nat ?r) (nat (?w - ?r)) (rb_buffer b) = Inr ?buf"
      using n(1) len pos d far by (simp add: rb_memcpy_def)
    then have "rb_Clean b = Inr ?b"
      using 2 bs by (simp add: rb_Clean_def sz)
    moreover have ok: "rb_ok ?b"
      using assms(1) pos d len n by (simp add: rb_ok_def sz length_blit len')
    moreover have "rb_data ?b = rb_data b"
      using rb_sizes(1) [OF ok] len' by (simp add: rb_data_def sz blit_def)
    moreover have "0x10000 \<le> rb_room ?b"
      using rb_sizes(2) [OF ok] pos d by (simp add: rb_room_def sz)
    ultimately show ?thesis by blast
  next
    case 3
    then have "0x10000 \<le> rb_room b" by (simp add: rb_room_def word_sless_alt)
    with 3 assms bs show ?thesis by (simp add: rb_Clean_def)
  qed
qed

interpretation rb: byte_queue rb_ok rb_data rb_room "0x10000" rb_put rb_pop rb_Clean
  using rb_put_ok rb_pop_ok rb_Clean_ok by unfold_locales auto

end
