(* ===== verification/Framing.thy ===== *)
theory Framing
  imports RecvBuffer
begin

text \<open>
  \<^verbatim>\<open>PacketSession::OnRecv\<close> (\<^verbatim>\<open>ServerCore/Session.cpp\<close>): cutting a TCP stream into packets.
\<close>

definition PACKET_HEADER_SIZE :: nat where "PACKET_HEADER_SIZE = 4"

definition header_size :: "byte list \<Rightarrow> nat" where
  "header_size bs = unat (dec_u16 (take 2 bs))"

text \<open>
  The loop of \<^verbatim>\<open>OnRecv\<close>. The packets handed to \<^verbatim>\<open>OnRecvPacket\<close> are collected in \<open>out\<close>. A header of
  size 0 keeps the loop where it is, so it may not end: \<^const>\<open>None\<close> is a loop that does not return.
\<close>

partial_function (option) OnRecv_loop ::
  "byte list \<Rightarrow> nat \<Rightarrow> byte list list \<Rightarrow> (byte list list \<times> nat) option" where
  "OnRecv_loop buffer processLen out =
     (let dataSize = length buffer - processLen in
      if dataSize < PACKET_HEADER_SIZE then Some (out, processLen)
      else let size = header_size (drop processLen buffer) in
        if dataSize < size then Some (out, processLen)
        else OnRecv_loop buffer (processLen + size) (out @ [take size (drop processLen buffer)]))"

definition OnRecv :: "byte list \<Rightarrow> (byte list list \<times> nat) option" where
  "OnRecv buffer = OnRecv_loop buffer 0 []"

section \<open>The packets of a stream\<close>

text \<open>
  The packets a byte stream consists of and the incomplete rest. A rest of at least four bytes with
  size 0 in its header is one the server never gets past.
\<close>

function frames :: "byte list \<Rightarrow> byte list list \<times> byte list" where
  "frames bs =
     (if length bs < 4 \<or> header_size bs = 0 \<or> length bs < header_size bs then ([], bs)
      else let (ps, rest) = frames (drop (header_size bs) bs) in (take (header_size bs) bs # ps, rest))"
  by pat_completeness auto
termination by (relation "measure length") auto

declare frames.simps [simp del]

definition stuck :: "byte list \<Rightarrow> bool" where
  "stuck rest \<longleftrightarrow> 4 \<le> length rest \<and> header_size rest = 0"

lemma header_size_append: "2 \<le> length bs \<Longrightarrow> header_size (bs @ cs) = header_size bs"
  by (simp add: header_size_def)

lemma header_size_bound: "header_size bs < 2 ^ 16"
  unfolding header_size_def using unsigned_less [of "dec_u16 (take 2 bs)", where ?'a = nat] by simp

lemma frames_concat: "concat (fst (frames bs)) @ snd (frames bs) = bs"
proof (induction bs rule: frames.induct)
  case (1 bs)
  then show ?case by (subst (1 2) frames.simps) (auto simp: Let_def split: prod.splits)
qed

lemma frames_rest: "length (snd (frames bs)) < 2 ^ 16 \<or> stuck (snd (frames bs))"
proof (induction bs rule: frames.induct)
  case (1 bs)
  then show ?case
    using header_size_bound [of bs]
    by (subst (1 2) frames.simps) (auto simp: Let_def stuck_def split: prod.splits)
qed

lemma frames_append:
  "frames (bs @ cs) = (let (ps, rest) = frames bs; (qs, rest') = frames (rest @ cs) in (ps @ qs, rest'))"
proof (induction bs rule: frames.induct)
  case (1 bs)
  show ?case
  proof (cases "length bs < 4 \<or> header_size bs = 0 \<or> length bs < header_size bs")
    case True
    then have "frames bs = ([], bs)" by (subst frames.simps) simp
    then show ?thesis by simp
  next
    case False
    then show ?thesis
      using 1 by (subst (1 2) frames.simps) (simp add: header_size_append Let_def split: prod.splits)
  qed
qed

lemma frames_step:
  "4 \<le> length bs \<Longrightarrow> header_size bs \<noteq> 0 \<Longrightarrow> header_size bs \<le> length bs \<Longrightarrow>
   frames bs = (let (ps, rest) = frames (drop (header_size bs) bs) in (take (header_size bs) bs # ps, rest))"
  by (subst frames.simps) simp

lemma frames_end: "length bs < 4 \<or> header_size bs = 0 \<or> length bs < header_size bs \<Longrightarrow> frames bs = ([], bs)"
  by (subst frames.simps) simp

lemma OnRecv_loop_returns:
  assumes "bs = drop p buf" and "p \<le> length buf" and "\<not> stuck (snd (frames bs))"
  shows "OnRecv_loop buf p out = Some (out @ fst (frames bs), length buf - length (snd (frames bs)))"
  using assms
proof (induction bs arbitrary: p out rule: frames.induct)
  case (1 bs)
  have len: "length bs = length buf - p" using 1 by simp
  show ?case
  proof (cases "length bs < 4 \<or> header_size bs = 0 \<or> length bs < header_size bs")
    case True
    with 1 len show ?thesis
      by (subst OnRecv_loop.simps) (auto simp: Let_def frames_end stuck_def PACKET_HEADER_SIZE_def)
  next
    case False
    then have f: "frames bs = (let (ps, rest) = frames (drop (header_size bs) bs) in (take (header_size bs) bs # ps, rest))"
      by (intro frames_step) simp_all
    have d: "drop (header_size bs) bs = drop (p + header_size bs) buf" using "1.prems"(1) by (simp add: add.commute)
    have "OnRecv_loop buf (p + header_size bs) (out @ [take (header_size bs) bs]) =
        Some ((out @ [take (header_size bs) bs]) @ fst (frames (drop (header_size bs) bs)),
              length buf - length (snd (frames (drop (header_size bs) bs))))"
      using 1 False len f d by (intro "1.IH") (auto simp: split_beta)
    with False len "1.prems"(1) f show ?thesis
      by (subst OnRecv_loop.simps) (simp add: Let_def PACKET_HEADER_SIZE_def split_beta)
  qed
qed

lemma OnRecv_loop_stuck:
  "OnRecv_loop buf p out = Some r \<Longrightarrow> p \<le> length buf \<longrightarrow> \<not> stuck (snd (frames (drop p buf)))"

proof (induction rule: OnRecv_loop.raw_induct [rotated, consumes 1])
  case (1 loop buf p out r)
  let ?bs = "drop p buf"
  have len: "length ?bs = length buf - p" by simp
  show ?case
  proof
    assume p: "p \<le> length buf"
    show "\<not> stuck (snd (frames ?bs))"
    proof (cases "length ?bs < 4 \<or> length ?bs < header_size ?bs")
      case True
      then have "frames ?bs = ([], ?bs)" by (intro frames_end) auto
      then show ?thesis using True by (auto simp: stuck_def)
    next
      case False
      then have "loop buf (p + header_size ?bs) (out @ [take (header_size ?bs) ?bs]) = Some r"
        using 1(2) by (simp add: Let_def PACKET_HEADER_SIZE_def)
      moreover have "p + header_size ?bs \<le> length buf" using False p len by linarith
      ultimately have ih: "\<not> stuck (snd (frames (drop (header_size ?bs) ?bs)))"
        using 1(1) by (simp add: add.commute)
      show ?thesis
      proof (cases "header_size ?bs = 0")
        case False
        with \<open>\<not> (length ?bs < 4 \<or> length ?bs < header_size ?bs)\<close> ih show ?thesis
          by (subst frames_step) (simp_all add: split_beta Let_def)
      qed (use ih in simp)
    qed
  qed
qed

lemma OnRecv_eq:
  "OnRecv buf = (if stuck (snd (frames buf)) then None
                 else Some (fst (frames buf), length buf - length (snd (frames buf))))"
proof (cases "stuck (snd (frames buf))")
  case True
  with OnRecv_loop_stuck [of buf 0 "[]"] show ?thesis
    by (cases "OnRecv_loop buf 0 []") (simp_all add: OnRecv_def)
next
  case False
  with OnRecv_loop_returns [of buf 0 buf "[]"] show ?thesis by (simp add: OnRecv_def)
qed

end
