(* ===== verification/TcpSession.thy ===== *)
theory TcpSession
  imports Framing NetAddress Iocp
begin

text \<open>
  \<^verbatim>\<open>ServerCore/Session\<close>: a TCP session with its receive buffer and its send queue. Winsock calls are
  inputs: the error code a call fails with, \<^const>\<open>None\<close> for success. \<open>ss_packets\<close> are the packets
  handed to the content code, \<open>ss_wsaBuf\<close> the position in the receive buffer and the length that the
  last \<^verbatim>\<open>WSARecv\<close> was given, \<open>ss_wire\<close> the buffers handed to \<^verbatim>\<open>WSASend\<close> so far, in order, and
  \<open>ss_log\<close> those a caller of \<^verbatim>\<open>Send\<close> put into the queue.
\<close>

record tcp_session =
  ss_netAddress :: sockaddr_in
  ss_connected :: bool
  ss_recvBuffer :: recv_buffer
  ss_recvOwner :: bool
  ss_wsaBuf :: "i32 \<times> i32"
  ss_connectOwner :: bool
  ss_disconnectOwner :: bool
  ss_sendQueue :: "send_buffer list"
  ss_sendRegistered :: bool
  ss_sendBuffers :: "send_buffer list"
  ss_sendOwner :: bool
  ss_sendPosted :: bool
  ss_packets :: "byte list list"
  ss_wire :: "send_buffer list"
  ss_log :: "send_buffer list"

record os_results =
  os_recv :: "i32 option"
  os_send :: "i32 option"
  os_disconnect :: "i32 option"

definition BUFFER_SIZE :: i32 where "BUFFER_SIZE = 0x10000"
definition WSAECONNABORTED :: i32 where "WSAECONNABORTED = 10053"
definition WSAECONNRESET :: i32 where "WSAECONNRESET = 10054"

definition new_session :: tcp_session where
  "new_session = \<lparr>ss_netAddress = \<lparr>sin_family = 0, sin_port = 0, sin_addr = 0\<rparr>, ss_connected = False, ss_recvBuffer = RecvBuffer BUFFER_SIZE, ss_recvOwner = False,
     ss_wsaBuf = (0, 0), ss_connectOwner = False, ss_disconnectOwner = False, ss_sendQueue = [], ss_sendRegistered = False, ss_sendBuffers = [],
     ss_sendOwner = False, ss_sendPosted = False, ss_packets = [], ss_wire = [], ss_log = []\<rparr>"

definition Session_RegisterDisconnect :: "os_results \<Rightarrow> tcp_session \<Rightarrow> bool \<times> tcp_session" where
  "Session_RegisterDisconnect os s =
     (let s = s\<lparr>ss_disconnectOwner := True\<rparr>
      in if failed (os_disconnect os) then (False, s\<lparr>ss_disconnectOwner := False\<rparr>) else (True, s))"

definition Session_Disconnect :: "os_results \<Rightarrow> tcp_session \<Rightarrow> tcp_session" where
  "Session_Disconnect os s =
     (if \<not> ss_connected s then s else snd (Session_RegisterDisconnect os (s\<lparr>ss_connected := False\<rparr>)))"

definition Session_HandleError :: "os_results \<Rightarrow> i32 \<Rightarrow> tcp_session \<Rightarrow> tcp_session" where
  "Session_HandleError os errorCode s =
     (if errorCode = WSAECONNRESET \<or> errorCode = WSAECONNABORTED then Session_Disconnect os s else s)"

section \<open>Receiving\<close>

definition Session_RegisterRecv :: "os_results \<Rightarrow> tcp_session \<Rightarrow> tcp_session" where
  "Session_RegisterRecv os s =
     (if \<not> ss_connected s then s
      else let wsaBuf = (rb_writePos (ss_recvBuffer s), rb_FreeSize (ss_recvBuffer s));
               s = s\<lparr>ss_recvOwner := True, ss_wsaBuf := wsaBuf\<rparr>
        in if failed (os_recv os)
           then (Session_HandleError os (the (os_recv os)) s)\<lparr>ss_recvOwner := False\<rparr> else s)"

text \<open>\<^verbatim>\<open>ProcessConnect\<close> without the call into the service, which keeps its own table.\<close>

definition Session_ProcessConnect :: "os_results \<Rightarrow> tcp_session \<Rightarrow> tcp_session" where
  "Session_ProcessConnect os s = Session_RegisterRecv os (s\<lparr>ss_connectOwner := False, ss_connected := True\<rparr>)"

definition Session_ProcessRecv :: "os_results \<Rightarrow> i32 \<Rightarrow> tcp_session \<Rightarrow> tcp_session result option" where
  "Session_ProcessRecv os numOfBytes s =
     (let s = s\<lparr>ss_recvOwner := False\<rparr> in
      if numOfBytes = 0 then Some (Inr (Session_Disconnect os s))
      else
        let (ok, rb) = rb_OnWrite numOfBytes (ss_recvBuffer s); s = s\<lparr>ss_recvBuffer := rb\<rparr> in
        if \<not> ok then Some (Inr (Session_Disconnect os s))
        else (case OnRecv (rb_data rb) of
            None \<Rightarrow> None
          | Some (packets, processLen) \<Rightarrow>
              let s = s\<lparr>ss_packets := ss_packets s @ packets\<rparr>;
                  n = (of_nat processLen :: i32); dataSize = rb_DataSize rb;
                  (ok, rb) = (if n <s 0 \<or> dataSize <s n then (False, rb) else rb_OnRead n rb);
                  s = s\<lparr>ss_recvBuffer := rb\<rparr> in
              if \<not> ok then Some (Inr (Session_Disconnect os s))
              else Some (bindr (rb_Clean rb) (\<lambda>rb. Inr (Session_RegisterRecv os (s\<lparr>ss_recvBuffer := rb\<rparr>))))))"

text \<open>
  A receive completes with the bytes \<open>bs\<close>, which the operating system has put where \<^verbatim>\<open>WSARecv\<close> was told;
  a sequence of them, as long as the session returns.
\<close>

definition receive :: "os_results \<Rightarrow> byte list \<Rightarrow> tcp_session \<Rightarrow> tcp_session result option" where
  "receive os bs s = Session_ProcessRecv os (of_nat (length bs)) (s\<lparr>ss_recvBuffer := rb_fill (fst (ss_wsaBuf s)) bs (ss_recvBuffer s)\<rparr>)"

fun receive_all :: "os_results \<Rightarrow> byte list list \<Rightarrow> tcp_session \<Rightarrow> tcp_session result option" where
  "receive_all os [] s = Some (Inr s)"
| "receive_all os (bs # bss) s = (case receive os bs s of
       Some (Inr s) \<Rightarrow> receive_all os bss s | r \<Rightarrow> r)"

definition recv_ready :: "tcp_session \<Rightarrow> bool" where
  "recv_ready s \<longleftrightarrow> ss_connected s \<and> rb_ok (ss_recvBuffer s) \<and> 0x10000 \<le> rb_room (ss_recvBuffer s) \<and>
     length (rb_data (ss_recvBuffer s)) < 0x10000 \<and>
     ss_wsaBuf s = (rb_writePos (ss_recvBuffer s), rb_FreeSize (ss_recvBuffer s))"

text \<open>The memory handed to \<^verbatim>\<open>WSARecv\<close> is free memory of the buffer, and at least 64 KB of it.\<close>

lemma recv_ready_posted:
  assumes "recv_ready s"
  shows "0x10000 \<le> sint (snd (ss_wsaBuf s))"
    and "sint (fst (ss_wsaBuf s)) + sint (snd (ss_wsaBuf s)) = int (length (rb_buffer (ss_recvBuffer s)))"
proof -
  have ok: "rb_ok (ss_recvBuffer s)" using assms by (simp add: recv_ready_def)
  show "0x10000 \<le> sint (snd (ss_wsaBuf s))"
    and "sint (fst (ss_wsaBuf s)) + sint (snd (ss_wsaBuf s)) = int (length (rb_buffer (ss_recvBuffer s)))"
    using assms rb_positions [OF ok] rb_sizes [OF ok] by (simp_all add: recv_ready_def rb_room_def) arith
qed

lemma receive_eq:
  assumes "recv_ready s" and "bs \<noteq> []" "length bs \<le> rb_room (ss_recvBuffer s)" and "\<not> failed (os_recv os)"
    and f: "frames (rb_data (ss_recvBuffer s) @ bs) = (ps, rest)"
  shows "if stuck rest then receive os bs s = None
    else \<exists>s'. receive os bs s = Some (Inr s') \<and> recv_ready s' \<and> ss_recvOwner s' \<and> rb_data (ss_recvBuffer s') = rest \<and>
           ss_packets s' = ss_packets s @ ps"
proof -
  let ?b = "ss_recvBuffer s"
  have ok: "rb_ok ?b" using assms(1) by (simp add: recv_ready_def)
  have room: "rb_room ?b \<le> 0xA0000"
    using rb_positions [OF ok] rb_sizes(2) [OF ok] by (simp add: rb_room_def)
  have n0: "(of_nat (length bs) :: i32) \<noteq> 0"
  proof
    assume "(of_nat (length bs) :: i32) = 0"
    then have "sint (of_nat (length bs) :: i32) = 0" by simp
    with assms(2,3) room show False by (simp add: sint_of_nat_i32)
  qed
  obtain b1 where b1: "rb_put bs ?b = (True, b1)" "rb_ok b1" "rb_data b1 = rb_data ?b @ bs"
    using rb.put [OF ok assms(3)] by blast
  have wr: "rb_OnWrite (of_nat (length bs)) (rb_arrive bs ?b) = (True, b1)" using b1(1) by (simp add: rb_put_def)
  have posted: "rb_fill (fst (ss_wsaBuf s)) bs ?b = rb_arrive bs ?b"
    using assms(1) by (simp add: recv_ready_def rb_arrive_def)
  show ?thesis
  proof (cases "stuck rest")
    case True
    with f n0 wr posted show ?thesis
      by (simp add: receive_def Session_ProcessRecv_def OnRecv_eq b1(3))
  next
    case False
    let ?n = "length (rb_data b1) - length rest"
    have e: "rb_data b1 = concat ps @ rest" using frames_concat [of "rb_data b1"] f by (simp add: b1(3))
    have rst: "length rest \<le> length (rb_data b1)" "drop ?n (rb_data b1) = rest"
      by (simp_all add: e)
    have small: "length rest < 0x10000" using frames_rest [of "rb_data b1"] f False by (simp add: b1(3))
    obtain b2 b3 where b23: "rb_pop ?n b1 = (True, b2)" "rb_Clean b2 = Inr b3" "rb_ok b3" "rb_data b3 = rest"
      "0x10000 \<le> rb_room b3"
    proof (rule rb.cycle [OF ok assms(3), of ?n])
      show "?n \<le> length (rb_data ?b @ bs)" unfolding b1(3) [symmetric] by (rule diff_le_self)
      show "length (rb_data ?b @ bs) - ?n < 0x10000" unfolding b1(3) [symmetric] using rst(1) small by simp
    next
      fix s1 s2 s3
      assume "rb_put bs ?b = (True, s1)" "rb_pop ?n s1 = (True, s2)" "rb_Clean s2 = Inr s3" "rb_ok s3"
        "rb_data s3 = drop ?n (rb_data ?b @ bs)" "0x10000 \<le> rb_room s3"
      with b1 rst(2) that show thesis by simp
    qed
    have len: "length (rb_data b1) \<le> 0xA0000" using rb_positions [OF b1(2)] rb_sizes(3) [OF b1(2)] by simp
    have ds: "sint (rb_DataSize b1) = int (length (rb_data b1))"
      using rb_positions [OF b1(2)] rb_sizes [OF b1(2)] by simp
    have "\<not> (of_nat ?n :: i32) <s 0" "\<not> rb_DataSize b1 <s of_nat ?n"
      using len by (simp_all add: word_sless_alt sint_of_nat_i32 ds)
    then show ?thesis
      using False n0 wr posted f b23 assms(1,4) small
      by (simp add: receive_def Session_ProcessRecv_def OnRecv_eq b1(3) rb_pop_def Session_RegisterRecv_def recv_ready_def)
  qed
qed

lemma stuck_append: "stuck (snd (frames bs)) \<Longrightarrow> stuck (snd (frames (bs @ cs)))"
proof -
  assume st: "stuck (snd (frames bs))"
  then have "header_size (snd (frames bs) @ cs) = 0"
    by (simp add: stuck_def header_size_append)
  then have "frames (snd (frames bs) @ cs) = ([], snd (frames bs) @ cs)" by (intro frames_end) simp
  with st show ?thesis by (subst frames_append) (simp add: stuck_def header_size_append split_beta)
qed


lemma frames_of_rest: "frames (snd (frames bs)) = ([], snd (frames bs))"
proof (induction bs rule: frames.induct)
  case (1 bs)
  then show ?case
    by (cases "length bs < 4 \<or> header_size bs = 0 \<or> length bs < header_size bs")
       (simp_all add: frames_end frames_step split_beta Let_def)
qed

definition well_framed :: "byte list \<Rightarrow> bool" where
  "well_framed p \<longleftrightarrow> 4 \<le> length p \<and> header_size p = length p"

lemma frames_well_framed:
  assumes "\<forall>p \<in> set ps. well_framed p"
  shows "frames (concat ps @ rest) = (ps @ fst (frames rest), snd (frames rest))"
  using assms
proof (induction ps)
  case (Cons p ps)
  then have p: "4 \<le> length p" "header_size (p @ concat ps @ rest) = length p"
    by (simp_all add: well_framed_def header_size_append)
  then have "4 \<le> length (p @ concat ps @ rest)" "header_size (p @ concat ps @ rest) \<noteq> 0"
    "header_size (p @ concat ps @ rest) \<le> length (p @ concat ps @ rest)" by auto
  from frames_step [OF this] p(2) Cons show ?case by (simp add: split_beta Let_def)
qed simp

lemma receive_all_eq:
  assumes "recv_ready s" and "\<forall>bs \<in> set bss. bs \<noteq> [] \<and> length bs \<le> 0x10000" and "\<not> failed (os_recv os)"
    and "snd (frames (rb_data (ss_recvBuffer s))) = rb_data (ss_recvBuffer s)"
    and "\<not> stuck (rb_data (ss_recvBuffer s))"
    and "frames (rb_data (ss_recvBuffer s) @ concat bss) = (ps, rest)"
  shows "if stuck rest then receive_all os bss s = None
    else \<exists>s'. receive_all os bss s = Some (Inr s') \<and> recv_ready s' \<and> rb_data (ss_recvBuffer s') = rest \<and>
           ss_packets s' = ss_packets s @ ps"
  using assms
proof (induction bss arbitrary: s ps)
  case Nil
  then have "frames (rb_data (ss_recvBuffer s)) = (ps, rest)" by simp
  moreover from this have "rest = rb_data (ss_recvBuffer s)" using Nil by simp
  moreover from calculation have "ps = []" using frames_of_rest [of "rb_data (ss_recvBuffer s)"] by simp
  ultimately show ?case using Nil by simp
next
  case (Cons bs bss)
  let ?d = "rb_data (ss_recvBuffer s)"
  obtain p1 r1 where f1: "frames (?d @ bs) = (p1, r1)" by fastforce
  obtain p2 r2 where f2: "frames (r1 @ concat bss) = (p2, r2)" by fastforce
  have f: "ps = p1 @ p2" "rest = r2"
    using Cons.prems(6) frames_append [of "?d @ bs" "concat bss"] by (simp_all add: f1 f2)
  have "length bs \<le> rb_room (ss_recvBuffer s)" using Cons.prems(1,2) by (simp add: recv_ready_def)
  with receive_eq [OF Cons.prems(1) _ _ Cons.prems(3) f1] Cons.prems(2)
  have step: "if stuck r1 then receive os bs s = None
    else \<exists>s'. receive os bs s = Some (Inr s') \<and> recv_ready s' \<and> ss_recvOwner s' \<and> rb_data (ss_recvBuffer s') = r1 \<and>
           ss_packets s' = ss_packets s @ p1" by simp
  show ?case
  proof (cases "stuck r1")
    case True
    then have "stuck rest" using stuck_append [of "?d @ bs" "concat bss"] f1 Cons.prems(6) by simp
    with True step show ?thesis by simp
  next
    case False
    with step obtain s1 where s1: "receive os bs s = Some (Inr s1)" "recv_ready s1"
      "rb_data (ss_recvBuffer s1) = r1" "ss_packets s1 = ss_packets s @ p1" by auto
    have "snd (frames r1) = r1" using frames_of_rest [of "?d @ bs"] f1 by simp
    with Cons.IH [OF s1(2), of p2] Cons.prems(2,3) s1 False f2 [folded f(2)] f(1)
    show ?thesis by (cases "stuck rest") auto
  qed
qed

lemma connected_ready:
  "\<not> failed (os_recv os) \<Longrightarrow> recv_ready (Session_ProcessConnect os new_session) \<and>
   rb_data (ss_recvBuffer (Session_ProcessConnect os new_session)) = [] \<and>
   ss_packets (Session_ProcessConnect os new_session) = []"
  using rb_ok_init
  by (simp add: recv_ready_def Session_ProcessConnect_def Session_RegisterRecv_def new_session_def BUFFER_SIZE_def)


section \<open>Sending\<close>

text \<open>
  \<^verbatim>\<open>RegisterSend\<close> first moves the whole queue into the event, under the lock, then calls
  \<^verbatim>\<open>WSASend\<close> outside it. \<open>ss_sendPosted\<close> says that a \<^verbatim>\<open>WSASend\<close> is outstanding.
\<close>

definition Session_drain :: "tcp_session \<Rightarrow> tcp_session" where
  "Session_drain s = s\<lparr>ss_sendOwner := True, ss_sendBuffers := ss_sendBuffers s @ ss_sendQueue s, ss_sendQueue := []\<rparr>"

definition Session_WSASend :: "os_results \<Rightarrow> tcp_session \<Rightarrow> tcp_session" where
  "Session_WSASend os s =
     (if failed (os_send os)
      then (Session_HandleError os (the (os_send os)) s)\<lparr>ss_sendOwner := False, ss_sendBuffers := [],
             ss_sendRegistered := False\<rparr>
      else s\<lparr>ss_sendPosted := True, ss_wire := ss_wire s @ ss_sendBuffers s\<rparr>)"

definition Session_RegisterSend :: "os_results \<Rightarrow> tcp_session \<Rightarrow> tcp_session" where
  "Session_RegisterSend os s = (if \<not> ss_connected s then s else Session_WSASend os (Session_drain s))"

text \<open>The part of \<^verbatim>\<open>Send\<close> under the lock: is it up to this caller to register?\<close>

definition Session_push :: "send_buffer \<Rightarrow> tcp_session \<Rightarrow> bool \<times> tcp_session" where
  "Session_push buf s =
     (\<not> ss_sendRegistered s, s\<lparr>ss_sendQueue := ss_sendQueue s @ [buf], ss_sendRegistered := True,
                               ss_log := ss_log s @ [buf]\<rparr>)"

definition Session_Send :: "os_results \<Rightarrow> send_buffer \<Rightarrow> tcp_session \<Rightarrow> tcp_session" where
  "Session_Send os buf s =
     (if \<not> ss_connected s then s
      else let (registerSend, s) = Session_push buf s
        in if registerSend then Session_RegisterSend os s else s)"

definition Session_ProcessSend :: "os_results \<Rightarrow> i32 \<Rightarrow> tcp_session \<Rightarrow> tcp_session" where
  "Session_ProcessSend os numOfBytes s =
     (let s = s\<lparr>ss_sendPosted := False, ss_sendOwner := False, ss_sendBuffers := []\<rparr>
      in if numOfBytes = 0 then Session_Disconnect os s
         else if ss_sendQueue s = [] then s\<lparr>ss_sendRegistered := False\<rparr>
         else Session_RegisterSend os s)"

section \<open>Threads that send\<close>

text \<open>
  Several threads call \<^verbatim>\<open>Send\<close>, others handle completions. \<open>sm_senders\<close> are the threads between the
  locked part of \<^verbatim>\<open>Send\<close> and the end of \<^verbatim>\<open>RegisterSend\<close>; \<^verbatim>\<open>ProcessSend\<close> holds the lock throughout.
\<close>

datatype sender_pc = Registering | Calling

record send_machine =
  sm_session :: tcp_session
  sm_senders :: "sender_pc list"

inductive send_step :: "os_results \<Rightarrow> send_machine \<Rightarrow> send_machine \<Rightarrow> bool" for os where
  push: "ss_connected s \<Longrightarrow> Session_push buf s = (r, s') \<Longrightarrow>
    send_step os \<lparr>sm_session = s, sm_senders = ps\<rparr>
      \<lparr>sm_session = s', sm_senders = (if r then ps @ [Registering] else ps)\<rparr>"
| give_up: "\<not> ss_connected s \<Longrightarrow>
    send_step os \<lparr>sm_session = s, sm_senders = ps @ Registering # qs\<rparr> \<lparr>sm_session = s, sm_senders = ps @ qs\<rparr>"
| drain: "ss_connected s \<Longrightarrow>
    send_step os \<lparr>sm_session = s, sm_senders = ps @ Registering # qs\<rparr>
      \<lparr>sm_session = Session_drain s, sm_senders = ps @ Calling # qs\<rparr>"
| call: "send_step os \<lparr>sm_session = s, sm_senders = ps @ Calling # qs\<rparr>
      \<lparr>sm_session = Session_WSASend os s, sm_senders = ps @ qs\<rparr>"
| complete: "ss_sendPosted s \<Longrightarrow>
    send_step os \<lparr>sm_session = s, sm_senders = ps\<rparr> \<lparr>sm_session = Session_ProcessSend os n s, sm_senders = ps\<rparr>"
| close: "send_step os \<lparr>sm_session = s, sm_senders = ps\<rparr> \<lparr>sm_session = Session_Disconnect os s, sm_senders = ps\<rparr>"

inductive send_run :: "os_results set \<Rightarrow> send_machine \<Rightarrow> send_machine \<Rightarrow> bool" for oss where
  run_refl: "send_run oss m m"
| run_step: "send_run oss m m' \<Longrightarrow> os \<in> oss \<Longrightarrow> send_step os m' m'' \<Longrightarrow> send_run oss m m''"

inductive_cases send_stepE: "send_step os m m'"

definition send_ok :: "send_machine \<Rightarrow> bool" where
  "send_ok m \<longleftrightarrow> (let s = sm_session m in
     length (sm_senders m) + (if ss_sendPosted s then 1 else 0) \<le> 1 \<and>
     (ss_sendRegistered s \<or> ss_sendQueue s = [] \<and> sm_senders m = [] \<and> \<not> ss_sendPosted s) \<and>
     (ss_connected s \<and> ss_sendRegistered s \<longrightarrow> sm_senders m \<noteq> [] \<or> ss_sendPosted s) \<and>
     (sm_senders m \<noteq> [Calling] \<and> \<not> ss_sendPosted s \<longrightarrow> ss_sendBuffers s = []) \<and>
     ss_log s = ss_wire s @ (if sm_senders m = [Calling] then ss_sendBuffers s else []) @ ss_sendQueue s)"

lemma Session_Disconnect_simps [simp]:
  "ss_sendQueue (Session_Disconnect os s) = ss_sendQueue s"
  "ss_sendRegistered (Session_Disconnect os s) = ss_sendRegistered s"
  "ss_sendBuffers (Session_Disconnect os s) = ss_sendBuffers s"
  "ss_sendPosted (Session_Disconnect os s) = ss_sendPosted s"
  "ss_wire (Session_Disconnect os s) = ss_wire s"
  "ss_log (Session_Disconnect os s) = ss_log s"
  "ss_connected (Session_Disconnect os s) = False"
  by (simp_all add: Session_Disconnect_def Session_RegisterDisconnect_def Let_def)

lemma send_ok_step:
  assumes "send_step os m m'" and "send_ok m" and "\<not> failed (os_send os)"
  shows "send_ok m'"
  using assms
proof cases
  case (push s buf r s' ps)
  with assms(2) show ?thesis by (auto simp: send_ok_def Session_push_def Let_def split: if_splits)
next
  case (give_up s ps qs)
  with assms(2) show ?thesis by (auto simp: send_ok_def Let_def split: if_splits)
next
  case (drain s ps qs)
  with assms(2) show ?thesis by (auto simp: send_ok_def Session_drain_def Let_def split: if_splits)
next
  case (call s ps qs)
  with assms(2,3) show ?thesis by (auto simp: send_ok_def Session_WSASend_def Let_def split: if_splits)
next
  case (complete s n ps)
  with assms(2,3) show ?thesis
    by (auto simp: send_ok_def Session_ProcessSend_def Session_RegisterSend_def Session_WSASend_def Session_drain_def Let_def split: if_splits)
next
  case (close s ps)
  with assms(2) show ?thesis by (auto simp: send_ok_def Let_def split: if_splits)
qed


definition send_start :: "os_results \<Rightarrow> send_machine" where
  "send_start os = \<lparr>sm_session = Session_ProcessConnect os new_session, sm_senders = []\<rparr>"

lemma send_ok_start: "send_ok (send_start os)"
  by (simp add: send_ok_def send_start_def Session_ProcessConnect_def Session_RegisterRecv_def new_session_def
      Session_HandleError_def Let_def)

lemma send_ok_run:
  "send_run oss m m' \<Longrightarrow> send_ok m \<Longrightarrow> \<forall>os \<in> oss. \<not> failed (os_send os) \<Longrightarrow> send_ok m'"
  by (induction rule: send_run.induct) (auto intro: send_ok_step)

section \<open>Concrete inputs\<close>

definition calm :: os_results where
  "calm = \<lparr>os_recv = None, os_send = None, os_disconnect = None\<rparr>"

definition no_buffers :: os_results where
  "no_buffers = \<lparr>os_recv = None, os_send = Some 10055, os_disconnect = None\<rparr>"

section \<open>Properties\<close>

text \<open>
  C9: Packets with a correct size field that arrive on a TCP connection are handed to the content code
  one by one, complete and in order, however the stream is cut into receives of at most 64 KB; up
  to three bytes of a packet still incomplete stay in the buffer, and no copy inside the buffer
  overlaps or leaves it.
\<close>

theorem packets_survive_segmentation:
  assumes "\<forall>bs \<in> set bss. bs \<noteq> [] \<and> length bs \<le> 0x10000" and "\<not> failed (os_recv os)"
    and "\<forall>p \<in> set ps. well_framed p" and "concat bss = concat ps @ rest" and "length rest < 4"
  shows "\<exists>s. receive_all os bss (Session_ProcessConnect os new_session) = Some (Inr s) \<and>
     ss_connected s \<and> ss_packets s = ps \<and> rb_data (ss_recvBuffer s) = rest"
proof -
  have "frames rest = ([], rest)" using assms(5) by (simp add: frames_end)
  then have f: "frames (concat bss) = (ps, rest)" using frames_well_framed [OF assms(3), of rest] assms(4) by simp
  moreover have "\<not> stuck rest" "\<not> stuck []" "snd (frames []) = []" using assms(5) by (simp_all add: stuck_def frames_end)
  ultimately show ?thesis
    using receive_all_eq [OF _ assms(1,2), of "Session_ProcessConnect os new_session" ps rest] connected_ready [OF assms(2)]
    by (auto simp: recv_ready_def)
qed

theorem packets_survive_segmentation_witness:
  "\<exists>s. receive_all calm [[6, 0], [1], [0, 7, 8, 4]] (Session_ProcessConnect calm new_session) = Some (Inr s) \<and>
     ss_packets s = [[6, 0, 1, 0, 7, 8]] \<and> rb_data (ss_recvBuffer s) = [4]"
proof -
  have "header_size [6, 0, 1, 0, 7, 8] = 6" by code_simp
  then have "well_framed [6, 0, 1, 0, 7, 8]" by (simp add: well_framed_def)
  then show ?thesis
    using packets_survive_segmentation [of "[[6, 0], [1], [0, 7, 8, 4]]" calm "[[6, 0, 1, 0, 7, 8]]" "[4]"]
    by (auto simp: calm_def failed_def)
qed

text \<open>
  C18: While \<^verbatim>\<open>WSASend\<close> does not fail, buffers go out exactly in the order in which they were queued,
  none twice and none lost, at most one send is being prepared or outstanding at a time, and on an
  open connection nothing waits once no send is under way.
\<close>

theorem send_order_kept:
  assumes "send_run oss (send_start os) m" and "\<forall>os \<in> oss. \<not> failed (os_send os)"
  shows "\<exists>waiting. ss_log (sm_session m) = ss_wire (sm_session m) @ waiting \<and>
     length (sm_senders m) + (if ss_sendPosted (sm_session m) then 1 else 0) \<le> 1 \<and>
     (ss_connected (sm_session m) \<and> sm_senders m = [] \<and> \<not> ss_sendPosted (sm_session m) \<longrightarrow> waiting = [])"
  using send_ok_run [OF assms(1) send_ok_start assms(2)]
  by (auto simp: send_ok_def Let_def split: if_splits)

theorem send_order_kept_witness:
  "\<exists>(m :: send_machine) waiting. ss_log (sm_session m) = [SendBuffer 3] \<and> ss_log (sm_session m) = ss_wire (sm_session m) @ waiting"
proof -
  let ?s = "sm_session (send_start calm)"
  have s: "ss_connected ?s" "\<not> ss_sendRegistered ?s" "ss_log ?s = []"
    by (simp_all add: send_start_def Session_ProcessConnect_def Session_RegisterRecv_def new_session_def calm_def failed_def)
  have "send_step calm (send_start calm) \<lparr>sm_session = snd (Session_push (SendBuffer 3) ?s), sm_senders = [Registering]\<rparr>"
    using push [OF s(1), of "SendBuffer 3" True "snd (Session_push (SendBuffer 3) ?s)" calm "[]"] s(2)
    by (simp add: send_start_def Session_push_def)
  from send_order_kept [OF run_step [OF run_refl _ this], of "{calm}"] obtain waiting where
    "ss_log (snd (Session_push (SendBuffer 3) ?s)) = ss_wire (snd (Session_push (SendBuffer 3) ?s)) @ waiting"
    by (auto simp: calm_def failed_def)
  then show ?thesis
    using s(3) by (intro exI [of _ "\<lparr>sm_session = snd (Session_push (SendBuffer 3) ?s), sm_senders = [Registering]\<rparr>"]
      exI [of _ waiting]) (simp add: Session_push_def)
qed

text \<open>
  C39: A packet with size 0 in its header makes the receiving thread loop for ever: the session does not
  come back from \<^verbatim>\<open>OnRecv\<close>, whatever preceded and follows it.
\<close>

theorem zero_size_packet_hangs:
  assumes "\<forall>bs \<in> set bss. bs \<noteq> [] \<and> length bs \<le> 0x10000" and "\<not> failed (os_recv os)"
    and "\<forall>p \<in> set ps. well_framed p" and "concat bss = concat ps @ enc_u16 0 @ enc_u16 t @ rest"
  shows "receive_all os bss (Session_ProcessConnect os new_session) = None"
proof -
  let ?z = "enc_u16 0 @ enc_u16 t @ rest"
  have z: "stuck ?z" by (simp add: stuck_def header_size_def)
  then have "frames ?z = ([], ?z)" by (intro frames_end) (simp add: stuck_def)
  then have "frames (concat bss) = (ps, ?z)" using frames_well_framed [OF assms(3), of ?z] assms(4) by simp
  moreover have "\<not> stuck []" "snd (frames []) = []" by (simp_all add: stuck_def frames_end)
  ultimately show ?thesis
    using receive_all_eq [OF _ assms(1,2), of "Session_ProcessConnect os new_session" ps ?z] connected_ready [OF assms(2)] z
    by simp
qed

theorem zero_size_packet_hangs_witness:
  "receive_all calm [[0], [0, 1], [0]] (Session_ProcessConnect calm new_session) = None"
proof (rule zero_size_packet_hangs [of _ _ "[]" 1 "[]"])
  show "concat [[0], [0, 1], [0]] = concat [] @ enc_u16 0 @ enc_u16 1 @ ([] :: byte list)" by code_simp
qed (simp_all add: calm_def failed_def)

text \<open>
  After a \<^verbatim>\<open>WSASend\<close> that fails with an error other than a reset the connection stays open, the
  buffers taken for it are never sent, and a buffer queued meanwhile is left behind with nobody to
  send it.
\<close>

theorem failed_send_loses:
  assumes "os_send os = Some e" and "e \<notin> {WSA_IO_PENDING, WSAECONNRESET, WSAECONNABORTED}" and "\<not> failed (os_recv os)"
  shows "\<exists>m. send_run {os} (send_start os) m \<and> ss_connected (sm_session m) \<and> ss_wire (sm_session m) = [] \<and>
     ss_log (sm_session m) = [b1, b2] \<and> ss_sendQueue (sm_session m) = [b2] \<and>
     \<not> ss_sendRegistered (sm_session m) \<and> sm_senders m = []"
proof -
  let ?s0 = "sm_session (send_start os)"
  let ?s1 = "snd (Session_push b1 ?s0)"
  let ?s2 = "Session_drain ?s1"
  let ?s3 = "snd (Session_push b2 ?s2)"
  let ?m = "\<lparr>sm_session = Session_WSASend os ?s3, sm_senders = []\<rparr>"
  have s0: "ss_connected ?s0" "\<not> ss_sendRegistered ?s0" "ss_sendQueue ?s0 = []" "ss_log ?s0 = []" "ss_wire ?s0 = []"
    "sm_senders (send_start os) = []"
    using assms(3) by (simp_all add: send_start_def Session_ProcessConnect_def Session_RegisterRecv_def new_session_def)
  have "send_step os (send_start os) \<lparr>sm_session = ?s1, sm_senders = [Registering]\<rparr>"
    using push [OF s0(1), of b1 True ?s1 os "[]"] s0 by (simp add: send_start_def Session_push_def)
  note r1 = run_step [OF run_refl _ this, where oss = "{os}"]
  have "send_step os \<lparr>sm_session = ?s1, sm_senders = [Registering]\<rparr> \<lparr>sm_session = ?s2, sm_senders = [Calling]\<rparr>"
    using drain [of ?s1 os "[]" "[]"] s0 by (simp add: Session_push_def)
  note r2 = run_step [OF r1 _ this]
  have "send_step os \<lparr>sm_session = ?s2, sm_senders = [Calling]\<rparr> \<lparr>sm_session = ?s3, sm_senders = [Calling]\<rparr>"
    using push [of ?s2 b2 False ?s3 os "[Calling]"] s0 by (simp add: Session_push_def Session_drain_def)
  note r3 = run_step [OF r2 _ this]
  have "send_step os \<lparr>sm_session = ?s3, sm_senders = [Calling]\<rparr> ?m"
    using call [of os ?s3 "[]" "[]"] by simp
  note r4 = run_step [OF r3 _ this]
  show ?thesis
    using r4 s0 assms
    by (intro exI [of _ ?m]) (simp add: Session_WSASend_def Session_HandleError_def failed_def Session_push_def Session_drain_def)
qed

theorem failed_send_loses_witness:
  "\<exists>m. send_run {no_buffers} (send_start no_buffers) m \<and> ss_connected (sm_session m) \<and> ss_wire (sm_session m) = [] \<and>
     ss_log (sm_session m) = [SendBuffer 1, SendBuffer 2] \<and> ss_sendQueue (sm_session m) = [SendBuffer 2] \<and>
     \<not> ss_sendRegistered (sm_session m) \<and> sm_senders m = []"
  by (rule failed_send_loses [of _ 10055])
     (simp_all add: no_buffers_def failed_def WSA_IO_PENDING_def WSAECONNRESET_def WSAECONNABORTED_def)

end
