(* ===== verification/Service.thy ===== *)
theory Service
  imports TcpSession
begin

text \<open>
  \<^verbatim>\<open>ServerCore/Service\<close> and \<^verbatim>\<open>GameServer/GameSessionManager\<close>: the two tables of TCP sessions. A
  \<^verbatim>\<open>SessionRef\<close> is the address of its object, a \<^verbatim>\<open>Set\<close> of them the sorted list of the addresses.
  Every operation runs under the lock of its table. The session factory is user code; it makes a
  new session, as the one in the sources does.
\<close>

type_synonym session_ref = nat

datatype service_type = Server | Client

record service =
  sc_type :: service_type
  sc_netAddress :: sockaddr_in
  sc_sessions :: "session_ref list"
  sc_sessionCount :: i32
  sc_maxSessionCount :: i32
  sc_sessionFactory :: bool

text \<open>\<^verbatim>\<open>std::set::insert\<close> and \<^verbatim>\<open>erase\<close> with its count.\<close>

definition set_insert :: "session_ref \<Rightarrow> session_ref list \<Rightarrow> session_ref list" where
  "set_insert r rs = (if r \<in> set rs then rs else insort r rs)"

definition set_erase :: "session_ref \<Rightarrow> session_ref list \<Rightarrow> nat \<times> session_ref list" where
  "set_erase r rs = (if r \<in> set rs then (1, remove1 r rs) else (0, rs))"

definition new_service :: "service_type \<Rightarrow> sockaddr_in \<Rightarrow> bool \<Rightarrow> i32 \<Rightarrow> service" where
  "new_service type address factory maxSessionCount =
     \<lparr>sc_type = type, sc_netAddress = address, sc_sessions = [], sc_sessionCount = 0,
      sc_maxSessionCount = maxSessionCount, sc_sessionFactory = factory\<rparr>"

definition CanStart :: "service \<Rightarrow> bool" where
  "CanStart sv = sc_sessionFactory sv"

definition AddSession :: "session_ref \<Rightarrow> service \<Rightarrow> service" where
  "AddSession session sv =
     sv\<lparr>sc_sessionCount := sc_sessionCount sv + 1, sc_sessions := set_insert session (sc_sessions sv)\<rparr>"

definition ReleaseSession :: "session_ref \<Rightarrow> service \<Rightarrow> service result" where
  "ReleaseSession session sv =
     (let (n, sessions) = set_erase session (sc_sessions sv)
      in if n = 0 then Inl (Crash ''ASSERT_CRASH'')
         else Inr (sv\<lparr>sc_sessions := sessions, sc_sessionCount := sc_sessionCount sv - 1\<rparr>))"

text \<open>\<^verbatim>\<open>GameSessionManager::Add\<close> and \<^verbatim>\<open>Remove\<close>.\<close>

definition GameSessionManager_Add :: "session_ref \<Rightarrow> session_ref list \<Rightarrow> session_ref list" where
  "GameSessionManager_Add session sessions = set_insert session sessions"

definition GameSessionManager_Remove :: "session_ref \<Rightarrow> session_ref list \<Rightarrow> session_ref list" where
  "GameSessionManager_Remove session sessions = snd (set_erase session sessions)"

section \<open>The contract of a table of sessions\<close>

locale session_table =
  fixes ok :: "'t \<Rightarrow> bool"
    and members :: "'t \<Rightarrow> session_ref set"
    and capacity :: nat
    and join :: "session_ref \<Rightarrow> 't \<Rightarrow> 't"
    and leave :: "session_ref \<Rightarrow> 't \<Rightarrow> 't result"
  assumes finite: "finite (members t)"
    and join: "ok t \<Longrightarrow> r \<notin> members t \<Longrightarrow> card (members t) < capacity \<Longrightarrow>
      ok (join r t) \<and> members (join r t) = insert r (members t)"
    and leave: "ok t \<Longrightarrow> r \<in> members t \<Longrightarrow> \<exists>t'. leave r t = Inr t' \<and> ok t' \<and> members t' = members t - {r}"
begin

lemma leave_ok:
  assumes "ok t" "r \<in> members t" "leave r t = Inr t'"
  shows "ok t'" "members t' = members t - {r}"
  using leave [OF assms(1,2)] assms(3) by auto

lemma leave_total: "ok t \<Longrightarrow> r \<in> members t \<Longrightarrow> leave r t \<noteq> Inl e"
  using leave by (metis sum.distinct(1))

lemma join_all:
  assumes "ok t" "distinct rs" "set rs \<inter> members t = {}" "card (members t) + length rs \<le> capacity"
  shows "ok (fold join rs t) \<and> members (fold join rs t) = set rs \<union> members t"
  using assms
proof (induction rs arbitrary: t)
  case (Cons r rs)
  then have "r \<notin> members t" "card (members t) < capacity" by simp_all
  with join Cons.prems(1) have j: "ok (join r t)" "members (join r t) = insert r (members t)" by blast+
  with Cons.prems finite [of t] have "set rs \<inter> members (join r t) = {}" "card (members (join r t)) + length rs \<le> capacity"
    by (simp_all add: j(2))
  with Cons.IH [OF j(1)] Cons.prems(2) j(2) show ?case by simp
qed simp

end

section \<open>Both tables satisfy it\<close>

definition refs_ok :: "session_ref list \<Rightarrow> bool" where
  "refs_ok rs \<longleftrightarrow> sorted rs \<and> distinct rs"

lemma set_insert_ok: "refs_ok rs \<Longrightarrow> refs_ok (set_insert r rs)"
  by (simp add: refs_ok_def set_insert_def sorted_insort distinct_insort)

lemma set_insert_set [simp]: "set (set_insert r rs) = insert r (set rs)"
  by (auto simp: set_insert_def set_insort_key)

lemma set_erase_ok: "refs_ok rs \<Longrightarrow> refs_ok (snd (set_erase r rs))"
  by (simp add: refs_ok_def set_erase_def sorted_remove1)

lemma set_erase_set: "refs_ok rs \<Longrightarrow> set (snd (set_erase r rs)) = set rs - {r}"
  by (simp add: refs_ok_def set_erase_def)

definition service_ok :: "service \<Rightarrow> bool" where
  "service_ok sv \<longleftrightarrow> refs_ok (sc_sessions sv) \<and> sint (sc_sessionCount sv) = int (length (sc_sessions sv))"

lemma card_refs: "refs_ok rs \<Longrightarrow> card (set rs) = length rs"
  by (simp add: refs_ok_def distinct_card)

lemma sint_succ:
  assumes "0 \<le> sint (x :: i32)" "sint x < 2147483647"
  shows "sint (x + 1) = sint x + 1"
  using assms by (simp add: sint_word_ariths(1) signed_take_bit_int_eq_self)

lemma AddSession_ok:
  assumes "service_ok sv" "r \<notin> set (sc_sessions sv)" "length (sc_sessions sv) < 2147483647"
  shows "service_ok (AddSession r sv)"
  using assms sint_succ [of "sc_sessionCount sv"]
  by (simp add: service_ok_def AddSession_def set_insert_ok) (simp add: set_insert_def)

lemma ReleaseSession_eq:
  "r \<in> set (sc_sessions sv) \<Longrightarrow> ReleaseSession r sv =
     Inr (sv\<lparr>sc_sessions := remove1 r (sc_sessions sv), sc_sessionCount := sc_sessionCount sv - 1\<rparr>)"
  by (simp add: ReleaseSession_def set_erase_def)

lemma ReleaseSession_ok:
  assumes "service_ok sv" "r \<in> set (sc_sessions sv)"
  shows "\<exists>sv'. ReleaseSession r sv = Inr sv' \<and> service_ok sv' \<and> set (sc_sessions sv') = set (sc_sessions sv) - {r}"
proof -
  have n: "0 < length (sc_sessions sv)" using assms(2) by (cases "sc_sessions sv") auto
  then have "sint (sc_sessionCount sv - 1) = sint (sc_sessionCount sv) - 1"
    using assms(1) by (intro sint_minus_1) (simp add: service_ok_def word_sless_alt)
  with assms n show ?thesis
    by (simp add: ReleaseSession_eq service_ok_def refs_ok_def sorted_remove1 length_remove1 of_nat_diff Suc_leI)
qed

interpretation sst: session_table service_ok "\<lambda>sv. set (sc_sessions sv)" 2147483647 AddSession ReleaseSession
proof
  show "finite (set (sc_sessions t))" for t by simp
next
  fix t r assume "service_ok t" "r \<notin> set (sc_sessions t)" "card (set (sc_sessions t)) < 2147483647"
  then show "service_ok (AddSession r t) \<and> set (sc_sessions (AddSession r t)) = insert r (set (sc_sessions t))"
    using AddSession_ok [of t r] card_refs [of "sc_sessions t"] by (simp add: service_ok_def AddSession_def)
next
  fix t r assume "service_ok t" "r \<in> set (sc_sessions t)"
  then show "\<exists>t'. ReleaseSession r t = Inr t' \<and> service_ok t' \<and> set (sc_sessions t') = set (sc_sessions t) - {r}"
    by (rule ReleaseSession_ok)
qed

interpretation mst: session_table refs_ok set n GameSessionManager_Add "\<lambda>r t. Inr (GameSessionManager_Remove r t)" for n
  by unfold_locales
     (auto simp: GameSessionManager_Add_def GameSessionManager_Remove_def set_insert_ok set_erase_ok set_erase_set)

end
