(* ===== verification/TcpServer.thy ===== *)
theory TcpServer
  imports Service
begin

text \<open>
  \<^verbatim>\<open>ServerCore/Listener\<close>, the part of \<^verbatim>\<open>ServerCore/Session\<close> that connects and leaves, and
  \<^verbatim>\<open>GameServer/GameSession\<close>: the life of TCP sessions between the listener, the service and the
  session manager. The heap maps the address of a session to its object; an address is not given
  out again while the model runs. Winsock calls are inputs.

  Completions are dispatched by several threads, so the handlers of connections and disconnections
  are cut into the parts that are atomic by themselves. \<open>ts_accepts\<close> holds for each accept event how
  far the thread that handles it has come, \<open>ts_leaving\<close> the sessions between \<^verbatim>\<open>OnDisconnected\<close> and
  \<^verbatim>\<open>ReleaseSession\<close>.
\<close>

datatype accept_pc = Armed | Adding | Informing | Receiving | Rearming

record tcp_server =
  ts_service :: service
  ts_manager :: "session_ref list"
  ts_heap :: "session_ref \<Rightarrow> tcp_session option"
  ts_listenSocket :: bool
  ts_accepts :: "(accept_pc \<times> session_ref) list"
  ts_leaving :: "session_ref list"

definition new_server :: "service \<Rightarrow> tcp_server" where
  "new_server sv = \<lparr>ts_service = sv, ts_manager = [], ts_heap = (\<lambda>_. None), ts_listenSocket = False,
     ts_accepts = [], ts_leaving = []\<rparr>"

definition upd_session :: "session_ref \<Rightarrow> (tcp_session \<Rightarrow> tcp_session) \<Rightarrow> tcp_server \<Rightarrow> tcp_server" where
  "upd_session r f w = w\<lparr>ts_heap := (ts_heap w)(r := map_option f (ts_heap w r))\<rparr>"

section \<open>Sessions that connect and leave\<close>

text \<open>\<^verbatim>\<open>Service::CreateSession\<close>: a null reference when the completion port refuses the socket.\<close>

definition CreateSession :: "session_ref \<Rightarrow> bool \<Rightarrow> tcp_server \<Rightarrow> session_ref option \<times> tcp_server" where
  "CreateSession r registered w =
     (let w = w\<lparr>ts_heap := (ts_heap w)(r := Some new_session)\<rparr>
      in if \<not> registered then (None, w) else (Some r, w))"

definition GameSession_OnConnected :: "session_ref \<Rightarrow> tcp_server \<Rightarrow> tcp_server" where
  "GameSession_OnConnected r w = w\<lparr>ts_manager := GameSessionManager_Add r (ts_manager w)\<rparr>"

definition GameSession_OnDisconnected :: "session_ref \<Rightarrow> tcp_server \<Rightarrow> tcp_server" where
  "GameSession_OnDisconnected r w = w\<lparr>ts_manager := GameSessionManager_Remove r (ts_manager w)\<rparr>"

text \<open>\<^verbatim>\<open>ProcessConnect\<close>: mark as connected, register with the service, tell the content, receive.\<close>

definition connect_store :: "session_ref \<Rightarrow> tcp_server \<Rightarrow> tcp_server" where
  "connect_store r w = upd_session r (\<lambda>s. s\<lparr>ss_connectOwner := False, ss_connected := True\<rparr>) w"

definition connect_add :: "session_ref \<Rightarrow> tcp_server \<Rightarrow> tcp_server" where
  "connect_add r w = w\<lparr>ts_service := AddSession r (ts_service w)\<rparr>"

definition ProcessConnect :: "os_results \<Rightarrow> session_ref \<Rightarrow> tcp_server \<Rightarrow> tcp_server" where
  "ProcessConnect os r w =
     upd_session r (Session_RegisterRecv os) (GameSession_OnConnected r (connect_add r (connect_store r w)))"

text \<open>\<^verbatim>\<open>ProcessDisconnect\<close>: tell the content, then leave the service.\<close>

definition disconnect_begin :: "session_ref \<Rightarrow> tcp_server \<Rightarrow> tcp_server" where
  "disconnect_begin r w =
     GameSession_OnDisconnected r (upd_session r (\<lambda>s. s\<lparr>ss_disconnectOwner := False\<rparr>) w)"

definition disconnect_end :: "session_ref \<Rightarrow> tcp_server \<Rightarrow> tcp_server result" where
  "disconnect_end r w = bindr (ReleaseSession r (ts_service w)) (\<lambda>sv. Inr (w\<lparr>ts_service := sv\<rparr>))"

definition ProcessDisconnect :: "session_ref \<Rightarrow> tcp_server \<Rightarrow> tcp_server result" where
  "ProcessDisconnect r w = disconnect_end r (disconnect_begin r w)"

text \<open>\<^verbatim>\<open>GameSessionManager::Broadcast\<close>; the results of the calls may differ from session to session.\<close>

definition GameSessionManager_Broadcast ::
  "(session_ref \<Rightarrow> os_results) \<Rightarrow> send_buffer \<Rightarrow> tcp_server \<Rightarrow> tcp_server" where
  "GameSessionManager_Broadcast os buf w =
     fold (\<lambda>r. upd_session r (Session_Send (os r) buf)) (ts_manager w) w"

section \<open>The listener\<close>

record accept_try =
  at_address :: session_ref
  at_registered :: bool
  at_acceptEx :: "i32 option"

text \<open>
  \<^verbatim>\<open>RegisterAccept\<close> calls itself after every failure of \<^verbatim>\<open>AcceptEx\<close>; the tries are a function, and
  \<^const>\<open>None\<close> says that it never comes back.
\<close>

partial_function (option) RegisterAccept ::
  "(nat \<Rightarrow> accept_try) \<Rightarrow> nat \<Rightarrow> tcp_server \<Rightarrow> (session_ref \<times> tcp_server) result option" where
  "RegisterAccept tries k w =
     (let (session, w) = CreateSession (at_address (tries k)) (at_registered (tries k)) w in
      case session of None \<Rightarrow> Some (Inl NullDeref)
      | Some r \<Rightarrow>
          if failed (at_acceptEx (tries k)) then RegisterAccept tries (Suc k) w else Some (Inr (r, w)))"

definition arm :: "(nat \<Rightarrow> accept_try) \<Rightarrow> nat \<Rightarrow> tcp_server \<Rightarrow> tcp_server result option" where
  "arm tries i w = map_option (\<lambda>x. bindr x (\<lambda>(r, w).
     Inr (w\<lparr>ts_accepts := (ts_accepts w)[i := (Armed, r)]\<rparr>))) (RegisterAccept tries 0 w)"

text \<open>How far the handling of the event \<open>i\<close> has come; the source has no such variable.\<close>

definition set_pc :: "nat \<Rightarrow> accept_pc \<Rightarrow> tcp_server \<Rightarrow> tcp_server" where
  "set_pc i pc w = w\<lparr>ts_accepts := (ts_accepts w)[i := (pc, snd (ts_accepts w ! i))]\<rparr>"

text \<open>
  \<^verbatim>\<open>ProcessAccept\<close> for the event number \<open>i\<close>: \<open>updated\<close> is the result of \<^verbatim>\<open>SetUpdateAcceptSocket\<close>,
  \<open>peer\<close> what \<^verbatim>\<open>getpeername\<close> gives.
\<close>

definition ProcessAccept ::
  "bool \<Rightarrow> sockaddr_in option \<Rightarrow> os_results \<Rightarrow> (nat \<Rightarrow> accept_try) \<Rightarrow> nat \<Rightarrow> tcp_server \<Rightarrow> tcp_server result option" where
  "ProcessAccept updated peer os tries i w =
     (let session = snd (ts_accepts w ! i) in
      if \<not> updated then arm tries i (set_pc i Rearming w)
      else (case peer of None \<Rightarrow> arm tries i (set_pc i Rearming w)
        | Some sockAddress \<Rightarrow>
            let w = upd_session session (\<lambda>s. s\<lparr>ss_netAddress := NetAddress_of_sockaddr sockAddress\<rparr>) w;
                w = ProcessConnect os session w
            in arm tries i (set_pc i Rearming w)))"

fun accept_loop :: "(nat \<Rightarrow> nat \<Rightarrow> accept_try) \<Rightarrow> nat \<Rightarrow> nat \<Rightarrow> tcp_server \<Rightarrow> (bool \<times> tcp_server) result option" where
  "accept_loop tries i 0 w = Some (Inr (True, w))"
| "accept_loop tries i (Suc n) w =
     (case RegisterAccept (tries i) 0 w of
        None \<Rightarrow> None
      | Some (Inl e) \<Rightarrow> Some (Inl e)
      | Some (Inr (r, w)) \<Rightarrow> accept_loop tries (Suc i) n (w\<lparr>ts_accepts := ts_accepts w @ [(Armed, r)]\<rparr>))"

record listen_results =
  lr_socket :: bool
  lr_register :: bool
  lr_reuse :: bool
  lr_linger :: bool
  lr_bind :: bool
  lr_listen :: bool

definition StartAccept ::
  "listen_results \<Rightarrow> (nat \<Rightarrow> nat \<Rightarrow> accept_try) \<Rightarrow> tcp_server \<Rightarrow> (bool \<times> tcp_server) result option" where
  "StartAccept lr tries w =
     (if \<not> lr_socket lr then Some (Inr (False, w))
      else let w = w\<lparr>ts_listenSocket := True\<rparr> in
        if \<not> lr_register lr then Some (Inr (False, w))
        else if \<not> lr_reuse lr then Some (Inr (False, w))
        else if \<not> lr_linger lr then Some (Inr (False, w))
        else if \<not> lr_bind lr then Some (Inr (False, w))
        else if \<not> lr_listen lr then Some (Inr (False, w))
        else accept_loop tries 0 (nat (sint (sc_maxSessionCount (ts_service w)))) w)"

definition Listener_CloseSocket :: "tcp_server \<Rightarrow> tcp_server" where
  "Listener_CloseSocket w = w\<lparr>ts_listenSocket := False\<rparr>"

definition ServerService_Start ::
  "listen_results \<Rightarrow> (nat \<Rightarrow> nat \<Rightarrow> accept_try) \<Rightarrow> tcp_server \<Rightarrow> (bool \<times> tcp_server) result option" where
  "ServerService_Start lr tries w =
     (if \<not> CanStart (ts_service w) then Some (Inr (False, w)) else StartAccept lr tries w)"

section \<open>Connecting to another server\<close>

record connect_results =
  cr_address :: session_ref
  cr_registered :: bool
  cr_reuse :: bool
  cr_bind :: bool
  cr_connectEx :: "i32 option"

definition Session_RegisterConnect :: "service_type \<Rightarrow> connect_results \<Rightarrow> tcp_session \<Rightarrow> bool \<times> tcp_session" where
  "Session_RegisterConnect ty cr s =
     (if ss_connected s then (False, s)
      else if ty \<noteq> Client then (False, s)
      else if \<not> cr_reuse cr then (False, s)
      else if \<not> cr_bind cr then (False, s)
      else let s = s\<lparr>ss_connectOwner := True\<rparr> in
        if failed (cr_connectEx cr) then (False, s\<lparr>ss_connectOwner := False\<rparr>) else (True, s))"

fun connect_loop :: "(nat \<Rightarrow> connect_results) \<Rightarrow> nat \<Rightarrow> nat \<Rightarrow> tcp_server \<Rightarrow> (bool \<times> tcp_server) result" where
  "connect_loop crs i 0 w = Inr (True, w)"
| "connect_loop crs i (Suc n) w =
     (let (session, w) = CreateSession (cr_address (crs i)) (cr_registered (crs i)) w in
      case session of None \<Rightarrow> Inl NullDeref
      | Some r \<Rightarrow>
          let (connected, s) = Session_RegisterConnect (sc_type (ts_service w)) (crs i) (the (ts_heap w r));
              w = upd_session r (\<lambda>_. s) w
          in if \<not> connected then Inr (False, w) else connect_loop crs (Suc i) n w)"

definition ClientService_Start :: "(nat \<Rightarrow> connect_results) \<Rightarrow> tcp_server \<Rightarrow> (bool \<times> tcp_server) result" where
  "ClientService_Start crs w =
     (if \<not> CanStart (ts_service w) then Inr (False, w)
      else connect_loop crs 0 (nat (sint (sc_maxSessionCount (ts_service w)))) w)"

section \<open>Dispatch\<close>

definition Session_Dispatch ::
  "os_results \<Rightarrow> session_ref \<Rightarrow> event_type \<Rightarrow> i32 \<Rightarrow> tcp_server \<Rightarrow> tcp_server result option" where
  "Session_Dispatch os r ty numOfBytes w =
     (case ty of
        ConnectEvent \<Rightarrow> Some (Inr (ProcessConnect os r w))
      | DisconnectEvent \<Rightarrow> Some (ProcessDisconnect r w)
      | RecvEvent \<Rightarrow> map_option (\<lambda>x. bindr x (\<lambda>s. Inr (upd_session r (\<lambda>_. s) w)))
          (Session_ProcessRecv os numOfBytes (the (ts_heap w r)))
      | SendEvent \<Rightarrow> Some (Inr (upd_session r (Session_ProcessSend os numOfBytes) w))
      | AcceptEvent \<Rightarrow> Some (Inr w))"

definition Listener_Dispatch ::
  "bool \<Rightarrow> sockaddr_in option \<Rightarrow> os_results \<Rightarrow> (nat \<Rightarrow> accept_try) \<Rightarrow> nat \<Rightarrow> event_type \<Rightarrow> tcp_server \<Rightarrow>
     tcp_server result option" where
  "Listener_Dispatch updated peer os tries i ty w =
     (if ty \<noteq> AcceptEvent then Some (Inl (Crash ''ASSERT_CRASH''))
      else ProcessAccept updated peer os tries i w)"

section \<open>Steps\<close>

text \<open>What a thread may do to one session in one atomic part of sending, receiving or closing.\<close>

inductive session_op :: "tcp_session \<Rightarrow> tcp_session \<Rightarrow> bool" where
  op_recv: "ss_recvOwner s \<Longrightarrow> Session_ProcessRecv os n (s\<lparr>ss_recvBuffer := b\<rparr>) = Some (Inr s') \<Longrightarrow> session_op s s'"
| op_push: "ss_connected s \<Longrightarrow> session_op s (snd (Session_push buf s))"
| op_drain: "ss_connected s \<Longrightarrow> session_op s (Session_drain s)"
| op_call: "session_op s (Session_WSASend os s)"
| op_complete: "ss_sendPosted s \<Longrightarrow> session_op s (Session_ProcessSend os n s)"
| op_close: "session_op s (Session_Disconnect os s)"

text \<open>
  Only the thread that connects a session knows it until the manager holds it: nobody else gets the
  reference before \<^verbatim>\<open>OnConnected\<close>.
\<close>

definition published :: "session_ref \<Rightarrow> tcp_server \<Rightarrow> bool" where
  "published r w \<longleftrightarrow> (Adding, r) \<notin> set (ts_accepts w) \<and> (Informing, r) \<notin> set (ts_accepts w)"

inductive tcp_step :: "tcp_server \<Rightarrow> tcp_server \<Rightarrow> bool" where
  accepted: "i < length (ts_accepts w) \<Longrightarrow> ts_accepts w ! i = (Armed, r) \<Longrightarrow>
    tcp_step w (set_pc i Adding (connect_store r
      (upd_session r (\<lambda>s. s\<lparr>ss_netAddress := NetAddress_of_sockaddr a\<rparr>) w)))"
| refused: "i < length (ts_accepts w) \<Longrightarrow> ts_accepts w ! i = (Armed, r) \<Longrightarrow> tcp_step w (set_pc i Rearming w)"
| added: "i < length (ts_accepts w) \<Longrightarrow> ts_accepts w ! i = (Adding, r) \<Longrightarrow>
    tcp_step w (set_pc i Informing (connect_add r w))"
| informed: "i < length (ts_accepts w) \<Longrightarrow> ts_accepts w ! i = (Informing, r) \<Longrightarrow>
    tcp_step w (set_pc i Receiving (GameSession_OnConnected r w))"
| receiving: "i < length (ts_accepts w) \<Longrightarrow> ts_accepts w ! i = (Receiving, r) \<Longrightarrow>
    tcp_step w (set_pc i Rearming (upd_session r (Session_RegisterRecv os) w))"
| rearmed: "i < length (ts_accepts w) \<Longrightarrow> ts_accepts w ! i = (Rearming, r) \<Longrightarrow>
    (\<And>k. ts_heap w (at_address (tries k)) = None) \<Longrightarrow> arm tries i w = Some (Inr w') \<Longrightarrow> tcp_step w w'"
| session: "ts_heap w r = Some s \<Longrightarrow> published r w \<Longrightarrow> session_op s s' \<Longrightarrow>
    tcp_step w (w\<lparr>ts_heap := (ts_heap w)(r := Some s')\<rparr>)"
| leaves: "ts_heap w r = Some s \<Longrightarrow> ss_disconnectOwner s \<Longrightarrow>
    tcp_step w ((disconnect_begin r w)\<lparr>ts_leaving := ts_leaving w @ [r]\<rparr>)"
| released: "ts_leaving w = xs @ r # ys \<Longrightarrow> disconnect_end r w = Inr w' \<Longrightarrow>
    tcp_step w (w'\<lparr>ts_leaving := xs @ ys\<rparr>)"

inductive tcp_run :: "nat \<Rightarrow> tcp_server \<Rightarrow> tcp_server \<Rightarrow> bool" where
  trun_refl: "tcp_run 0 w w"
| trun_step: "tcp_run n w v \<Longrightarrow> tcp_step v u \<Longrightarrow> tcp_run (Suc n) w u"

end
