(* ===== verification/TcpTables.thy ===== *)
theory TcpTables
  imports TcpServer
begin

text \<open>
  The tables of the TCP server agree in every interleaving of the steps of \<open>TcpServer\<close>: the
  invariant \<open>tcp_ok\<close>, its preservation, and what follows for the service and the session manager.
\<close>

section \<open>What one session does to itself\<close>

definition moves :: "tcp_session \<Rightarrow> tcp_session \<Rightarrow> bool" where
  "moves s s' \<longleftrightarrow> ss_connected s' = ss_connected s \<and> ss_disconnectOwner s' = ss_disconnectOwner s \<or>
     ss_connected s \<and> \<not> ss_connected s'"

lemma moves_same: "ss_connected s' = ss_connected s \<Longrightarrow> ss_disconnectOwner s' = ss_disconnectOwner s \<Longrightarrow> moves s s'"
  by (simp add: moves_def)

lemma moves_trans: "moves s t \<Longrightarrow> moves t u \<Longrightarrow> moves s u"
  by (auto simp: moves_def)

lemma moves_Disconnect:
  "ss_connected s = ss_connected t \<Longrightarrow> ss_disconnectOwner s = ss_disconnectOwner t \<Longrightarrow> moves t (Session_Disconnect os s)"
  by (cases "ss_connected s") (simp_all add: moves_def, simp add: Session_Disconnect_def)

lemma moves_HandleError:
  "ss_connected s = ss_connected t \<Longrightarrow> ss_disconnectOwner s = ss_disconnectOwner t \<Longrightarrow> moves t (Session_HandleError os e s)"
  by (simp add: Session_HandleError_def moves_Disconnect moves_same)

lemma moves_update:
  "moves s t \<Longrightarrow> ss_connected t' = ss_connected t \<Longrightarrow> ss_disconnectOwner t' = ss_disconnectOwner t \<Longrightarrow> moves s t'"
  by (simp add: moves_def)

lemma moves_RegisterRecv:
  assumes "ss_connected s = ss_connected t" "ss_disconnectOwner s = ss_disconnectOwner t"
  shows "moves t (Session_RegisterRecv os s)"
proof (cases "ss_connected s \<and> failed (os_recv os)")
  case True
  have "moves t (Session_HandleError os e (s\<lparr>ss_recvOwner := True, ss_wsaBuf := x\<rparr>))" for e x
    using assms by (intro moves_HandleError) simp_all
  from moves_update [OF this] True show ?thesis by (simp add: Session_RegisterRecv_def Let_def)
next
  case False
  with assms show ?thesis by (auto simp: Session_RegisterRecv_def Let_def moves_same)
qed

lemma moves_WSASend:
  assumes "ss_connected s = ss_connected t" "ss_disconnectOwner s = ss_disconnectOwner t"
  shows "moves t (Session_WSASend os s)"
proof (cases "failed (os_send os)")
  case True
  then show ?thesis
    unfolding Session_WSASend_def by (simp add: moves_update [OF moves_HandleError [OF assms]])
next
  case False
  with assms show ?thesis by (simp add: Session_WSASend_def moves_same)
qed

lemma moves_ProcessRecv:
  assumes "Session_ProcessRecv os n s = Some (Inr s')"
    and t: "ss_connected s = ss_connected t" "ss_disconnectOwner s = ss_disconnectOwner t"
  shows "moves t s'"
  using assms(1) t
  by (auto simp: Session_ProcessRecv_def Let_def bindr_Inr_iff split_beta
      intro!: moves_Disconnect moves_RegisterRecv split: if_splits option.splits)

lemma moves_ProcessSend: "moves s (Session_ProcessSend os n s)"
  by (auto simp: Session_ProcessSend_def Session_RegisterSend_def Session_drain_def Let_def
      intro!: moves_Disconnect moves_WSASend intro: moves_same)

lemma session_op_moves: "session_op s s' \<Longrightarrow> moves s s'"
proof (induction rule: session_op.induct)
  case (op_recv s os n b s')
  then show ?case by (intro moves_ProcessRecv [OF op_recv(2)]) simp_all
next
  case (op_call s os)
  show ?case by (rule moves_WSASend) simp_all
next
  case (op_complete s os n)
  show ?case by (rule moves_ProcessSend)
next
  case (op_close s os)
  show ?case by (rule moves_Disconnect) simp_all
qed (simp_all add: Session_push_def Session_drain_def moves_same)

section \<open>The invariant\<close>

definition tcp_ok :: "nat \<Rightarrow> tcp_server \<Rightarrow> bool" where
  "tcp_ok n w \<longleftrightarrow>
     service_ok (ts_service w) \<and> length (sc_sessions (ts_service w)) \<le> n \<and>
     refs_ok (ts_manager w) \<and> distinct (ts_leaving w) \<and> distinct (map snd (ts_accepts w)) \<and>
     set (sc_sessions (ts_service w)) =
       set (ts_manager w) \<union> set (ts_leaving w) \<union> {r. (Informing, r) \<in> set (ts_accepts w)} \<and>
     set (ts_manager w) \<inter> set (ts_leaving w) = {} \<and>
     (\<forall>(pc, r) \<in> set (ts_accepts w). ts_heap w r \<noteq> None) \<and>
     (\<forall>(pc, r) \<in> set (ts_accepts w). pc \<in> {Armed, Adding, Informing} \<longrightarrow>
        r \<notin> set (ts_manager w) \<and> r \<notin> set (ts_leaving w) \<and>
        ss_connected (the (ts_heap w r)) = (pc \<noteq> Armed) \<and> \<not> ss_disconnectOwner (the (ts_heap w r))) \<and>
     (\<forall>r s. ts_heap w r = Some s \<longrightarrow> ss_disconnectOwner s \<longrightarrow> r \<in> set (ts_manager w) \<and> \<not> ss_connected s) \<and>
     (\<forall>r s. ts_heap w r = Some s \<longrightarrow> ss_connected s \<longrightarrow> r \<in> set (ts_manager w) \<or> \<not> published r w) \<and>
     (\<forall>r \<in> set (ts_leaving w). \<exists>s. ts_heap w r = Some s \<and> \<not> ss_connected s \<and> \<not> ss_disconnectOwner s) \<and>
     (\<forall>r \<in> set (ts_manager w). ts_heap w r \<noteq> None)"

lemma tcp_okI:
  assumes "service_ok (ts_service w)" "length (sc_sessions (ts_service w)) \<le> n"
    "refs_ok (ts_manager w)" "distinct (ts_leaving w)" "distinct (map snd (ts_accepts w))"
    "set (sc_sessions (ts_service w)) =
       set (ts_manager w) \<union> set (ts_leaving w) \<union> {r. (Informing, r) \<in> set (ts_accepts w)}"
    "set (ts_manager w) \<inter> set (ts_leaving w) = {}"
    "\<And>pc r. (pc, r) \<in> set (ts_accepts w) \<Longrightarrow> ts_heap w r \<noteq> None"
    "\<And>pc r. (pc, r) \<in> set (ts_accepts w) \<Longrightarrow> pc \<in> {Armed, Adding, Informing} \<Longrightarrow>
        r \<notin> set (ts_manager w) \<and> r \<notin> set (ts_leaving w) \<and>
        ss_connected (the (ts_heap w r)) = (pc \<noteq> Armed) \<and> \<not> ss_disconnectOwner (the (ts_heap w r))"
    "\<And>r s. ts_heap w r = Some s \<Longrightarrow> ss_disconnectOwner s \<Longrightarrow> r \<in> set (ts_manager w) \<and> \<not> ss_connected s"
    "\<And>r s. ts_heap w r = Some s \<Longrightarrow> ss_connected s \<Longrightarrow> r \<in> set (ts_manager w) \<or> \<not> published r w"
    "\<And>r. r \<in> set (ts_leaving w) \<Longrightarrow> \<exists>s. ts_heap w r = Some s \<and> \<not> ss_connected s \<and> \<not> ss_disconnectOwner s"
    "\<And>r. r \<in> set (ts_manager w) \<Longrightarrow> ts_heap w r \<noteq> None"
  shows "tcp_ok n w"
  unfolding tcp_ok_def using assms(1-7) by (intro conjI ballI allI impI) (use assms(8-) in \<open>auto\<close>)

lemma tcp_okD:
  assumes "tcp_ok n w"
  shows "service_ok (ts_service w)" "length (sc_sessions (ts_service w)) \<le> n"
    "refs_ok (ts_manager w)" "distinct (ts_leaving w)" "distinct (map snd (ts_accepts w))"
    "set (sc_sessions (ts_service w)) =
       set (ts_manager w) \<union> set (ts_leaving w) \<union> {r. (Informing, r) \<in> set (ts_accepts w)}"
    "set (ts_manager w) \<inter> set (ts_leaving w) = {}"
    "(pc, r) \<in> set (ts_accepts w) \<Longrightarrow> ts_heap w r \<noteq> None"
    "(pc, r) \<in> set (ts_accepts w) \<Longrightarrow> pc \<in> {Armed, Adding, Informing} \<Longrightarrow>
        r \<notin> set (ts_manager w) \<and> r \<notin> set (ts_leaving w) \<and>
        ss_connected (the (ts_heap w r)) = (pc \<noteq> Armed) \<and> \<not> ss_disconnectOwner (the (ts_heap w r))"
    "ts_heap w r = Some s \<Longrightarrow> ss_disconnectOwner s \<Longrightarrow> r \<in> set (ts_manager w) \<and> \<not> ss_connected s"
    "ts_heap w r = Some s \<Longrightarrow> ss_connected s \<Longrightarrow> r \<in> set (ts_manager w) \<or> \<not> published r w"
    "r \<in> set (ts_leaving w) \<Longrightarrow> \<exists>s. ts_heap w r = Some s \<and> \<not> ss_connected s \<and> \<not> ss_disconnectOwner s"
    "r \<in> set (ts_manager w) \<Longrightarrow> ts_heap w r \<noteq> None"
  using assms unfolding tcp_ok_def by fast+

section \<open>Every step keeps it\<close>

lemma tcp_ok_heap:
  assumes ok: "tcp_ok n w" and r: "ts_heap w r = Some s" and pub: "published r w" and m: "moves s s'"
  shows "tcp_ok n (w\<lparr>ts_heap := (ts_heap w)(r := Some s')\<rparr>)" (is "tcp_ok n ?w")
proof (rule tcp_okI)
  fix pc x assume x: "(pc, x) \<in> set (ts_accepts ?w)"
  then show "ts_heap ?w x \<noteq> None" using tcp_okD(8) [OF ok] by auto
  assume pc: "pc \<in> {Armed, Adding, Informing}"
  have "x = r \<Longrightarrow> pc = Armed" using pub x pc by (auto simp: published_def)
  then show "x \<notin> set (ts_manager ?w) \<and> x \<notin> set (ts_leaving ?w) \<and>
      ss_connected (the (ts_heap ?w x)) = (pc \<noteq> Armed) \<and> \<not> ss_disconnectOwner (the (ts_heap ?w x))"
    using tcp_okD(9) [OF ok, of pc x] x pc m r by (auto simp: moves_def)
next
  fix x t assume x: "ts_heap ?w x = Some t"
  then show "x \<in> set (ts_manager ?w) \<and> \<not> ss_connected t" if "ss_disconnectOwner t"
    using tcp_okD(10) [OF ok, of x] tcp_okD(11) [OF ok r] that pub m r by (auto simp: moves_def split: if_splits)
  show "x \<in> set (ts_manager ?w) \<or> \<not> published x ?w" if "ss_connected t"
    using tcp_okD(11) [OF ok, of x] x that m r by (auto simp: moves_def published_def split: if_splits)
next
  fix x assume "x \<in> set (ts_leaving ?w)"
  then show "\<exists>t. ts_heap ?w x = Some t \<and> \<not> ss_connected t \<and> \<not> ss_disconnectOwner t"
    using tcp_okD(12) [OF ok, of x] m r by (auto simp: moves_def)
next
  fix x assume "x \<in> set (ts_manager ?w)"
  then show "ts_heap ?w x \<noteq> None" using tcp_okD(13) [OF ok, of x] by auto
qed (simp_all add: tcp_okD(1-7) [OF ok])

lemma accepts_update:
  assumes "i < length acc" "acc ! i = (pc, r)" "distinct (map snd acc)"
  shows "(p, x) \<in> set (acc[i := (pc', r)]) \<longleftrightarrow> (if x = r then p = pc' else (p, x) \<in> set acc)"
proof -
  have *: "(p, r) \<in> set acc \<longleftrightarrow> p = pc" for p
    using assms by (metis (no_types, lifting) in_set_conv_nth distinct_conv_nth length_map nth_map snd_conv fst_conv)
  have "set (acc[i := (pc', r)]) = insert (pc', r) (set acc - {(pc, r)})"
    using assms by (simp add: set_update_distinct distinct_map)
  then show ?thesis using * by auto
qed

lemma set_pc_accepts:
  "ts_accepts w ! i = (pc, r) \<Longrightarrow> ts_accepts (set_pc i pc' w) = (ts_accepts w)[i := (pc', r)]"
  by (simp add: set_pc_def)

lemma map_snd_update: "acc ! i = (pc, r) \<Longrightarrow> map snd (acc[i := (pc', r)]) = map snd acc"
  by (metis list_update_id map_update snd_conv)

lemma in_accepts: "i < length acc \<Longrightarrow> acc ! i = x \<Longrightarrow> x \<in> set acc"
  by auto

lemma accepts_pc:
  assumes ok: "tcp_ok n w" and i: "i < length (ts_accepts w)" "ts_accepts w ! i = (pc, r)"
  shows "(p, x) \<in> set ((ts_accepts w)[i := (pc', r)]) \<longleftrightarrow> (if x = r then p = pc' else (p, x) \<in> set (ts_accepts w))"
  by (rule accepts_update [OF i tcp_okD(5) [OF ok]])

lemma one_pc:
  assumes ok: "tcp_ok n w" and i: "i < length (ts_accepts w)" "ts_accepts w ! i = (pc, r)"
  shows "(p, r) \<in> set (ts_accepts w) \<longleftrightarrow> p = pc"
  using accepts_pc [OF ok i, of p r pc] i by (simp add: list_update_same_conv [THEN iffD2])

lemma accept_here:
  assumes ok: "tcp_ok n w" and i: "i < length (ts_accepts w)" "ts_accepts w ! i = (pc, r)"
  shows "ts_heap w r \<noteq> None"
    and "pc \<in> {Armed, Adding, Informing} \<Longrightarrow> r \<notin> set (ts_manager w) \<and> r \<notin> set (ts_leaving w) \<and>
      ss_connected (the (ts_heap w r)) = (pc \<noteq> Armed) \<and> \<not> ss_disconnectOwner (the (ts_heap w r))"
  using tcp_okD(8,9) [OF ok in_accepts [OF i]] by auto

lemma step_accepted:
  assumes ok: "tcp_ok n w" and i: "i < length (ts_accepts w)" "ts_accepts w ! i = (pc, r)" and "pc = Armed"
  shows "tcp_ok n (set_pc i Adding (connect_store r (upd_session r (\<lambda>s. s\<lparr>ss_netAddress := a\<rparr>) w)))" (is "tcp_ok n ?w")
proof -
  obtain s where s: "ts_heap w r = Some s" "\<not> ss_disconnectOwner s" "r \<notin> set (ts_manager w)" "r \<notin> set (ts_leaving w)"
    using accept_here [OF ok i] assms by auto
  have w: "ts_accepts ?w = (ts_accepts w)[i := (Adding, r)]" "ts_service ?w = ts_service w" "ts_manager ?w = ts_manager w"
    "ts_leaving ?w = ts_leaving w"
    "ts_heap ?w = (ts_heap w)(r \<mapsto> s\<lparr>ss_netAddress := a, ss_connectOwner := False, ss_connected := True\<rparr>)"
    using i s(1) by (simp_all add: set_pc_def connect_store_def upd_session_def)
  show ?thesis
  proof (rule tcp_okI; unfold w)
    show "set (sc_sessions (ts_service w)) = set (ts_manager w) \<union> set (ts_leaving w) \<union>
        {x. (Informing, x) \<in> set ((ts_accepts w)[i := (Adding, r)])}"
      using tcp_okD(6) [OF ok] one_pc [OF ok i] assms by (auto simp: accepts_pc [OF ok i])
  qed (use tcp_okD [OF ok] s i in \<open>auto simp: w(1) accepts_pc [OF ok i] published_def map_snd_update split: if_splits\<close>)
qed

lemma step_refused:
  assumes ok: "tcp_ok n w" and i: "i < length (ts_accepts w)" "ts_accepts w ! i = (pc, r)" and "pc = Armed"
  shows "tcp_ok n (set_pc i Rearming w)" (is "tcp_ok n ?w")
proof -
  have w: "ts_accepts ?w = (ts_accepts w)[i := (Rearming, r)]" "ts_service ?w = ts_service w" "ts_manager ?w = ts_manager w"
    "ts_leaving ?w = ts_leaving w" "ts_heap ?w = ts_heap w"
    using i by (simp_all add: set_pc_def)
  show ?thesis
  proof (rule tcp_okI; unfold w)
    show "set (sc_sessions (ts_service w)) = set (ts_manager w) \<union> set (ts_leaving w) \<union>
        {x. (Informing, x) \<in> set ((ts_accepts w)[i := (Rearming, r)])}"
      using tcp_okD(6) [OF ok] one_pc [OF ok i] assms by (auto simp: accepts_pc [OF ok i])
  next
    fix x s assume "ts_heap w x = Some s" "ss_connected s"
    then show "x \<in> set (ts_manager w) \<or> \<not> published x ?w"
      using tcp_okD(11) [OF ok, of x s] accept_here [OF ok i] assms by (auto simp: w(1) accepts_pc [OF ok i] published_def)
  qed (use tcp_okD [OF ok] i accept_here [OF ok i] in \<open>auto simp: accepts_pc [OF ok i] map_snd_update split: if_splits\<close>)
qed

lemma step_added:
  assumes ok: "tcp_ok n w" and i: "i < length (ts_accepts w)" "ts_accepts w ! i = (pc, r)" and "pc = Adding" and "n < 2147483647"
  shows "tcp_ok (Suc n) (set_pc i Informing (connect_add r w))" (is "tcp_ok _ ?w")
proof -
  have w: "ts_accepts ?w = (ts_accepts w)[i := (Informing, r)]" "ts_service ?w = AddSession r (ts_service w)"
    "ts_manager ?w = ts_manager w" "ts_leaving ?w = ts_leaving w" "ts_heap ?w = ts_heap w"
    using i by (simp_all add: set_pc_def connect_add_def)
  have new: "r \<notin> set (sc_sessions (ts_service w))"
    using tcp_okD(6) [OF ok] accept_here [OF ok i] one_pc [OF ok i] assms(4) by auto
  have sv: "service_ok (AddSession r (ts_service w))"
    using tcp_okD(1,2) [OF ok] new assms(5) by (intro AddSession_ok) auto
  show ?thesis
  proof (rule tcp_okI; unfold w)
    show "set (sc_sessions (AddSession r (ts_service w))) = set (ts_manager w) \<union> set (ts_leaving w) \<union>
        {x. (Informing, x) \<in> set ((ts_accepts w)[i := (Informing, r)])}"
      using tcp_okD(6) [OF ok] by (auto simp: accepts_pc [OF ok i] AddSession_def)
  next
    show "length (sc_sessions (AddSession r (ts_service w))) \<le> Suc n"
      using tcp_okD(2) [OF ok] new by (simp add: AddSession_def set_insert_def)
  next
    fix x s assume "ts_heap w x = Some s" "ss_connected s"
    then show "x \<in> set (ts_manager w) \<or> \<not> published x ?w"
      using tcp_okD(11) [OF ok, of x s] accept_here [OF ok i] assms by (auto simp: w(1) accepts_pc [OF ok i] published_def)
  qed (use tcp_okD [OF ok] sv i accept_here [OF ok i] assms in \<open>auto simp: accepts_pc [OF ok i] map_snd_update split: if_splits\<close>)
qed

lemma step_informed:
  assumes ok: "tcp_ok n w" and i: "i < length (ts_accepts w)" "ts_accepts w ! i = (pc, r)" and "pc = Informing"
  shows "tcp_ok n (set_pc i Receiving (GameSession_OnConnected r w))" (is "tcp_ok _ ?w")
proof -
  have w: "ts_accepts ?w = (ts_accepts w)[i := (Receiving, r)]" "ts_service ?w = ts_service w"
    "ts_manager ?w = GameSessionManager_Add r (ts_manager w)" "ts_leaving ?w = ts_leaving w" "ts_heap ?w = ts_heap w"
    using i by (simp_all add: set_pc_def GameSession_OnConnected_def)
  have m: "set (GameSessionManager_Add r (ts_manager w)) = insert r (set (ts_manager w))"
    "refs_ok (GameSessionManager_Add r (ts_manager w))"
    using tcp_okD(3) [OF ok] by (simp_all add: GameSessionManager_Add_def set_insert_ok)
  show ?thesis
  proof (rule tcp_okI; unfold w m)
    show "set (sc_sessions (ts_service w)) = insert r (set (ts_manager w)) \<union> set (ts_leaving w) \<union>
        {x. (Informing, x) \<in> set ((ts_accepts w)[i := (Receiving, r)])}"
      using tcp_okD(6) [OF ok] one_pc [OF ok i] assms by (auto simp: accepts_pc [OF ok i])
  next
    fix x s assume "ts_heap w x = Some s" "ss_connected s"
    then show "x \<in> insert r (set (ts_manager w)) \<or> \<not> published x ?w"
      using tcp_okD(11) [OF ok, of x s] by (auto simp: w(1) accepts_pc [OF ok i] published_def)
  qed (use tcp_okD [OF ok] m(2) i accept_here [OF ok i] assms in \<open>auto simp: accepts_pc [OF ok i] map_snd_update split: if_splits\<close>)
qed

lemma step_receiving:
  assumes ok: "tcp_ok n w" and i: "i < length (ts_accepts w)" "ts_accepts w ! i = (pc, r)" and "pc = Receiving"
  shows "tcp_ok n (set_pc i Rearming (upd_session r (Session_RegisterRecv os) w))" (is "tcp_ok _ ?w")
proof -
  obtain s where s: "ts_heap w r = Some s" using accept_here [OF ok i] by auto
  have "published r w" using one_pc [OF ok i] assms by (simp add: published_def)
  then have ok': "tcp_ok n (w\<lparr>ts_heap := (ts_heap w)(r \<mapsto> Session_RegisterRecv os s)\<rparr>)" (is "tcp_ok n ?v")
    by (intro tcp_ok_heap [OF ok s] moves_RegisterRecv) simp_all
  have w: "ts_accepts ?w = (ts_accepts w)[i := (Rearming, r)]" "ts_service ?w = ts_service w" "ts_manager ?w = ts_manager w"
    "ts_leaving ?w = ts_leaving w" "ts_heap ?w = ts_heap ?v"
    using i s by (simp_all add: set_pc_def upd_session_def)
  have v: "ts_accepts ?v = ts_accepts w" "ts_service ?v = ts_service w" "ts_manager ?v = ts_manager w"
    "ts_leaving ?v = ts_leaving w" by simp_all
  note D = tcp_okD [OF ok', unfolded v]
  have pub: "published x ?v = published x ?w" for x
    using one_pc [OF ok i] assms by (auto simp: published_def w(1) accepts_pc [OF ok i])
  show ?thesis
  proof (rule tcp_okI; unfold w)
    show "set (sc_sessions (ts_service w)) = set (ts_manager w) \<union> set (ts_leaving w) \<union>
        {x. (Informing, x) \<in> set ((ts_accepts w)[i := (Rearming, r)])}"
      using tcp_okD(6) [OF ok] one_pc [OF ok i] assms by (auto simp: accepts_pc [OF ok i])
  next
    fix p x assume x: "(p, x) \<in> set ((ts_accepts w)[i := (Rearming, r)])"
    show "ts_heap ?v x \<noteq> None" by (cases "x = r") (use x tcp_okD(8) [OF ok] in \<open>auto simp: accepts_pc [OF ok i]\<close>)
    assume "p \<in> {Armed, Adding, Informing}"
    then show "x \<notin> set (ts_manager w) \<and> x \<notin> set (ts_leaving w) \<and>
      ss_connected (the (ts_heap ?v x)) = (p \<noteq> Armed) \<and> \<not> ss_disconnectOwner (the (ts_heap ?v x))"
      using x by (intro D(9)) (auto simp: accepts_pc [OF ok i] split: if_splits)
  next
    fix x t assume "ts_heap ?v x = Some t" "ss_connected t"
    then show "x \<in> set (ts_manager w) \<or> \<not> published x ?w" using D(11) pub by blast
  qed (fact D | simp add: map_snd_update i D(5))+
qed

definition accept_effect :: "(nat \<Rightarrow> accept_try) \<Rightarrow> tcp_server \<Rightarrow> (session_ref \<times> tcp_server) result \<Rightarrow> bool" where
  "accept_effect tries w x = (case x of Inl e \<Rightarrow> e = NullDeref
    | Inr (r, w') \<Rightarrow> (\<exists>H. w' = w\<lparr>ts_heap := H\<rparr> \<and> H r = Some new_session \<and> (\<exists>j. r = at_address (tries j)) \<and>
        (\<forall>y. H y = ts_heap w y \<or> H y = Some new_session \<and> (\<exists>j. y = at_address (tries j)))))"

lemma accept_effect_trans:
  assumes "accept_effect tries (w\<lparr>ts_heap := (ts_heap w)(at_address (tries k) \<mapsto> new_session)\<rparr>) x"
  shows "accept_effect tries w x"
proof (cases x)
  case (Inr z)
  obtain r w' where z: "z = (r, w')" by fastforce
  from assms obtain H where H: "w' = w\<lparr>ts_heap := H\<rparr>" "H r = Some new_session" "\<exists>j. r = at_address (tries j)"
    and y: "\<And>y. H y = ((ts_heap w)(at_address (tries k) \<mapsto> new_session)) y \<or>
      H y = Some new_session \<and> (\<exists>j. y = at_address (tries j))"
    by (auto simp: accept_effect_def Inr z)
  have "H y = ts_heap w y \<or> H y = Some new_session \<and> (\<exists>j. y = at_address (tries j))" for y
    using y [of y] by (cases "y = at_address (tries k)") auto
  with H show ?thesis by (auto simp: accept_effect_def Inr z)
qed (use assms in \<open>simp add: accept_effect_def\<close>)

lemma RegisterAccept_effect:
  assumes "RegisterAccept tries k w = Some x"
  shows "accept_effect tries w x"
proof (rule RegisterAccept.raw_induct [where P = "\<lambda>tries k. accept_effect tries", OF _ assms])
  fix rec :: "(nat \<Rightarrow> accept_try) \<Rightarrow> nat \<Rightarrow> tcp_server \<Rightarrow> (session_ref \<times> tcp_server) result option"
    and tries :: "nat \<Rightarrow> accept_try" and k :: nat and w :: tcp_server and x
  let ?w = "w\<lparr>ts_heap := (ts_heap w)(at_address (tries k) \<mapsto> new_session)\<rparr>"
  assume IH: "\<And>tries k w x. rec tries k w = Some x \<Longrightarrow> accept_effect tries w x"
    and eq: "(let (session, w) = CreateSession (at_address (tries k)) (at_registered (tries k)) w in
      case session of None \<Rightarrow> Some (Inl NullDeref)
      | Some r \<Rightarrow> if failed (at_acceptEx (tries k)) then rec tries (Suc k) w else Some (Inr (r, w))) = Some x"
  have "x = Inl NullDeref \<or> x = Inr (at_address (tries k), ?w) \<or> rec tries (Suc k) ?w = Some x"
    by (cases "at_registered (tries k)"; cases "failed (at_acceptEx (tries k))")
       (use eq in \<open>simp_all add: CreateSession_def\<close>)
  then consider "x = Inl NullDeref" | "x = Inr (at_address (tries k), ?w)" | "rec tries (Suc k) ?w = Some x" by blast
  then show "accept_effect tries w x"
  proof cases
    case 2
    show ?thesis unfolding 2 accept_effect_def
      by (auto intro!: exI [of _ "(ts_heap w)(at_address (tries k) \<mapsto> new_session)"] split: if_splits)
  next
    case 3
    show ?thesis by (rule accept_effect_trans) (rule IH [OF 3])
  qed (simp add: accept_effect_def)
qed

lemma tcp_ok_armed:
  assumes ok: "tcp_ok n w" and "RegisterAccept tries 0 w = Some (Inr (q, v))"
    and fresh: "\<And>k. ts_heap w (at_address (tries k)) = None"
    and gone: "\<And>p x. (p, x) \<in> set gone \<Longrightarrow> p = Rearming"
    and acc': "set acc' = insert (Armed, q) (set (ts_accepts w) - set gone)"
    and dist: "(\<And>p. (p, q) \<notin> set (ts_accepts w)) \<Longrightarrow> distinct (map snd acc')"
  shows "tcp_ok n (v\<lparr>ts_accepts := acc'\<rparr>)" (is "tcp_ok n ?w")
proof -
  from RegisterAccept_effect [OF assms(2)] obtain H where H: "v = w\<lparr>ts_heap := H\<rparr>" "H q = Some new_session"
      "ts_heap w q = None" "\<And>y. H y = ts_heap w y \<or> H y = Some new_session \<and> ts_heap w y = None"
    using fresh by (fastforce simp: accept_effect_def)
  have w: "ts_accepts ?w = acc'" "ts_service ?w = ts_service w" "ts_manager ?w = ts_manager w"
    "ts_leaving ?w = ts_leaving w" "ts_heap ?w = H"
    by (simp_all add: H(1))
  have q: "(p, q) \<notin> set (ts_accepts w)" for p using tcp_okD(8) [OF ok, of p q] H(3) by blast
  have acc: "(p, x) \<in> set acc' \<longleftrightarrow> (if x = q then p = Armed else (p, x) \<in> set (ts_accepts w) \<and> (p, x) \<notin> set gone)" for p x
    using q by (auto simp: acc')
  have new: "\<not> ss_connected new_session" "\<not> ss_disconnectOwner new_session" by (simp_all add: new_session_def)
  show ?thesis
  proof (rule tcp_okI; unfold w)
    show "distinct (map snd acc')" by (rule dist) (rule q)
  next
    show "set (sc_sessions (ts_service w)) = set (ts_manager w) \<union> set (ts_leaving w) \<union> {x. (Informing, x) \<in> set acc'}"
      using tcp_okD(6) [OF ok] gone q by (auto simp: acc)
  next
    fix p x assume x: "(p, x) \<in> set acc'"
    show "H x \<noteq> None" using x tcp_okD(8) [OF ok, of p x] H(2) H(4) [of x] by (auto simp: acc split: if_splits)
    assume p: "p \<in> {Armed, Adding, Informing}"
    show "x \<notin> set (ts_manager w) \<and> x \<notin> set (ts_leaving w) \<and>
      ss_connected (the (H x)) = (p \<noteq> Armed) \<and> \<not> ss_disconnectOwner (the (H x))"
    proof (cases "x = q")
      case True
      then show ?thesis using x tcp_okD(12,13) [OF ok, of q] H(2,3) new by (auto simp: acc)
    next
      case False
      then have "(p, x) \<in> set (ts_accepts w)" using x by (simp add: acc)
      from tcp_okD(8) [OF ok this] tcp_okD(9) [OF ok this p] H(4) [of x] show ?thesis by auto
    qed
  next
    fix x s assume x: "H x = Some s"
    show "x \<in> set (ts_manager w) \<and> \<not> ss_connected s" if "ss_disconnectOwner s"
      using tcp_okD(10) [OF ok, of x s] H(4) [of x] x that new(2) by (metis option.inject)
    show "x \<in> set (ts_manager w) \<or> \<not> published x ?w" if c: "ss_connected s"
    proof -
      have h: "ts_heap w x = Some s" using H(4) [of x] x c new(1) by (metis option.inject)
      then have "x \<noteq> q" using H(3) by auto
      with tcp_okD(11) [OF ok h c] gone show ?thesis by (auto simp: published_def w(1) acc)
    qed
  next
    fix x assume "x \<in> set (ts_leaving w)"
    then show "\<exists>s. H x = Some s \<and> \<not> ss_connected s \<and> \<not> ss_disconnectOwner s"
      using tcp_okD(12) [OF ok, of x] H(4) [of x] by auto
  next
    fix x assume "x \<in> set (ts_manager w)"
    then show "H x \<noteq> None" using tcp_okD(13) [OF ok, of x] H(4) [of x] by auto
  qed (fact tcp_okD [OF ok])+
qed

lemma step_rearmed:
  assumes ok: "tcp_ok n w" and i: "i < length (ts_accepts w)" "ts_accepts w ! i = (Rearming, r)"
    and fresh: "\<And>k. ts_heap w (at_address (tries k)) = None" and "arm tries i w = Some (Inr w')"
  shows "tcp_ok n w'"
proof -
  obtain q v where qv: "RegisterAccept tries 0 w = Some (Inr (q, v))" "w' = v\<lparr>ts_accepts := (ts_accepts v)[i := (Armed, q)]\<rparr>"
    using assms(5) by (auto simp: arm_def bindr_Inr_iff)
  have v: "ts_accepts v = ts_accepts w" using RegisterAccept_effect [OF qv(1)] by (auto simp: accept_effect_def)
  show ?thesis unfolding qv(2) v
  proof (rule tcp_ok_armed [OF ok qv(1) fresh, of "[(Rearming, r)]"])
    show "set ((ts_accepts w)[i := (Armed, q)]) = insert (Armed, q) (set (ts_accepts w) - set [(Rearming, r)])"
      using i tcp_okD(5) [OF ok] by (simp add: set_update_distinct distinct_map)
    show "distinct (map snd ((ts_accepts w)[i := (Armed, q)]))" if "\<And>p. (p, q) \<notin> set (ts_accepts w)"
      using that tcp_okD(5) [OF ok] by (auto simp: map_update intro!: distinct_list_update)
  qed simp
qed

lemma step_leaves:
  assumes ok: "tcp_ok n w" and r: "ts_heap w r = Some s" "ss_disconnectOwner s"
  shows "tcp_ok n ((disconnect_begin r w)\<lparr>ts_leaving := ts_leaving w @ [r]\<rparr>)" (is "tcp_ok n ?w")
proof -
  have m: "r \<in> set (ts_manager w)" "\<not> ss_connected s" using tcp_okD(10) [OF ok r] by auto
  have l: "r \<notin> set (ts_leaving w)" using tcp_okD(7) [OF ok] m by auto
  have a: "p \<notin> {Armed, Adding, Informing}" if "(p, r) \<in> set (ts_accepts w)" for p
    using tcp_okD(9) [OF ok that] m by blast
  have w: "ts_accepts ?w = ts_accepts w" "ts_service ?w = ts_service w"
    "ts_manager ?w = GameSessionManager_Remove r (ts_manager w)" "ts_leaving ?w = ts_leaving w @ [r]"
    "ts_heap ?w = (ts_heap w)(r \<mapsto> s\<lparr>ss_disconnectOwner := False\<rparr>)"
    using r by (simp_all add: disconnect_begin_def GameSession_OnDisconnected_def upd_session_def)
  have M: "set (GameSessionManager_Remove r (ts_manager w)) = set (ts_manager w) - {r}"
    "refs_ok (GameSessionManager_Remove r (ts_manager w))"
    using tcp_okD(3) [OF ok] by (simp_all add: GameSessionManager_Remove_def set_erase_set set_erase_ok)
  have pub: "published x ?w = published x w" for x by (simp add: published_def w)
  show ?thesis
  proof (rule tcp_okI; unfold w M pub)
    fix p x assume x: "(p, x) \<in> set (ts_accepts w)"
    show "((ts_heap w)(r \<mapsto> s\<lparr>ss_disconnectOwner := False\<rparr>)) x \<noteq> None" using tcp_okD(8) [OF ok x] by auto
    assume p: "p \<in> {Armed, Adding, Informing}"
    show "x \<notin> set (ts_manager w) - {r} \<and> x \<notin> set (ts_leaving w @ [r]) \<and>
      ss_connected (the (((ts_heap w)(r \<mapsto> s\<lparr>ss_disconnectOwner := False\<rparr>)) x)) = (p \<noteq> Armed) \<and>
      \<not> ss_disconnectOwner (the (((ts_heap w)(r \<mapsto> s\<lparr>ss_disconnectOwner := False\<rparr>)) x))"
      using tcp_okD(9) [OF ok x p] a p x by auto
  next
    fix x t assume "((ts_heap w)(r \<mapsto> s\<lparr>ss_disconnectOwner := False\<rparr>)) x = Some t"
    then show "x \<in> set (ts_manager w) - {r} \<and> \<not> ss_connected t" if "ss_disconnectOwner t"
      using tcp_okD(10) [OF ok, of x t] that by (auto split: if_splits)
  next
    fix x t assume "((ts_heap w)(r \<mapsto> s\<lparr>ss_disconnectOwner := False\<rparr>)) x = Some t"
    then show "x \<in> set (ts_manager w) - {r} \<or> \<not> published x w" if "ss_connected t"
      using tcp_okD(11) [OF ok, of x t] that m by (auto split: if_splits)
  next
    fix x assume "x \<in> set (ts_leaving w @ [r])"
    then show "\<exists>t. ((ts_heap w)(r \<mapsto> s\<lparr>ss_disconnectOwner := False\<rparr>)) x = Some t \<and> \<not> ss_connected t \<and> \<not> ss_disconnectOwner t"
      using tcp_okD(12) [OF ok, of x] m by auto
  next
    fix x assume "x \<in> set (ts_manager w) - {r}"
    then show "((ts_heap w)(r \<mapsto> s\<lparr>ss_disconnectOwner := False\<rparr>)) x \<noteq> None" using tcp_okD(13) [OF ok, of x] by auto
  qed (use tcp_okD(1-7) [OF ok] M(2) m l in auto)
qed

lemma step_released:
  assumes ok: "tcp_ok n w" and r: "ts_leaving w = xs @ r # ys" and "disconnect_end r w = Inr w'"
  shows "tcp_ok n (w'\<lparr>ts_leaving := xs @ ys\<rparr>)" (is "tcp_ok n ?w")
proof -
  have l: "r \<in> set (ts_leaving w)" using r by simp
  then have s: "r \<in> set (sc_sessions (ts_service w))" using tcp_okD(6) [OF ok] by blast
  from sst.leave [OF tcp_okD(1) [OF ok] s] obtain sv where sv: "ReleaseSession r (ts_service w) = Inr sv" "service_ok sv"
    "set (sc_sessions sv) = set (sc_sessions (ts_service w)) - {r}" by blast
  have w': "w' = w\<lparr>ts_service := sv\<rparr>" using assms(3) by (simp add: disconnect_end_def sv(1))
  have w: "ts_accepts ?w = ts_accepts w" "ts_service ?w = sv" "ts_manager ?w = ts_manager w"
    "ts_leaving ?w = xs @ ys" "ts_heap ?w = ts_heap w"
    by (simp_all add: w')
  have len: "length (sc_sessions sv) \<le> n"
    using tcp_okD(2) [OF ok] ReleaseSession_eq [OF s] sv(1) s by (auto simp: length_remove1)
  have a: "(Informing, r) \<notin> set (ts_accepts w)" using tcp_okD(9) [OF ok, of Informing r] l by auto
  have pub: "published x ?w = published x w" for x by (simp add: published_def w)
  have d: "set (xs @ ys) = set (ts_leaving w) - {r}" "distinct (xs @ ys)" using tcp_okD(4) [OF ok] r by auto
  show ?thesis
  proof (rule tcp_okI; unfold w pub d(1))
    show "set (sc_sessions sv) = set (ts_manager w) \<union> (set (ts_leaving w) - {r}) \<union> {x. (Informing, x) \<in> set (ts_accepts w)}"
      using sv(3) tcp_okD(6,7) [OF ok] a l by auto
  qed (use tcp_okD [OF ok] sv(2) len d(2) in auto)
qed

lemma tcp_step_ok: "tcp_step w w' \<Longrightarrow> tcp_ok n w \<Longrightarrow> n < 2147483647 \<Longrightarrow> tcp_ok (Suc n) w'"
proof -
  have mono: "tcp_ok n v \<Longrightarrow> tcp_ok (Suc n) v" for v by (auto simp: tcp_ok_def)
  assume "tcp_step w w'" and ok: "tcp_ok n w" and "n < 2147483647"
  then show "tcp_ok (Suc n) w'"
  proof cases
    case (accepted i r a)
    show ?thesis unfolding accepted(1) by (rule mono) (rule step_accepted [OF ok accepted(2,3) refl])
  next
    case (refused i r)
    show ?thesis unfolding refused(1) by (rule mono) (rule step_refused [OF ok refused(2,3) refl])
  next
    case (added i r)
    show ?thesis unfolding added(1) by (rule step_added [OF ok added(2,3) refl \<open>n < 2147483647\<close>])
  next
    case (informed i r)
    show ?thesis unfolding informed(1) by (rule mono) (rule step_informed [OF ok informed(2,3) refl])
  next
    case (receiving i r os)
    show ?thesis unfolding receiving(1) by (rule mono) (rule step_receiving [OF ok receiving(2,3) refl])
  next
    case (rearmed i r tries)
    show ?thesis by (rule mono) (rule step_rearmed [OF ok rearmed])
  next
    case (session r s s')
    show ?thesis unfolding session(1)
      by (rule mono) (rule tcp_ok_heap [OF ok session(2,3) session_op_moves [OF session(4)]])
  next
    case (leaves r s)
    show ?thesis unfolding leaves(1) by (rule mono) (rule step_leaves [OF ok leaves(2,3)])
  next
    case (released xs r ys v)
    show ?thesis unfolding released(1) by (rule mono) (rule step_released [OF ok released(2,3)])
  qed
qed

lemma tcp_run_ok:
  "tcp_run m w w' \<Longrightarrow> tcp_ok n w \<Longrightarrow> n + m < 2147483648 \<Longrightarrow> tcp_ok (n + m) w'"
proof (induction rule: tcp_run.induct)
  case (trun_step m w v u)
  then show ?case using tcp_step_ok [OF trun_step.hyps(2), of "n + m"] by simp
qed simp

section \<open>The start\<close>

definition separate :: "(nat \<Rightarrow> nat \<Rightarrow> accept_try) \<Rightarrow> bool" where
  "separate tries \<longleftrightarrow> (\<forall>i j k l. at_address (tries i k) = at_address (tries j l) \<longrightarrow> i = j)"

lemma accept_loop_ok:
  assumes "accept_loop tries i m w = Some (Inr (b, w'))" and "tcp_ok n w" and "separate tries"
    and "\<forall>j k. i \<le> j \<longrightarrow> ts_heap w (at_address (tries j k)) = None"
  shows "b \<and> tcp_ok n w'"
  using assms
proof (induction tries i m w rule: accept_loop.induct)
  case (2 tries i m w)
  obtain q v where qv: "RegisterAccept (tries i) 0 w = Some (Inr (q, v))"
    "accept_loop tries (Suc i) m (v\<lparr>ts_accepts := ts_accepts v @ [(Armed, q)]\<rparr>) = Some (Inr (b, w'))"
    using 2(2) by (auto split: option.splits sum.splits)
  from RegisterAccept_effect [OF qv(1)] obtain H where H: "v = w\<lparr>ts_heap := H\<rparr>"
    "\<And>y. H y = ts_heap w y \<or> (\<exists>j. y = at_address (tries i j))" by (fastforce simp: accept_effect_def)
  have ok: "tcp_ok n (v\<lparr>ts_accepts := ts_accepts v @ [(Armed, q)]\<rparr>)"
  proof (rule tcp_ok_armed [OF 2(3) qv(1), of "[]"])
    show "ts_heap w (at_address (tries i k)) = None" for k using 2(5) by simp
    show "distinct (map snd (ts_accepts v @ [(Armed, q)]))" if "\<And>p. (p, q) \<notin> set (ts_accepts w)"
      using that tcp_okD(5) [OF 2(3)] by (auto simp: H(1))
  qed (simp_all add: H(1))
  have "ts_heap v (at_address (tries j k)) = None" if "Suc i \<le> j" for j k
  proof -
    have "\<nexists>l. at_address (tries j k) = at_address (tries i l)"
      using 2(4) that by (fastforce simp: separate_def)
    then have "H (at_address (tries j k)) = ts_heap w (at_address (tries j k))" using H(2) [of "at_address (tries j k)"] by blast
    then show ?thesis using 2(5) that by (simp add: H(1))
  qed
  with 2(1) [OF qv(1) refl refl] qv(2) ok 2(4) show ?case by simp
qed simp

lemma tcp_ok_new:
  "tcp_ok 0 (new_server (new_service ty address f m)\<lparr>ts_listenSocket := b\<rparr>)"
  by (rule tcp_okI) (simp_all add: new_server_def new_service_def service_ok_def refs_ok_def)

lemma Start_ok:
  assumes "ServerService_Start lr tries (new_server (new_service Server address f m)) = Some (Inr (True, w))" and "separate tries"
  shows "tcp_ok 0 w"
  using assms accept_loop_ok [OF _ tcp_ok_new assms(2)]
  by (auto simp: ServerService_Start_def StartAccept_def new_server_def Let_def split: if_splits)

section \<open>When RegisterAccept returns\<close>

lemma RegisterAccept_at:
  assumes "\<not> at_registered (tries (k + d)) \<or> \<not> failed (at_acceptEx (tries (k + d)))"
  shows "RegisterAccept tries k w \<noteq> None"
  using assms
proof (induction d arbitrary: k w)
  case 0
  then show ?case by (subst RegisterAccept.simps) (simp add: CreateSession_def Let_def)
next
  case (Suc d)
  have "RegisterAccept tries (Suc k) v \<noteq> None" for v using Suc.IH [of "Suc k" v] Suc.prems by simp
  then show ?case by (subst RegisterAccept.simps) (simp add: CreateSession_def Let_def)
qed

lemma RegisterAccept_stops:
  assumes "RegisterAccept tries k w = Some x"
  shows "\<exists>j\<ge>k. \<not> at_registered (tries j) \<or> \<not> failed (at_acceptEx (tries j))"
proof (rule RegisterAccept.raw_induct [where P = "\<lambda>tries k w x. \<exists>j\<ge>k. \<not> at_registered (tries j) \<or> \<not> failed (at_acceptEx (tries j))", OF _ assms])
  fix rec :: "(nat \<Rightarrow> accept_try) \<Rightarrow> nat \<Rightarrow> tcp_server \<Rightarrow> (session_ref \<times> tcp_server) result option"
    and tries :: "nat \<Rightarrow> accept_try" and k :: nat and w :: tcp_server and x
  assume IH: "\<And>tries k w x. rec tries k w = Some x \<Longrightarrow> \<exists>j\<ge>k. \<not> at_registered (tries j) \<or> \<not> failed (at_acceptEx (tries j))"
    and eq: "(let (session, w) = CreateSession (at_address (tries k)) (at_registered (tries k)) w in
      case session of None \<Rightarrow> Some (Inl NullDeref)
      | Some r \<Rightarrow> if failed (at_acceptEx (tries k)) then rec tries (Suc k) w else Some (Inr (r, w))) = Some x"
  show "\<exists>j\<ge>k. \<not> at_registered (tries j) \<or> \<not> failed (at_acceptEx (tries j))"
  proof (cases "at_registered (tries k) \<and> failed (at_acceptEx (tries k))")
    case True
    then have "\<exists>v. rec tries (Suc k) v = Some x" using eq by (auto simp: CreateSession_def Let_def)
    with IH obtain j where "Suc k \<le> j" "\<not> at_registered (tries j) \<or> \<not> failed (at_acceptEx (tries j))" by blast
    then show ?thesis using Suc_leD by blast
  qed blast
qed

lemma RegisterAccept_returns:
  "RegisterAccept tries k w = None \<longleftrightarrow> (\<forall>j\<ge>k. at_registered (tries j) \<and> failed (at_acceptEx (tries j)))"
proof
  assume n: "RegisterAccept tries k w = None"
  show "\<forall>j\<ge>k. at_registered (tries j) \<and> failed (at_acceptEx (tries j))"
  proof (intro allI impI)
    fix j assume "k \<le> j"
    then obtain d where "j = k + d" by (metis le_Suc_ex)
    with RegisterAccept_at [of tries k d w] n show "at_registered (tries j) \<and> failed (at_acceptEx (tries j))" by blast
  qed
next
  assume "\<forall>j\<ge>k. at_registered (tries j) \<and> failed (at_acceptEx (tries j))"
  then show "RegisterAccept tries k w = None" using RegisterAccept_stops [of tries k w] by (cases "RegisterAccept tries k w") auto
qed

lemma RegisterAccept_null:
  assumes "\<forall>j<d. at_registered (tries (k + j)) \<and> failed (at_acceptEx (tries (k + j)))" and "\<not> at_registered (tries (k + d))"
  shows "RegisterAccept tries k w = Some (Inl NullDeref)"
  using assms
proof (induction d arbitrary: k w)
  case 0
  then show ?case by (subst RegisterAccept.simps) (simp add: CreateSession_def Let_def)
next
  case (Suc d)
  have f: "at_registered (tries k)" "failed (at_acceptEx (tries k))" using Suc.prems(1) by (metis add_0_right zero_less_Suc)+
  have "\<forall>j<d. at_registered (tries (Suc k + j)) \<and> failed (at_acceptEx (tries (Suc k + j)))" using Suc.prems(1) by auto
  from Suc.IH [OF this] Suc.prems(2) have "RegisterAccept tries (Suc k) v = Some (Inl NullDeref)" for v by simp
  then show ?case by (subst RegisterAccept.simps) (simp add: CreateSession_def Let_def f)
qed

end
