(* ===== verification/TcpDispatch.thy ===== *)
theory TcpDispatch
  imports TcpTables
begin

text \<open>
  What the agreement of the tables gives: the handlers of the source are runs of the steps, a
  release never crashes, and what happens without a bound on the sessions and after a
  \<^verbatim>\<open>DisconnectEx\<close> that fails; and the reach of \<^verbatim>\<open>GameSessionManager::Broadcast\<close>.
\<close>

section \<open>Sequential handlers are runs\<close>

lemma trun_trans: "tcp_run m v u \<Longrightarrow> tcp_run n w v \<Longrightarrow> tcp_run (n + m) w u"
  by (induction rule: tcp_run.induct) (auto intro: tcp_run.intros)

lemma trun_one: "tcp_step w v \<Longrightarrow> tcp_run 1 w v"
  using trun_step [OF trun_refl] by simp

lemma set_pc_set_pc: "set_pc i p (set_pc i q w) = set_pc i p w"
  by (cases "i < length (ts_accepts w)") (simp_all add: set_pc_def list_update_beyond)

lemma set_pc_commute:
  "set_pc i p (upd_session r f w) = upd_session r f (set_pc i p w)"
  "set_pc i p (connect_add r w) = connect_add r (set_pc i p w)"
  "set_pc i p (GameSession_OnConnected r w) = GameSession_OnConnected r (set_pc i p w)"
  by (simp_all add: set_pc_def upd_session_def connect_add_def GameSession_OnConnected_def)

lemma handler_accessors [simp]:
  "ts_accepts (upd_session r f w) = ts_accepts w" "ts_accepts (connect_add r w) = ts_accepts w"
  "ts_accepts (GameSession_OnConnected r w) = ts_accepts w" "ts_accepts (connect_store r w) = ts_accepts w"
  "ts_heap (connect_add r w) = ts_heap w" "ts_heap (GameSession_OnConnected r w) = ts_heap w"
  "ts_heap (set_pc i p w) = ts_heap w"
  "length (ts_accepts (set_pc i p w)) = length (ts_accepts w)"
  by (simp_all add: set_pc_def upd_session_def connect_add_def GameSession_OnConnected_def connect_store_def)

lemma set_pc_nth [simp]: "i < length (ts_accepts w) \<Longrightarrow> ts_accepts (set_pc i p w) ! i = (p, snd (ts_accepts w ! i))"
  by (simp add: set_pc_def)

lemma accept_run:
  assumes i: "i < length (ts_accepts w)" "ts_accepts w ! i = (Armed, r)" and "ts_heap w r \<noteq> None"
    and fresh: "\<And>k. ts_heap w (at_address (tries k)) = None"
    and "ProcessAccept updated peer os tries i w = Some (Inr w')"
  shows "\<exists>n\<le>5. tcp_run n w w'"
proof (cases "updated \<and> peer \<noteq> None")
  case False
  have "tcp_step w (set_pc i Rearming w)" by (rule refused [OF i])
  moreover have "arm tries i (set_pc i Rearming w) = Some (Inr w')"
    using False assms(5) by (auto simp: ProcessAccept_def Let_def split: option.splits if_splits)
  then have "tcp_step (set_pc i Rearming w) w'"
    using i fresh by (intro rearmed [of i _ r tries]) simp_all
  ultimately have "tcp_run 2 w w'" using trun_trans [OF trun_one trun_one] by (simp add: numeral_2_eq_2)
  then show ?thesis by (intro exI [of _ 2]) simp
next
  case True
  then obtain a where a: "peer = Some a" by blast
  let ?w0 = "upd_session r (\<lambda>s. s\<lparr>ss_netAddress := NetAddress_of_sockaddr a\<rparr>) w"
  let ?w1 = "set_pc i Adding (connect_store r ?w0)"
  let ?w2 = "set_pc i Informing (connect_add r ?w1)"
  let ?w3 = "set_pc i Receiving (GameSession_OnConnected r ?w2)"
  let ?w4 = "set_pc i Rearming (upd_session r (Session_RegisterRecv os) ?w3)"
  have s: "tcp_step w ?w1" "tcp_step ?w1 ?w2" "tcp_step ?w2 ?w3" "tcp_step ?w3 ?w4"
    using i by (auto intro!: tcp_step.intros)
  have "ts_heap ?w4 = ts_heap (upd_session r (Session_RegisterRecv os) (connect_store r ?w0))"
    by (simp add: upd_session_def)
  then have dom: "ts_heap ?w4 x = None \<longleftrightarrow> ts_heap w x = None" for x
    by (simp add: upd_session_def connect_store_def)
  have "arm tries i ?w4 = Some (Inr w')"
    using assms(5) True by (simp add: ProcessAccept_def a i(2) ProcessConnect_def set_pc_commute set_pc_set_pc connect_store_def)
  then have "tcp_step ?w4 w'" using i fresh dom by (intro rearmed [of i _ r tries]) simp_all
  from trun_step [OF trun_step [OF trun_step [OF trun_step [OF trun_step [OF trun_refl s(1)] s(2)] s(3)] s(4)] this]
  show ?thesis by (intro exI [of _ "Suc (Suc (Suc (Suc (Suc 0))))"]) simp
qed

lemma Listener_Dispatch_run:
  assumes "i < length (ts_accepts w)" "ts_accepts w ! i = (Armed, r)" "ts_heap w r \<noteq> None"
    and "\<And>k. ts_heap w (at_address (tries k)) = None"
    and "Listener_Dispatch updated peer os tries i AcceptEvent w = Some (Inr w')"
  shows "\<exists>n\<le>5. tcp_run n w w'"
  using accept_run [OF assms(1-4)] assms(5) by (simp add: Listener_Dispatch_def)

text \<open>The completion of an event has been reported only when the event is outstanding.\<close>

definition outstanding :: "session_ref \<Rightarrow> event_type \<Rightarrow> tcp_server \<Rightarrow> bool" where
  "outstanding r ty w = (case ts_heap w r of None \<Rightarrow> False
     | Some s \<Rightarrow> (case ty of RecvEvent \<Rightarrow> ss_recvOwner s | SendEvent \<Rightarrow> ss_sendPosted s
         | DisconnectEvent \<Rightarrow> ss_disconnectOwner s | _ \<Rightarrow> False))"

lemma disconnect_run:
  assumes ok: "tcp_ok n w" and s: "ts_heap w r = Some s" "ss_disconnectOwner s"
  shows "\<exists>w'. ProcessDisconnect r w = Inr w' \<and> tcp_run 2 w w'"
proof -
  let ?v = "(disconnect_begin r w)\<lparr>ts_leaving := ts_leaving w @ [r]\<rparr>"
  have v: "tcp_step w ?v" by (rule leaves [OF s])
  have ok': "tcp_ok n ?v" by (rule step_leaves [OF ok s])
  have sv: "ts_service ?v = ts_service w"
    by (simp add: disconnect_begin_def GameSession_OnDisconnected_def upd_session_def)
  have "r \<in> set (sc_sessions (ts_service w))" using tcp_okD(6) [OF ok] tcp_okD(10) [OF ok s] by auto
  from sst.leave [OF tcp_okD(1) [OF ok] this] obtain svc where svc: "ReleaseSession r (ts_service w) = Inr svc" by blast
  have "disconnect_end r ?v = Inr (?v\<lparr>ts_service := svc\<rparr>)" unfolding disconnect_end_def sv svc by simp
  from released [OF _ this, of "ts_leaving w" "[]"]
  have "tcp_step ?v ((?v\<lparr>ts_service := svc\<rparr>)\<lparr>ts_leaving := ts_leaving w\<rparr>)" by simp
  note 2 = trun_step [OF trun_step [OF trun_refl v] this]
  have "ProcessDisconnect r w = Inr ((disconnect_begin r w)\<lparr>ts_service := svc\<rparr>)"
    using sv svc by (simp add: ProcessDisconnect_def disconnect_end_def)
  moreover have "(?v\<lparr>ts_service := svc\<rparr>)\<lparr>ts_leaving := ts_leaving w\<rparr> = (disconnect_begin r w)\<lparr>ts_service := svc\<rparr>"
    by (simp add: disconnect_begin_def GameSession_OnDisconnected_def upd_session_def)
  ultimately show ?thesis using 2 by (auto simp: numeral_2_eq_2)
qed

lemma session_run:
  assumes "outstanding r ty w" "published r w" "ty \<noteq> DisconnectEvent"
    and "Session_Dispatch os r ty k w = Some (Inr w')"
  shows "tcp_run 1 w w'"
proof -
  obtain s where s: "ts_heap w r = Some s" using assms(1) by (auto simp: outstanding_def split: option.splits)
  consider s' where "ty = RecvEvent" "ss_recvOwner s" "Session_ProcessRecv os k s = Some (Inr s')" "w' = upd_session r (\<lambda>_. s') w"
    | "ty = SendEvent" "ss_sendPosted s" "w' = upd_session r (Session_ProcessSend os k) w"
    using assms s by (cases ty) (auto simp: outstanding_def Session_Dispatch_def bindr_Inr_iff)
  then show ?thesis
  proof cases
    case (1 s')
    have "session_op s s'" by (rule op_recv [OF 1(2), of os k "ss_recvBuffer s"]) (simp add: 1(3))
    from session [OF s assms(2) this] show ?thesis using trun_one 1(4) s by (simp add: upd_session_def)
  next
    case 2
    from session [OF s assms(2) op_complete [OF 2(2), of os k]] show ?thesis
      using trun_one 2(3) s by (simp add: upd_session_def)
  qed
qed

section \<open>A listener with one accept event\<close>

definition one_try :: "session_ref \<Rightarrow> accept_try" where
  "one_try r = \<lparr>at_address = r, at_registered = True, at_acceptEx = Some WSA_IO_PENDING\<rparr>"

definition open_session :: "session_ref \<Rightarrow> tcp_server \<Rightarrow> bool" where
  "open_session r w \<longleftrightarrow> (\<exists>s. ts_heap w r = Some s \<and> ss_connected s)"

definition sends_nothing :: "session_ref \<Rightarrow> tcp_server \<Rightarrow> bool" where
  "sends_nothing r w \<longleftrightarrow> (\<forall>s. ts_heap w r = Some s \<longrightarrow> \<not> ss_connectOwner s \<and> \<not> ss_sendOwner s)"

definition crowded :: "nat \<Rightarrow> tcp_server \<Rightarrow> bool" where
  "crowded k w \<longleftrightarrow> ts_accepts w = [(Armed, k)] \<and> ts_heap w k = Some new_session \<and> (\<forall>r<k. open_session r w \<and> outstanding r RecvEvent w \<and> sends_nothing r w) \<and>
     (\<forall>r>k. ts_heap w r = None) \<and> sc_sessions (ts_service w) = [0..<k] \<and> sint (sc_sessionCount (ts_service w)) = int k \<and>
     sc_maxSessionCount (ts_service w) = 1"

lemma RegisterAccept_one:
  "RegisterAccept (\<lambda>_. one_try r) k w = Some (Inr (r, w\<lparr>ts_heap := (ts_heap w)(r \<mapsto> new_session)\<rparr>))"
  by (subst RegisterAccept.simps) (simp add: one_try_def CreateSession_def failed_def)

lemma crowded_Suc:
  assumes "crowded k w" and "k < 2147483647"
  shows "\<exists>w'. tcp_run 5 w w' \<and> crowded (Suc k) w'"
proof -
  let ?a = "\<lparr>sin_family = AF_INET, sin_port = 0, sin_addr = 0\<rparr>"
  let ?s = "Session_RegisterRecv calm (new_session\<lparr>ss_netAddress := ?a, ss_connectOwner := False, ss_connected := True\<rparr>)"
  let ?w = "w\<lparr>ts_service := AddSession k (ts_service w), ts_manager := GameSessionManager_Add k (ts_manager w),
     ts_heap := (ts_heap w)(k \<mapsto> ?s, Suc k \<mapsto> new_session), ts_accepts := [(Armed, Suc k)]\<rparr>"
  have a: "ts_accepts w = [(Armed, k)]" "ts_heap w k = Some new_session" "ts_heap w (Suc k) = None"
    using assms(1) by (auto simp: crowded_def)
  let ?w1 = "w\<lparr>ts_heap := (ts_heap w)(k \<mapsto> new_session\<lparr>ss_netAddress := ?a, ss_connectOwner := False, ss_connected := True\<rparr>),
     ts_accepts := [(Adding, k)]\<rparr>"
  let ?w2 = "?w1\<lparr>ts_accepts := [(Informing, k)], ts_service := AddSession k (ts_service w)\<rparr>"
  let ?w3 = "?w2\<lparr>ts_accepts := [(Receiving, k)], ts_manager := GameSessionManager_Add k (ts_manager w)\<rparr>"
  let ?w4 = "?w3\<lparr>ts_accepts := [(Rearming, k)], ts_heap := (ts_heap w)(k \<mapsto> ?s)\<rparr>"
  have e: "set_pc 0 Adding (connect_store k (upd_session k (\<lambda>s. s\<lparr>ss_netAddress := NetAddress_of_sockaddr ?a\<rparr>) w)) = ?w1"
    "set_pc 0 Informing (connect_add k ?w1) = ?w2" "set_pc 0 Receiving (GameSession_OnConnected k ?w2) = ?w3"
    "set_pc 0 Rearming (upd_session k (Session_RegisterRecv calm) ?w3) = ?w4"
    using a by (cases w, simp add: set_pc_def connect_store_def upd_session_def NetAddress_of_sockaddr_def
        connect_add_def GameSession_OnConnected_def)+
  have 1: "tcp_step w ?w1" unfolding e(1) [symmetric] by (rule accepted) (simp_all add: a)
  have 2: "tcp_step ?w1 ?w2" unfolding e(2) [symmetric] by (rule added) simp_all
  have 3: "tcp_step ?w2 ?w3" unfolding e(3) [symmetric] by (rule informed) simp_all
  have 4: "tcp_step ?w3 ?w4" unfolding e(4) [symmetric] by (rule receiving) simp_all
  have 5: "tcp_step ?w4 ?w"
  proof (rule rearmed [of 0 _ k "\<lambda>_. one_try (Suc k)"])
    show "arm (\<lambda>_. one_try (Suc k)) 0 ?w4 = Some (Inr ?w)" by (cases w) (simp add: arm_def RegisterAccept_one)
  qed (use a(3) in \<open>simp_all add: one_try_def\<close>)
  have "tcp_run 5 w ?w"
    using trun_step [OF trun_step [OF trun_step [OF trun_step [OF trun_step [OF trun_refl 1] 2] 3] 4] 5]
    by (simp add: numeral_eq_Suc)
  moreover have "ss_connected ?s" "ss_recvOwner ?s" "\<not> ss_connectOwner ?s" "\<not> ss_sendOwner ?s"
    by (simp_all add: Session_RegisterRecv_def calm_def new_session_def)
  then have "crowded (Suc k) ?w"
    using assms sint_succ [of "sc_sessionCount (ts_service w)"]
    by (auto simp: crowded_def open_session_def outstanding_def sends_nothing_def AddSession_def set_insert_def sorted_insort_is_snoc less_Suc_eq)
  ultimately show ?thesis by blast
qed

lemma crowded_run: "crowded 0 w \<Longrightarrow> k < 2147483648 \<Longrightarrow> \<exists>w'. tcp_run (5 * k) w w' \<and> crowded k w'"
proof (induction k)
  case 0
  then show ?case using trun_refl by force
next
  case (Suc k)
  then obtain v where v: "tcp_run (5 * k) w v" "crowded k v" by auto
  with crowded_Suc [OF v(2)] Suc.prems(2) obtain u where "tcp_run 5 v u" "crowded (Suc k) u" by auto
  with trun_trans [OF this(1) v(1)] show ?case by (auto simp: algebra_simps)
qed

definition all_ok :: listen_results where
  "all_ok = \<lparr>lr_socket = True, lr_register = True, lr_reuse = True, lr_linger = True, lr_bind = True, lr_listen = True\<rparr>"

definition demo_listener :: tcp_server where
  "demo_listener = (new_server (new_service Server \<lparr>sin_family = AF_INET, sin_port = 0, sin_addr = 0\<rparr> True 1))
     \<lparr>ts_listenSocket := True, ts_heap := [0 \<mapsto> new_session], ts_accepts := [(Armed, 0)]\<rparr>"

lemma demo_listener:
  "ServerService_Start all_ok (\<lambda>i k. one_try i) (new_server (new_service Server \<lparr>sin_family = AF_INET, sin_port = 0, sin_addr = 0\<rparr> True 1)) =
     Some (Inr (True, demo_listener))"
  by (simp add: ServerService_Start_def StartAccept_def all_ok_def CanStart_def new_server_def new_service_def
      RegisterAccept_one demo_listener_def)

lemma demo_separate: "separate (\<lambda>i k. one_try i)"
  by (simp add: separate_def one_try_def)

lemma demo_crowded: "crowded 0 demo_listener"
  by (simp add: crowded_def demo_listener_def new_server_def new_service_def)

text \<open>What the invariant says of the tables and of the handling of a completion.\<close>

lemma tcp_ok_tables:
  assumes ok: "tcp_ok n w"
  shows "sint (sc_sessionCount (ts_service w)) = int (card (set (sc_sessions (ts_service w)))) \<and>
     set (sc_sessions (ts_service w)) =
       set (ts_manager w) \<union> set (ts_leaving w) \<union> {r. (Informing, r) \<in> set (ts_accepts w)} \<and>
     set (ts_manager w) \<inter> set (ts_leaving w) = {} \<and>
     (\<forall>r. open_session r w \<longrightarrow> published r w \<longrightarrow> r \<in> set (ts_manager w))"
proof -
  have "sint (sc_sessionCount (ts_service w)) = int (card (set (sc_sessions (ts_service w))))"
    using tcp_okD(1) [OF ok] card_refs [of "sc_sessions (ts_service w)"] by (simp add: service_ok_def)
  moreover have "\<forall>r. open_session r w \<longrightarrow> published r w \<longrightarrow> r \<in> set (ts_manager w)"
    using tcp_okD(11) [OF ok] by (auto simp: open_session_def)
  ultimately show ?thesis using tcp_okD(6,7) [OF ok] by blast
qed

lemma tcp_ok_dispatch:
  assumes ok: "tcp_ok n w"
    and "outstanding r ty w" and "published r w" and "Session_Dispatch os r ty k w = Some x"
  shows "(ty = DisconnectEvent \<longrightarrow> (\<exists>w'. x = Inr w')) \<and> (\<forall>w'. x = Inr w' \<longrightarrow> (\<exists>m\<le>2. tcp_run m w w'))"
proof (cases "ty = DisconnectEvent")
  case True
  then obtain s where s: "ts_heap w r = Some s" "ss_disconnectOwner s"
    using assms(2) by (auto simp: outstanding_def split: option.splits)
  from disconnect_run [OF ok s] obtain v where "ProcessDisconnect r w = Inr v" "tcp_run 2 w v" by blast
  moreover have "x = ProcessDisconnect r w" using assms(4) True by (simp add: Session_Dispatch_def)
  ultimately show ?thesis by auto
next
  case False
  have "\<exists>m\<le>2. tcp_run m w w'" if "x = Inr w'" for w'
    using session_run [OF assms(2,3) False] assms(4) that by (intro exI [of _ 1]) auto
  with False show ?thesis by blast
qed

section \<open>A session whose disconnection cannot be posted\<close>

definition abandoned :: "session_ref \<Rightarrow> tcp_server \<Rightarrow> bool" where
  "abandoned r w \<longleftrightarrow> r \<in> set (ts_manager w) \<and>
     (\<exists>s. ts_heap w r = Some s \<and> \<not> ss_connected s \<and> \<not> ss_disconnectOwner s)"

lemma abandoned_step:
  assumes "tcp_step w w'" and ok: "tcp_ok n w" and ab: "abandoned r w"
  shows "abandoned r w'"
proof -
  obtain s where s: "r \<in> set (ts_manager w)" "ts_heap w r = Some s" "\<not> ss_connected s" "\<not> ss_disconnectOwner s"
    using ab by (auto simp: abandoned_def)
  have other: "x \<noteq> r" if "i < length (ts_accepts w)" "ts_accepts w ! i = (p, x)" "p \<in> {Armed, Adding, Informing}" for i p x
    using tcp_okD(9) [OF ok in_accepts [OF that(1,2)] that(3)] s(1) by auto
  show ?thesis using assms(1)
  proof cases
    case (accepted i x a)
    have "x \<noteq> r" by (rule other [OF accepted(2,3)]) simp
    then show ?thesis using s unfolding accepted(1) by (simp add: abandoned_def set_pc_def connect_store_def upd_session_def)
  next
    case (receiving i x os)
    show ?thesis
    proof (cases "x = r")
      case True
      have "Session_RegisterRecv os s = s" using s by (simp add: Session_RegisterRecv_def)
      with True s show ?thesis unfolding receiving(1) by (simp add: abandoned_def set_pc_def upd_session_def)
    qed (use s in \<open>simp add: receiving(1) abandoned_def set_pc_def upd_session_def\<close>)
  next
    case (rearmed i x tries)
    obtain q v where qv: "RegisterAccept tries 0 w = Some (Inr (q, v))" "w' = v\<lparr>ts_accepts := (ts_accepts v)[i := (Armed, q)]\<rparr>"
      using rearmed(4) by (auto simp: arm_def bindr_Inr_iff)
    from RegisterAccept_effect [OF qv(1)] obtain H where H: "v = w\<lparr>ts_heap := H\<rparr>"
      "H r = ts_heap w r \<or> (\<exists>j. r = at_address (tries j))" by (auto simp: accept_effect_def)
    have "H r = Some s" using H(2) rearmed(3) s(2) by auto
    with s show ?thesis by (simp add: qv(2) H(1) abandoned_def)
  next
    case (session x t t')
    have "moves t t'" by (rule session_op_moves [OF session(4)])
    then show ?thesis using s session(1,2) by (auto simp: abandoned_def moves_def)
  next
    case (leaves x t)
    have "x \<noteq> r" using leaves(2,3) s by auto
    then show ?thesis using s tcp_okD(3) [OF ok] unfolding leaves(1)
      by (simp add: abandoned_def disconnect_begin_def GameSession_OnDisconnected_def upd_session_def
          GameSessionManager_Remove_def set_erase_set)
  next
    case (released xs x ys v)
    then show ?thesis using s by (auto simp: abandoned_def disconnect_end_def bindr_Inr_iff)
  qed (use s in \<open>auto simp: abandoned_def set_pc_def connect_add_def GameSession_OnConnected_def GameSessionManager_Add_def\<close>)
qed

lemma abandoned_run:
  assumes "tcp_run m w w'" "tcp_ok n w" "n + m < 2147483648" "abandoned r w"
  shows "abandoned r w'"
  using assms
proof (induction rule: tcp_run.induct)
  case (trun_step m w v u)
  then have "abandoned r v" "tcp_ok (n + m) v" using tcp_run_ok [OF trun_step.hyps(1), of n] by simp_all
  with abandoned_step [OF trun_step.hyps(2)] show ?case by blast
qed simp

section \<open>Broadcast\<close>

lemma upd_session_heap: "ts_heap (upd_session r f w) x = (if x = r then map_option f (ts_heap w r) else ts_heap w x)"
  by (simp add: upd_session_def)

lemma fold_upd_heap:
  "distinct rs \<Longrightarrow> ts_heap (fold (\<lambda>r. upd_session r (f r)) rs w) x =
     (if x \<in> set rs then map_option (f x) (ts_heap w x) else ts_heap w x)"
  by (induction rs arbitrary: w) (auto simp: upd_session_heap)

lemma fold_upd_rest:
  "(fold (\<lambda>r. upd_session r (f r)) rs w)\<lparr>ts_heap := h\<rparr> = w\<lparr>ts_heap := h\<rparr>"
  by (induction rs arbitrary: w) (simp_all add: upd_session_def)

lemma Session_HandleError_log: "ss_log (Session_HandleError os e s) = ss_log s"
  by (simp add: Session_HandleError_def)

lemma Session_Send_log:
  "ss_log (Session_Send os buf s) = (if ss_connected s then ss_log s @ [buf] else ss_log s)"
  by (simp add: Session_Send_def Session_push_def Session_RegisterSend_def Session_WSASend_def Session_drain_def
      Session_HandleError_log)

section \<open>Properties\<close>

definition started :: "tcp_server \<Rightarrow> bool" where
  "started w \<longleftrightarrow> (\<exists>lr tries address factory m.
     ServerService_Start lr tries (new_server (new_service Server address factory m)) = Some (Inr (True, w)) \<and> separate tries)"

lemma started_ok: "started w \<Longrightarrow> tcp_ok 0 w"
  using Start_ok by (auto simp: started_def)

lemma started_run: "started w \<Longrightarrow> tcp_run n w w' \<Longrightarrow> n < 2147483648 \<Longrightarrow> tcp_ok n w'"
  using tcp_run_ok [of n w w' 0] started_ok by simp

lemma demo_started: "started demo_listener"
  unfolding started_def using demo_listener demo_separate by blast

lemma demo_one: "\<exists>w. tcp_run 5 demo_listener w \<and> crowded 1 w"
  using crowded_Suc [OF demo_crowded] by simp

text \<open>
  In every run of the TCP server of fewer than 2^31 steps, whatever the operating system answers and
  however the threads interleave, the service holds exactly the sessions the manager holds and
  those between the two tables, its counter is their number, and every open session that other
  threads know of is in both tables.
\<close>

theorem session_tables_agree:
  assumes "started w0" and "tcp_run n w0 w" and "n < 2147483648"
  shows "sint (sc_sessionCount (ts_service w)) = int (card (set (sc_sessions (ts_service w)))) \<and>
     set (sc_sessions (ts_service w)) =
       set (ts_manager w) \<union> set (ts_leaving w) \<union> {r. (Informing, r) \<in> set (ts_accepts w)} \<and>
     set (ts_manager w) \<inter> set (ts_leaving w) = {} \<and>
     (\<forall>r. open_session r w \<longrightarrow> published r w \<longrightarrow> r \<in> set (ts_manager w))"
  by (rule tcp_ok_tables [OF started_run [OF assms]])

theorem session_tables_agree_witness:
  "\<exists>w. crowded 1 w \<and> sint (sc_sessionCount (ts_service w)) = int (card (set (sc_sessions (ts_service w))))"
proof -
  obtain w where w: "tcp_run 5 demo_listener w" "crowded 1 w" using demo_one by blast
  from session_tables_agree [OF demo_started w(1)] w(2) show ?thesis by auto
qed

text \<open>
  Every completion that can be reported in a reachable state is handled by a run of at most two
  steps, and the handling of a disconnection always returns: the assertion in \<^verbatim>\<open>ReleaseSession\<close>
  never fails.
\<close>

theorem dispatch_is_run:
  assumes "started w0" and "tcp_run n w0 w" and "n < 2147483648"
    and "outstanding r ty w" and "published r w" and "Session_Dispatch os r ty k w = Some x"
  shows "(ty = DisconnectEvent \<longrightarrow> (\<exists>w'. x = Inr w')) \<and> (\<forall>w'. x = Inr w' \<longrightarrow> (\<exists>m\<le>2. tcp_run m w w'))"
  by (rule tcp_ok_dispatch [OF started_run [OF assms(1-3)] assms(4-6)])

theorem dispatch_is_run_witness:
  "\<exists>w w' m. crowded 1 w \<and> Session_Dispatch calm 0 RecvEvent 0 w = Some (Inr w') \<and> m \<le> 2 \<and> tcp_run m w w'"
proof -
  obtain w where w: "tcp_run 5 demo_listener w" "crowded 1 w" using demo_one by blast
  have o: "outstanding 0 RecvEvent w" using w(2) by (simp add: crowded_def)
  have p: "published 0 w" using w(2) by (simp add: crowded_def published_def)
  obtain w' where w': "Session_Dispatch calm 0 RecvEvent 0 w = Some (Inr w')"
    by (simp add: Session_Dispatch_def Session_ProcessRecv_def)
  from dispatch_is_run [OF demo_started w(1) _ o p w'] w(2) w' show ?thesis by auto
qed

text \<open>
  The maximum number of sessions given to a listening service bounds only the accepts it arms, not
  the sessions it has: with a maximum of 1, any number of sessions can be open at once.
\<close>

theorem session_limit_not_enforced:
  assumes "k < 2147483648"
  shows "\<exists>w0 w. started w0 \<and> tcp_run (5 * k) w0 w \<and> sc_maxSessionCount (ts_service w) = 1 \<and>
     sint (sc_sessionCount (ts_service w)) = int k \<and> (\<forall>r<k. open_session r w)"
  using crowded_run [OF demo_crowded assms] demo_started by (auto simp: crowded_def)

theorem session_limit_not_enforced_witness:
  "\<exists>w0 w. started w0 \<and> tcp_run 5000 w0 w \<and> sc_maxSessionCount (ts_service w) = 1 \<and>
     sint (sc_sessionCount (ts_service w)) = 1000 \<and> (\<forall>r<(1000 :: nat). open_session r w)"
  using session_limit_not_enforced [of 1000] by simp

text \<open>
  When \<^verbatim>\<open>DisconnectEx\<close> fails at once, a session that is closed stays in the service and in the
  manager for ever: no step of any thread removes it, because \<^verbatim>\<open>Disconnect\<close> ignores the result of
  \<^verbatim>\<open>RegisterDisconnect\<close> and will not post a second time.
\<close>

theorem failed_disconnect_leaks:
  assumes "started w0" and "tcp_run n w0 w" and "n + m + 1 < 2147483648"
    and "open_session r w" and "published r w" and "failed (os_disconnect os)"
    and "tcp_run m (upd_session r (Session_Disconnect os) w) w'"
  shows "\<not> open_session r w' \<and> r \<in> set (ts_manager w') \<and> r \<in> set (sc_sessions (ts_service w'))"
proof -
  have ok: "tcp_ok n w" using started_run [OF assms(1,2)] assms(3) by simp
  obtain s where s: "ts_heap w r = Some s" "ss_connected s" using assms(4) by (auto simp: open_session_def)
  have d: "\<not> ss_disconnectOwner s" and m: "r \<in> set (ts_manager w)"
    using tcp_okD(10,11) [OF ok s(1)] s(2) assms(5) by auto
  let ?v = "upd_session r (Session_Disconnect os) w"
  have "tcp_step w ?v" using session [OF s(1) assms(5) op_close, of os] s(1) by (simp add: upd_session_def)
  from tcp_step_ok [OF this ok] assms(3) have ok': "tcp_ok (Suc n) ?v" by simp
  have "\<not> ss_disconnectOwner (Session_Disconnect os s)"
    using assms(6) d s(2) by (simp add: Session_Disconnect_def Session_RegisterDisconnect_def)
  then have "abandoned r ?v" using s m by (simp add: abandoned_def upd_session_def)
  from abandoned_run [OF assms(7) ok' _ this] assms(3) have "abandoned r w'" by simp
  moreover have "tcp_ok (Suc n + m) w'" using tcp_run_ok [OF assms(7) ok'] assms(3) by simp
  ultimately show ?thesis using tcp_okD(6) [of "Suc n + m" w'] by (auto simp: abandoned_def open_session_def)
qed

theorem failed_disconnect_leaks_witness:
  "\<exists>w. crowded 1 w \<and> 0 \<in> set (sc_sessions (ts_service (upd_session 0 (Session_Disconnect
     \<lparr>os_recv = None, os_send = None, os_disconnect = Some 10057\<rparr>) w)))"
proof -
  let ?os = "\<lparr>os_recv = None, os_send = None, os_disconnect = Some 10057\<rparr>"
  obtain w where w: "tcp_run 5 demo_listener w" "crowded 1 w" using demo_one by blast
  have "open_session 0 w" "published 0 w" using w(2) by (simp_all add: crowded_def published_def)
  moreover have "failed (os_disconnect ?os)" by (simp add: failed_def WSA_IO_PENDING_def)
  ultimately show ?thesis
    using failed_disconnect_leaks [OF demo_started w(1) _ _ _ _ trun_refl, of 0 ?os] w(2) by auto
qed

text \<open>
  \<^verbatim>\<open>Broadcast\<close> of the session manager calls \<^verbatim>\<open>Send\<close> once on every session it holds and on no other,
  and so queues the buffer once for each of them that is connected.
\<close>

theorem broadcast_queues_once:
  assumes "started w0" and "tcp_run n w0 w" and "n < 2147483648" and "ts_heap w r = Some s"
  shows "\<exists>s'. ts_heap (GameSessionManager_Broadcast os buf w) r = Some s' \<and>
     s' = (if r \<in> set (ts_manager w) then Session_Send (os r) buf s else s) \<and>
     ss_log s' = (if r \<in> set (ts_manager w) \<and> ss_connected s then ss_log s @ [buf] else ss_log s)"
proof -
  have "distinct (ts_manager w)" using tcp_okD(3) [OF started_run [OF assms(1-3)]] by (simp add: refs_ok_def)
  with assms(4) show ?thesis
    by (simp add: GameSessionManager_Broadcast_def fold_upd_heap [of "ts_manager w" "\<lambda>r. Session_Send (os r) buf"] Session_Send_log)
qed

theorem broadcast_queues_once_witness:
  "\<exists>w s. ts_heap (GameSessionManager_Broadcast (\<lambda>_. calm) (SendBuffer 4) w) 0 = Some s \<and> crowded 1 w"
proof -
  obtain w where w: "tcp_run 5 demo_listener w" "crowded 1 w" using demo_one by blast
  then obtain s where "ts_heap w 0 = Some s" by (auto simp: crowded_def open_session_def)
  from broadcast_queues_once [OF demo_started w(1) _ this, of "\<lambda>_. calm" "SendBuffer 4"] w(2) show ?thesis by auto
qed

end
