(* ===== verification/ClientConnect.thy ===== *)
theory ClientConnect
  imports TcpDispatch
begin

text \<open>
  \<^verbatim>\<open>ClientService\<close> and the connects of its sessions under interleaving: the thread in
  \<^verbatim>\<open>ClientService::Start\<close> creates and connects one session after the other while the workers dispatch
  the completions. The handler of a connect is cut at the same places as in \<open>TcpServer\<close>, so a client
  is seen as a server whose accept events never come back to be armed (\<open>as_server\<close>), and the
  invariant \<open>tcp_ok\<close> carries over step by step.
\<close>

section \<open>State and steps\<close>

text \<open>
  How far the thread that handles the completion of \<^verbatim>\<open>_connectEvent\<close> has come; \<open>Connecting\<close> says that
  the event is outstanding.
\<close>

datatype connect_pc = Connecting | Entering | Telling | Reading | Connected

text \<open>
  \<open>tl_server\<close> holds the service, the manager, the heap and the sessions that leave; \<open>tl_left\<close> counts
  the sessions the loop of \<^verbatim>\<open>Start\<close> has still to create.
\<close>

record tcp_client =
  tl_server :: tcp_server
  tl_connects :: "(connect_pc \<times> session_ref) list"
  tl_left :: nat

text \<open>One turn of the loop in \<^verbatim>\<open>ClientService::Start\<close>: \<^verbatim>\<open>CreateSession\<close>, then \<^verbatim>\<open>Session::Connect\<close>.\<close>

definition connect_one :: "connect_results \<Rightarrow> tcp_server \<Rightarrow> (bool \<times> tcp_server) result" where
  "connect_one cr w =
     (let (session, w) = CreateSession (cr_address cr) (cr_registered cr) w in
      case session of None \<Rightarrow> Inl NullDeref
      | Some r \<Rightarrow>
          let (connected, s) = Session_RegisterConnect (sc_type (ts_service w)) cr (the (ts_heap w r))
          in Inr (connected, upd_session r (\<lambda>_. s) w))"

definition new_client :: "service \<Rightarrow> tcp_client" where
  "new_client sv = \<lparr>tl_server = new_server sv, tl_connects = [],
     tl_left = (if CanStart sv then nat (sint (sc_maxSessionCount sv)) else 0)\<rparr>"

definition go :: "nat \<Rightarrow> connect_pc \<Rightarrow> tcp_server \<Rightarrow> tcp_client \<Rightarrow> tcp_client" where
  "go i pc w c = c\<lparr>tl_server := w, tl_connects := (tl_connects c)[i := (pc, snd (tl_connects c ! i))]\<rparr>"

text \<open>Before \<^verbatim>\<open>OnConnected\<close> only the thread that connects a session knows it.\<close>

definition known :: "session_ref \<Rightarrow> tcp_client \<Rightarrow> bool" where
  "known r c \<longleftrightarrow> (Entering, r) \<notin> set (tl_connects c) \<and> (Telling, r) \<notin> set (tl_connects c)"

inductive client_step :: "tcp_client \<Rightarrow> tcp_client \<Rightarrow> bool" where
  opens: "tl_left c = Suc k \<Longrightarrow> ts_heap (tl_server c) (cr_address cr) = None \<Longrightarrow>
    connect_one cr (tl_server c) = Inr (connected, w) \<Longrightarrow>
    client_step c (c\<lparr>tl_server := w, tl_left := (if connected then k else 0),
      tl_connects := tl_connects c @ (if connected then [(Connecting, cr_address cr)] else [])\<rparr>)"
| connects: "i < length (tl_connects c) \<Longrightarrow> tl_connects c ! i = (Connecting, r) \<Longrightarrow>
    client_step c (go i Entering (connect_store r (tl_server c)) c)"
| enters: "i < length (tl_connects c) \<Longrightarrow> tl_connects c ! i = (Entering, r) \<Longrightarrow>
    client_step c (go i Telling (connect_add r (tl_server c)) c)"
| tells: "i < length (tl_connects c) \<Longrightarrow> tl_connects c ! i = (Telling, r) \<Longrightarrow>
    client_step c (go i Reading (GameSession_OnConnected r (tl_server c)) c)"
| reads: "i < length (tl_connects c) \<Longrightarrow> tl_connects c ! i = (Reading, r) \<Longrightarrow>
    client_step c (go i Connected (upd_session r (Session_RegisterRecv os) (tl_server c)) c)"
| operates: "ts_heap (tl_server c) r = Some s \<Longrightarrow> known r c \<Longrightarrow> session_op s s' \<Longrightarrow>
    client_step c (c\<lparr>tl_server := (tl_server c)\<lparr>ts_heap := (ts_heap (tl_server c))(r := Some s')\<rparr>\<rparr>)"
| parts: "ts_heap (tl_server c) r = Some s \<Longrightarrow> ss_disconnectOwner s \<Longrightarrow>
    client_step c (c\<lparr>tl_server := (disconnect_begin r (tl_server c))\<lparr>ts_leaving := ts_leaving (tl_server c) @ [r]\<rparr>\<rparr>)"
| releases: "ts_leaving (tl_server c) = xs @ r # ys \<Longrightarrow> disconnect_end r (tl_server c) = Inr w \<Longrightarrow>
    client_step c (c\<lparr>tl_server := w\<lparr>ts_leaving := xs @ ys\<rparr>\<rparr>)"

inductive client_run :: "nat \<Rightarrow> tcp_client \<Rightarrow> tcp_client \<Rightarrow> bool" where
  crun_refl: "client_run 0 c c"
| crun_step: "client_run n c d \<Longrightarrow> client_step d e \<Longrightarrow> client_run (Suc n) c e"

lemma crun_trans: "client_run n d e \<Longrightarrow> client_run m c d \<Longrightarrow> client_run (m + n) c e"
  by (induction rule: client_run.induct) (auto intro: client_run.intros)

lemma crun_first:
  assumes "client_step c d" and "client_run n d e"
  shows "client_run (Suc n) c e"
  using crun_trans [OF assms(2) crun_step [OF crun_refl assms(1)]] by simp

section \<open>The loop of Start\<close>

lemma connect_loop_Suc:
  "connect_loop crs i (Suc n) w = bindr (connect_one (crs i) w) (\<lambda>(connected, w).
     if connected then connect_loop crs (Suc i) n w else Inr (False, w))"
  by (simp add: connect_one_def bindr_def split: option.splits prod.splits) 

text \<open>What one turn leaves behind: a new session, waiting for its connect or given up.\<close>

lemma connect_one_effect:
  assumes "connect_one cr w = Inr (b, w')"
  shows "\<exists>s. w' = w\<lparr>ts_heap := (ts_heap w)(cr_address cr \<mapsto> s)\<rparr> \<and> \<not> ss_connected s \<and>
     \<not> ss_disconnectOwner s \<and> ss_connectOwner s = b"
  using assms
  by (auto simp: connect_one_def CreateSession_def Session_RegisterConnect_def Let_def upd_session_def
      new_session_def split: if_splits)

lemma connect_loop_run:
  assumes "connect_loop crs i n (tl_server c) = Inr (b, w)" and "tl_left c = n"
    and "\<And>j. i \<le> j \<Longrightarrow> ts_heap (tl_server c) (cr_address (crs j)) = None" and "inj (\<lambda>j. cr_address (crs j))"
  shows "\<exists>m d. client_run m c d \<and> m \<le> n \<and> tl_server d = w \<and> tl_left d = 0 \<and> (b \<longrightarrow> length (tl_connects d) = length (tl_connects c) + n)"
  using assms
proof (induction n arbitrary: i c)
  case 0
  then show ?case using crun_refl by (intro exI [of _ 0] exI [of _ c]) auto
next
  case (Suc n)
  obtain b1 w1 where 1: "connect_one (crs i) (tl_server c) = Inr (b1, w1)"
    "(if b1 then connect_loop crs (Suc i) n w1 else Inr (False, w1)) = Inr (b, w)"
    using Suc.prems(1) by (auto simp: connect_loop_Suc bindr_Inr_iff simp del: connect_loop.simps)
  let ?c = "c\<lparr>tl_server := w1, tl_left := (if b1 then n else 0),
      tl_connects := tl_connects c @ (if b1 then [(Connecting, cr_address (crs i))] else [])\<rparr>"
  have s: "client_step c ?c" by (rule opens [OF Suc.prems(2) Suc.prems(3) 1(1)]) simp
  show ?case
  proof (cases b1)
    case False
    with 1(2) have "b = False" "w = w1" by auto
    with False show ?thesis using crun_step [OF crun_refl s] by (intro exI [of _ 1] exI [of _ ?c]) simp
  next
    case True
    obtain t where t: "w1 = (tl_server c)\<lparr>ts_heap := (ts_heap (tl_server c))(cr_address (crs i) \<mapsto> t)\<rparr>"
      using connect_one_effect [OF 1(1)] by blast
    have "ts_heap (tl_server ?c) (cr_address (crs j)) = None" if "Suc i \<le> j" for j
      using that Suc.prems(3) [of j] injD [OF Suc.prems(4), of i j] by (auto simp: t)
    from Suc.IH [OF _ _ this Suc.prems(4)] 1(2) True obtain m d where
      d: "client_run m ?c d" "m \<le> n" "tl_server d = w" "tl_left d = 0" "b \<longrightarrow> length (tl_connects d) = length (tl_connects ?c) + n"
      by force
    with True show ?thesis using crun_first [OF s d(1)] by (intro exI [of _ "Suc m"] exI [of _ d]) auto
  qed
qed

section \<open>A client as a server\<close>

fun accept_of :: "connect_pc \<Rightarrow> accept_pc" where
  "accept_of Connecting = Armed"
| "accept_of Entering = Adding"
| "accept_of Telling = Informing"
| "accept_of Reading = Receiving"
| "accept_of Connected = Rearming"

lemma accept_of_eq [simp]:
  "accept_of p = Armed \<longleftrightarrow> p = Connecting" "accept_of p = Adding \<longleftrightarrow> p = Entering"
  "accept_of p = Informing \<longleftrightarrow> p = Telling" "accept_of p = Receiving \<longleftrightarrow> p = Reading"
  by (cases p; simp)+

lemma accept_of_eq_sym [simp]:
  "Armed = accept_of p \<longleftrightarrow> p = Connecting" "Adding = accept_of p \<longleftrightarrow> p = Entering"
  "Informing = accept_of p \<longleftrightarrow> p = Telling"
  by (cases p; simp)+

definition as_server :: "tcp_client \<Rightarrow> tcp_server" where
  "as_server c = (tl_server c)\<lparr>ts_accepts := map (map_prod accept_of id) (tl_connects c)\<rparr>"

lemma as_server_fields [simp]:
  "ts_service (as_server c) = ts_service (tl_server c)" "ts_manager (as_server c) = ts_manager (tl_server c)"
  "ts_heap (as_server c) = ts_heap (tl_server c)" "ts_leaving (as_server c) = ts_leaving (tl_server c)"
  "ts_accepts (as_server c) = map (map_prod accept_of id) (tl_connects c)"
  by (simp_all add: as_server_def)

lemma as_server_go:
  "i < length (tl_connects c) \<Longrightarrow>
   as_server (go i p w c) = set_pc i (accept_of p) (w\<lparr>ts_accepts := map (map_prod accept_of id) (tl_connects c)\<rparr>)"
  by (simp add: as_server_def go_def set_pc_def map_update)

lemma as_server_telling [simp]: "(Informing, r) \<in> map_prod accept_of id ` set xs \<longleftrightarrow> (Telling, r) \<in> set xs"
  by (force simp: image_iff)

lemma as_server_published: "published r (as_server c) \<longleftrightarrow> known r c"
  by (auto simp: published_def known_def map_prod_def image_iff split: prod.splits)

text \<open>An accept that finds the address of the session unchanged does what a connect does.\<close>

lemma client_step_simulated:
  assumes "client_step c d"
  shows "tcp_step (as_server c) (as_server d) \<or>
     (\<exists>k cr b w. tl_left c = Suc k \<and> ts_heap (tl_server c) (cr_address cr) = None \<and>
        connect_one cr (tl_server c) = Inr (b, w) \<and>
        d = c\<lparr>tl_server := w, tl_left := (if b then k else 0),
          tl_connects := tl_connects c @ (if b then [(Connecting, cr_address cr)] else [])\<rparr>)"
  using assms
proof cases
  case (opens k cr connected w)
  then show ?thesis by blast
next
  case (connects i r)
  let ?a = "ss_netAddress (the (ts_heap (tl_server c) r))"
  have "as_server d = set_pc i Adding (connect_store r (upd_session r (\<lambda>s. s\<lparr>ss_netAddress := NetAddress_of_sockaddr ?a\<rparr>) (as_server c)))"
    using connects by (cases "ts_heap (tl_server c) r")
      (simp_all add: as_server_go, simp_all add: as_server_def connect_store_def upd_session_def NetAddress_of_sockaddr_def set_pc_def)
  moreover have "i < length (ts_accepts (as_server c))" "ts_accepts (as_server c) ! i = (Armed, r)" using connects by simp_all
  ultimately show ?thesis using accepted by metis
next
  case (enters i r)
  have "as_server d = set_pc i Informing (connect_add r (as_server c))"
    using enters by (simp add: as_server_go) (simp add: as_server_def connect_add_def set_pc_def)
  moreover have "i < length (ts_accepts (as_server c))" "ts_accepts (as_server c) ! i = (Adding, r)" using enters by simp_all
  ultimately show ?thesis using added by metis
next
  case (tells i r)
  have "as_server d = set_pc i Receiving (GameSession_OnConnected r (as_server c))"
    using tells by (simp add: as_server_go) (simp add: as_server_def GameSession_OnConnected_def set_pc_def)
  moreover have "i < length (ts_accepts (as_server c))" "ts_accepts (as_server c) ! i = (Informing, r)" using tells by simp_all
  ultimately show ?thesis using informed by metis
next
  case (reads i r os)
  have "as_server d = set_pc i Rearming (upd_session r (Session_RegisterRecv os) (as_server c))"
    using reads by (simp add: as_server_go) (simp add: as_server_def upd_session_def set_pc_def)
  moreover have "i < length (ts_accepts (as_server c))" "ts_accepts (as_server c) ! i = (Receiving, r)" using reads by simp_all
  ultimately show ?thesis using receiving by metis
next
  case (operates r s s')
  have "as_server d = (as_server c)\<lparr>ts_heap := (ts_heap (as_server c))(r := Some s')\<rparr>"
    using operates by (simp add: as_server_def)
  then show ?thesis using session [of "as_server c" r s s'] operates by (simp add: as_server_published)
next
  case (parts r s)
  have "as_server d = (disconnect_begin r (as_server c))\<lparr>ts_leaving := ts_leaving (as_server c) @ [r]\<rparr>"
    using parts by (simp add: as_server_def disconnect_begin_def GameSession_OnDisconnected_def upd_session_def)
  then show ?thesis using leaves [of "as_server c" r s] parts by simp
next
  case (releases xs r ys w)
  obtain sv where sv: "ReleaseSession r (ts_service (tl_server c)) = Inr sv" "w = (tl_server c)\<lparr>ts_service := sv\<rparr>"
    using releases(3) by (auto simp: disconnect_end_def bindr_Inr_iff)
  have "disconnect_end r (as_server c) = Inr ((as_server c)\<lparr>ts_service := sv\<rparr>)"
    by (simp add: disconnect_end_def sv(1))
  moreover have "as_server d = ((as_server c)\<lparr>ts_service := sv\<rparr>)\<lparr>ts_leaving := xs @ ys\<rparr>"
    using releases(1) by (simp add: as_server_def sv(2))
  ultimately show ?thesis using released [of "as_server c" xs r ys] releases(2) by simp
qed

section \<open>The invariant\<close>

lemma tcp_ok_opened:
  assumes ok: "tcp_ok n w" and "ts_heap w r = None" and s: "\<not> ss_connected s" "\<not> ss_disconnectOwner s"
    and acc: "acc = ts_accepts w \<or> acc = ts_accepts w @ [(Armed, r)]"
  shows "tcp_ok n (w\<lparr>ts_heap := (ts_heap w)(r \<mapsto> s), ts_accepts := acc\<rparr>)"
proof (rule tcp_okI)
  have r: "r \<notin> set (ts_manager w)" "r \<notin> set (ts_leaving w)" "(p, r) \<notin> set (ts_accepts w)" for p
    using tcp_okD(8) [OF ok, of _ r] tcp_okD(12,13) [OF ok, of r] assms(2) by auto
  let ?w = "w\<lparr>ts_heap := (ts_heap w)(r \<mapsto> s), ts_accepts := acc\<rparr>"
  show "distinct (map snd (ts_accepts ?w))" using tcp_okD(5) [OF ok] r(3) acc by auto
  have inf: "(Informing, x) \<in> set acc \<longleftrightarrow> (Informing, x) \<in> set (ts_accepts w)" for x using acc by auto
  show "set (sc_sessions (ts_service ?w)) =
       set (ts_manager ?w) \<union> set (ts_leaving ?w) \<union> {r. (Informing, r) \<in> set (ts_accepts ?w)}"
    using tcp_okD(6) [OF ok] inf by simp
  fix p x
  assume x: "(p, x) \<in> set (ts_accepts ?w)"
  then have "(p, x) \<in> set (ts_accepts w) \<or> (p, x) = (Armed, r)" using acc by auto
  then have px: "(p, x) \<in> set (ts_accepts w) \<and> x \<noteq> r \<or> (p, x) = (Armed, r)" using r(3) [of p] by blast
  then show "ts_heap ?w x \<noteq> None" using tcp_okD(8) [OF ok, of p x] by fastforce
  assume "p \<in> {Armed, Adding, Informing}"
  then show "x \<notin> set (ts_manager ?w) \<and> x \<notin> set (ts_leaving ?w) \<and>
        ss_connected (the (ts_heap ?w x)) = (p \<noteq> Armed) \<and> \<not> ss_disconnectOwner (the (ts_heap ?w x))"
    using px r s tcp_okD(9) [OF ok, of p x] by auto
next
  let ?w = "w\<lparr>ts_heap := (ts_heap w)(r \<mapsto> s), ts_accepts := acc\<rparr>"
  fix x t assume x: "ts_heap ?w x = Some t"
  show "x \<in> set (ts_manager ?w) \<and> \<not> ss_connected t" if "ss_disconnectOwner t"
    using tcp_okD(10) [OF ok, of x t] x s that by (auto split: if_splits)
  show "x \<in> set (ts_manager ?w) \<or> \<not> published x ?w" if "ss_connected t"
    using tcp_okD(11) [OF ok, of x t] x s that acc by (auto simp: published_def split: if_splits)
next
  fix x
  show "x \<in> set (ts_leaving (w\<lparr>ts_heap := (ts_heap w)(r \<mapsto> s), ts_accepts := acc\<rparr>)) \<Longrightarrow>
    \<exists>t. ts_heap (w\<lparr>ts_heap := (ts_heap w)(r \<mapsto> s), ts_accepts := acc\<rparr>) x = Some t \<and> \<not> ss_connected t \<and> \<not> ss_disconnectOwner t"
    using tcp_okD(12) [OF ok, of x] s by auto
  show "x \<in> set (ts_manager (w\<lparr>ts_heap := (ts_heap w)(r \<mapsto> s), ts_accepts := acc\<rparr>)) \<Longrightarrow>
    ts_heap (w\<lparr>ts_heap := (ts_heap w)(r \<mapsto> s), ts_accepts := acc\<rparr>) x \<noteq> None"
    using tcp_okD(13) [OF ok, of x] by auto
qed (simp_all add: tcp_okD(1-4,7) [OF ok])

text \<open>
  Nobody is in a table but the sessions the loop has started to connect, of which there are at most
  as many as the service may have.
\<close>

definition client_ok :: "nat \<Rightarrow> tcp_client \<Rightarrow> bool" where
  "client_ok n c \<longleftrightarrow> tcp_ok n (as_server c) \<and>
     set (sc_sessions (ts_service (tl_server c))) \<subseteq> snd ` set (tl_connects c) \<and>
     length (tl_connects c) + tl_left c \<le> nat (sint (sc_maxSessionCount (ts_service (tl_server c))))"

lemma client_okD:
  assumes "client_ok n c"
  shows "tcp_ok n (as_server c)" "set (sc_sessions (ts_service (tl_server c))) \<subseteq> snd ` set (tl_connects c)"
    "length (tl_connects c) + tl_left c \<le> nat (sint (sc_maxSessionCount (ts_service (tl_server c))))"
  using assms by (simp_all add: client_ok_def)

lemma go_refs: "i < length (tl_connects c) \<Longrightarrow> snd ` set (tl_connects (go i p w c)) = snd ` set (tl_connects c)"
proof -
  assume "i < length (tl_connects c)"
  then have "map snd (tl_connects (go i p w c)) = map snd (tl_connects c)" using map_snd_update [of "tl_connects c" i "fst (tl_connects c ! i)" "snd (tl_connects c ! i)" p] by (simp add: go_def)
  then show ?thesis by (metis list.set_map)
qed

lemma service_same [simp]:
  "ts_service (upd_session r f w) = ts_service w" "ts_service (connect_store r w) = ts_service w"
  "ts_service (GameSession_OnConnected r w) = ts_service w" "ts_service (disconnect_begin r w) = ts_service w"
  by (simp_all add: upd_session_def connect_store_def GameSession_OnConnected_def disconnect_begin_def GameSession_OnDisconnected_def)

lemma service_max [simp]: "sc_maxSessionCount (AddSession r sv) = sc_maxSessionCount sv"
  by (simp add: AddSession_def)

lemma ReleaseSession_less:
  "ReleaseSession r sv = Inr sv' \<Longrightarrow> set (sc_sessions sv') \<subseteq> set (sc_sessions sv) \<and> sc_maxSessionCount sv' = sc_maxSessionCount sv"
  using notin_set_remove1 by (fastforce simp: ReleaseSession_def set_erase_def split: if_splits)

lemma client_tables_step:
  assumes "client_step c d" and sub: "set (sc_sessions (ts_service (tl_server c))) \<subseteq> snd ` set (tl_connects c)"
    and max: "length (tl_connects c) + tl_left c \<le> nat (sint (sc_maxSessionCount (ts_service (tl_server c))))"
  shows "set (sc_sessions (ts_service (tl_server d))) \<subseteq> snd ` set (tl_connects d) \<and>
    length (tl_connects d) + tl_left d \<le> nat (sint (sc_maxSessionCount (ts_service (tl_server d))))"
  using assms(1)
proof cases
  case (opens k cr b w)
  have "ts_service w = ts_service (tl_server c)" using connect_one_effect [OF opens(4)] by auto
  with opens sub max show ?thesis by auto
next
  case (enters i r)
  have "r \<in> snd ` set (tl_connects c)" using enters(2,3) by (metis image_eqI nth_mem snd_conv)
  moreover have "tl_server d = connect_add r (tl_server c)" "tl_left d = tl_left c" "length (tl_connects d) = length (tl_connects c)"
    "snd ` set (tl_connects d) = snd ` set (tl_connects c)"
    using enters by (simp_all add: go_refs) (simp_all add: go_def)
  ultimately show ?thesis using sub max by (simp add: connect_add_def) (simp add: AddSession_def)
next
  case (releases xs r ys w)
  obtain sv where sv: "ReleaseSession r (ts_service (tl_server c)) = Inr sv" "w = (tl_server c)\<lparr>ts_service := sv\<rparr>"
    using releases(3) by (auto simp: disconnect_end_def bindr_Inr_iff)
  with ReleaseSession_less [OF sv(1)] sub max releases(1) show ?thesis by auto
qed (use sub max in \<open>simp_all add: go_refs, simp_all add: go_def\<close>)

lemma client_step_ok:
  assumes "client_step c d" and ok: "client_ok n c" and "n < 2147483647"
  shows "client_ok (Suc n) d"
proof -
  have mono: "tcp_ok n w \<Longrightarrow> tcp_ok (Suc n) w" for w unfolding tcp_ok_def by (auto intro: le_SucI)
  have "tcp_ok (Suc n) (as_server d)" using client_step_simulated [OF assms(1)]
  proof (elim disjE exE conjE)
    assume "tcp_step (as_server c) (as_server d)"
    from tcp_step_ok [OF this client_okD(1) [OF ok] assms(3)] show ?thesis .
  next
    fix k cr b w
    assume h: "ts_heap (tl_server c) (cr_address cr) = None" and w: "connect_one cr (tl_server c) = Inr (b, w)"
      and d: "d = c\<lparr>tl_server := w, tl_left := (if b then k else 0),
          tl_connects := tl_connects c @ (if b then [(Connecting, cr_address cr)] else [])\<rparr>"
    from connect_one_effect [OF w] obtain s where s: "\<not> ss_connected s" "\<not> ss_disconnectOwner s"
      "w = (tl_server c)\<lparr>ts_heap := (ts_heap (tl_server c))(cr_address cr \<mapsto> s)\<rparr>" by blast
    let ?acc = "map (map_prod accept_of id) (tl_connects d)"
    have "as_server d = (as_server c)\<lparr>ts_heap := (ts_heap (as_server c))(cr_address cr \<mapsto> s), ts_accepts := ?acc\<rparr>"
      using d s(3) by (simp add: as_server_def)
    moreover have "?acc = ts_accepts (as_server c) \<or> ?acc = ts_accepts (as_server c) @ [(Armed, cr_address cr)]"
      using d by simp
    ultimately show ?thesis using tcp_ok_opened [OF client_okD(1) [OF ok], of "cr_address cr" s ?acc] h s(1,2) mono by auto
  qed
  with client_tables_step [OF assms(1) client_okD(2,3) [OF ok]] show ?thesis by (simp add: client_ok_def)
qed

lemma client_run_ok:
  "client_run m c d \<Longrightarrow> client_ok n c \<Longrightarrow> n + m < 2147483648 \<Longrightarrow> client_ok (n + m) d"
proof (induction rule: client_run.induct)
  case (crun_step m c d e)
  then show ?case using client_step_ok [OF crun_step.hyps(2), of "n + m"] by simp
qed simp

lemma new_client_ok: "client_ok 0 (new_client (new_service Client address f m))"
  using tcp_ok_new [where ty = Client and address = address and f = f and m = m and b = False]
  by (simp add: client_ok_def as_server_def new_client_def) (simp add: new_server_def new_service_def)

lemma client_reachable_ok:
  "client_run n (new_client (new_service Client address f m)) c \<Longrightarrow> n < 2147483648 \<Longrightarrow> client_ok n c"
  using client_run_ok [of n _ c 0] new_client_ok by simp

lemma client_step_max:
  "client_step c d \<Longrightarrow> sc_maxSessionCount (ts_service (tl_server d)) = sc_maxSessionCount (ts_service (tl_server c))"
proof (induction rule: client_step.induct)
  case (opens c k cr b w)
  then show ?case using connect_one_effect [OF opens(3)] by auto
next
  case (releases c xs r ys w)
  then show ?case using ReleaseSession_less by (fastforce simp: disconnect_end_def bindr_Inr_iff)
qed (simp_all add: go_def connect_add_def)

lemma client_run_max:
  "client_run n (new_client (new_service ty address f m)) c \<Longrightarrow> sc_maxSessionCount (ts_service (tl_server c)) = m"
  by (induction n "new_client (new_service ty address f m)" c rule: client_run.induct)
     (simp_all add: client_step_max new_client_def new_server_def new_service_def)

section \<open>The handler of a connect\<close>

lemma go_simps [simp]:
  "tl_server (go i p w c) = w" "length (tl_connects (go i p w c)) = length (tl_connects c)"
  "i < length (tl_connects c) \<Longrightarrow> tl_connects (go i p w c) ! i = (p, snd (tl_connects c ! i))"
  "go i p w (go i q v c) = go i p w c"
  by (cases "i < length (tl_connects c)"; simp add: go_def list_update_beyond)+

lemma ProcessConnect_run:
  assumes "i < length (tl_connects c)" "tl_connects c ! i = (Connecting, r)"
  shows "client_run 4 c (go i Connected (ProcessConnect os r (tl_server c)) c)"
proof -
  let ?w1 = "connect_store r (tl_server c)" let ?w2 = "connect_add r ?w1" let ?w3 = "GameSession_OnConnected r ?w2"
  have 1: "client_step c (go i Entering ?w1 c)" by (rule connects [OF assms])
  have 2: "client_step (go i Entering ?w1 c) (go i Telling ?w2 c)"
    using enters [of i "go i Entering ?w1 c" r] assms by simp
  have 3: "client_step (go i Telling ?w2 c) (go i Reading ?w3 c)"
    using tells [of i "go i Telling ?w2 c" r] assms by simp
  have 4: "client_step (go i Reading ?w3 c) (go i Connected (ProcessConnect os r (tl_server c)) c)"
    using reads [of i "go i Reading ?w3 c" r os] assms by (simp add: ProcessConnect_def)
  from crun_first [OF 1 crun_first [OF 2 crun_first [OF 3 crun_first [OF 4 crun_refl]]]]
  show ?thesis by (simp add: numeral_eq_Suc)
qed


section \<open>A client with one session\<close>

definition demo_connect :: connect_results where
  "demo_connect = \<lparr>cr_address = 0, cr_registered = True, cr_reuse = True, cr_bind = True, cr_connectEx = Some WSA_IO_PENDING\<rparr>"

definition demo_service :: service where
  "demo_service = new_service Client \<lparr>sin_family = AF_INET, sin_port = 0, sin_addr = 0\<rparr> True 1"

definition demo_client :: tcp_client where
  "demo_client = (new_client demo_service)\<lparr>tl_left := 0, tl_connects := [(Connecting, 0)],
     tl_server := (new_server demo_service)\<lparr>ts_heap := [0 \<mapsto> new_session\<lparr>ss_connectOwner := True\<rparr>]\<rparr>\<rparr>"

lemma demo_client_run: "client_run 1 (new_client demo_service) demo_client"
proof -
  have "tl_left (new_client demo_service) = Suc 0"
    by (simp add: new_client_def demo_service_def new_service_def CanStart_def)
  moreover have "connect_one demo_connect (new_server demo_service) =
      Inr (True, (new_server demo_service)\<lparr>ts_heap := [0 \<mapsto> new_session\<lparr>ss_connectOwner := True\<rparr>]\<rparr>)"
    by (simp add: connect_one_def demo_connect_def CreateSession_def Session_RegisterConnect_def new_server_def
        demo_service_def new_service_def new_session_def upd_session_def failed_def)
  ultimately have "client_step (new_client demo_service) demo_client"
    using opens [of "new_client demo_service" 0 demo_connect True]
    by (simp add: new_client_def demo_client_def new_server_def demo_connect_def)
  then show ?thesis using crun_step [OF crun_refl] by fastforce
qed

section \<open>Properties\<close>

text \<open>
  C13: While \<^verbatim>\<open>ClientService::Start\<close> creates and connects its sessions and the workers handle
  connects, receives and disconnections in any interleaving, the service holds exactly the sessions
  the manager holds and those between the two tables, its counter is their number, and there are
  never more of them than \<^verbatim>\<open>_maxSessionCount\<close>, which a listening service does not enforce.
\<close>

theorem client_tables_agree:
  assumes "client_run n (new_client (new_service Client address factory m)) c" and "n < 2147483648"
  shows "set (sc_sessions (ts_service (tl_server c))) =
       set (ts_manager (tl_server c)) \<union> set (ts_leaving (tl_server c)) \<union> {r. (Telling, r) \<in> set (tl_connects c)} \<and>
     sint (sc_sessionCount (ts_service (tl_server c))) = int (card (set (sc_sessions (ts_service (tl_server c))))) \<and>
     card (set (sc_sessions (ts_service (tl_server c)))) \<le> nat (sint m) \<and>
     (\<forall>r. open_session r (tl_server c) \<longrightarrow> known r c \<longrightarrow> r \<in> set (ts_manager (tl_server c)))"
proof -
  have ok: "client_ok n c" by (rule client_reachable_ok [OF assms])
  note t = tcp_okD [OF client_okD(1) [OF ok], simplified]
  have max: "sc_maxSessionCount (ts_service (tl_server c)) = m"
    using assms(1) by (rule client_run_max)
  let ?S = "set (sc_sessions (ts_service (tl_server c)))"
  have "?S = set (ts_manager (tl_server c)) \<union> set (ts_leaving (tl_server c)) \<union> {r. (Telling, r) \<in> set (tl_connects c)}"
    using t(6) by simp
  moreover have "sint (sc_sessionCount (ts_service (tl_server c))) = int (card ?S)"
    using t(1) card_refs [of "sc_sessions (ts_service (tl_server c))"] by (simp add: service_ok_def)
  moreover have "card ?S \<le> length (tl_connects c)"
    using card_mono [OF _ client_okD(2) [OF ok]] card_image_le [of "set (tl_connects c)" snd] card_length [of "tl_connects c"] by fastforce
  then have "card ?S \<le> nat (sint m)" using client_okD(3) [OF ok] max by simp
  moreover have "r \<in> set (ts_manager (tl_server c))" if "open_session r (tl_server c)" "known r c" for r
    using tcp_okD(11) [OF client_okD(1) [OF ok]] that by (auto simp: open_session_def as_server_published)
  ultimately show ?thesis by blast
qed

lemma demo_client_connected:
  "client_run 5 (new_client demo_service) (go 0 Connected (ProcessConnect os 0 (tl_server demo_client)) demo_client)"
  using crun_trans [OF ProcessConnect_run [of 0 demo_client 0] demo_client_run] by (simp add: demo_client_def)

theorem client_tables_agree_witness:
  "\<exists>c. client_run 5 (new_client demo_service) c \<and> sc_sessions (ts_service (tl_server c)) = [0] \<and>
     card (set (sc_sessions (ts_service (tl_server c)))) \<le> 1"
proof (intro exI conjI)
  let ?c = "go 0 Connected (ProcessConnect calm 0 (tl_server demo_client)) demo_client"
  show r: "client_run 5 (new_client demo_service) ?c" by (rule demo_client_connected)
  show "sc_sessions (ts_service (tl_server ?c)) = [0]"
    by (simp add: ProcessConnect_def connect_add_def connect_store_def upd_session_def GameSession_OnConnected_def
        demo_client_def new_server_def demo_service_def new_service_def AddSession_def set_insert_def)
  show "card (set (sc_sessions (ts_service (tl_server ?c)))) \<le> 1"
    using conjunct1 [OF conjunct2 [OF conjunct2 [OF client_tables_agree [OF r [unfolded demo_service_def]]]]] by simp
qed



end
