(* ===== verification/SessionReuse.thy ===== *)
theory SessionReuse
  imports TcpDispatch
begin

text \<open>
  The end of a session: \<^verbatim>\<open>SessionRef\<close> is a \<^verbatim>\<open>shared_ptr\<close>, so the object is destroyed when nothing refers to
  it any more, and the allocator may give its address to the next session. \<open>TcpServer\<close> never gives an
  address out twice; here it may, and the tables of sessions, which hold addresses, still agree.
\<close>

section \<open>References\<close>

text \<open>
  What refers to a session in the state: the two tables, the accept events, the threads between
  \<^verbatim>\<open>OnDisconnected\<close> and \<^verbatim>\<open>ReleaseSession\<close>, and its own events while they are outstanding. A thread that
  runs a handler holds one more; since the destruction is a step that may come at any later time,
  those are covered too.
\<close>

definition event_owners :: "tcp_session \<Rightarrow> bool list" where
  "event_owners s = [ss_connectOwner s, ss_recvOwner s, ss_sendOwner s, ss_disconnectOwner s]"

definition referred :: "session_ref \<Rightarrow> tcp_server \<Rightarrow> bool" where
  "referred r w \<longleftrightarrow> r \<in> set (sc_sessions (ts_service w)) \<or> r \<in> set (ts_manager w) \<or> r \<in> set (ts_leaving w) \<or>
     r \<in> snd ` set (ts_accepts w) \<or> (\<exists>s. ts_heap w r = Some s \<and> True \<in> set (event_owners s))"

definition destroy :: "session_ref \<Rightarrow> tcp_server \<Rightarrow> tcp_server" where
  "destroy r w = w\<lparr>ts_heap := (ts_heap w)(r := None)\<rparr>"

inductive life_step :: "tcp_server \<Rightarrow> tcp_server \<Rightarrow> bool" where
  lives: "tcp_step w w' \<Longrightarrow> life_step w w'"
| dies: "\<not> referred r w \<Longrightarrow> life_step w (destroy r w)"

inductive life_run :: "nat \<Rightarrow> tcp_server \<Rightarrow> tcp_server \<Rightarrow> bool" where
  lrun_refl: "life_run 0 w w"
| lrun_step: "life_run n w v \<Longrightarrow> life_step v u \<Longrightarrow> life_run (Suc n) w u"

lemma tcp_run_lives: "tcp_run n w v \<Longrightarrow> life_run n w v"
  by (induction rule: tcp_run.induct) (auto intro: life_run.intros lives)

lemma life_run_trans: "life_run n v u \<Longrightarrow> life_run m w v \<Longrightarrow> life_run (m + n) w u"
  by (induction rule: life_run.induct) (auto intro: life_run.intros)

section \<open>Destruction keeps the invariant\<close>

lemma destroy_fields [simp]:
  "ts_service (destroy r w) = ts_service w" "ts_manager (destroy r w) = ts_manager w"
  "ts_leaving (destroy r w) = ts_leaving w" "ts_accepts (destroy r w) = ts_accepts w"
  "ts_heap (destroy r w) = (ts_heap w)(r := None)" "published x (destroy r w) = published x w"
  by (simp_all add: destroy_def published_def)

lemma tcp_ok_destroy:
  assumes ok: "tcp_ok n w" and "\<not> referred r w"
  shows "tcp_ok n (destroy r w)"
proof -
  have r: "r \<notin> set (ts_manager w)" "r \<notin> set (ts_leaving w)" "r \<notin> snd ` set (ts_accepts w)"
    using assms(2) by (auto simp: referred_def)
  have acc: "x \<noteq> r" if "(p, x) \<in> set (ts_accepts w)" for p x
    using r(3) that by force
  show ?thesis
  proof (rule tcp_okI; unfold destroy_fields)
    fix p x assume "(p, x) \<in> set (ts_accepts w)"
    with tcp_okD(8,9) [OF ok this] acc [OF this] show "((ts_heap w)(r := None)) x \<noteq> None"
      "p \<in> {Armed, Adding, Informing} \<Longrightarrow> x \<notin> set (ts_manager w) \<and> x \<notin> set (ts_leaving w) \<and>
        ss_connected (the (((ts_heap w)(r := None)) x)) = (p \<noteq> Armed) \<and>
        \<not> ss_disconnectOwner (the (((ts_heap w)(r := None)) x))" by simp_all
  next
    fix x s assume "((ts_heap w)(r := None)) x = Some s"
    then have "ts_heap w x = Some s" by (simp split: if_splits)
    from tcp_okD(10,11) [OF ok this] show "ss_disconnectOwner s \<Longrightarrow> x \<in> set (ts_manager w) \<and> \<not> ss_connected s"
      "ss_connected s \<Longrightarrow> x \<in> set (ts_manager w) \<or> \<not> published x w" by blast+
  next
    fix x assume x: "x \<in> set (ts_leaving w)"
    then have "x \<noteq> r" using r by auto
    with tcp_okD(12) [OF ok x] show "\<exists>s. ((ts_heap w)(r := None)) x = Some s \<and> \<not> ss_connected s \<and> \<not> ss_disconnectOwner s" by simp
  next
    fix x assume x: "x \<in> set (ts_manager w)"
    then have "x \<noteq> r" using r by auto
    with tcp_okD(13) [OF ok x] show "((ts_heap w)(r := None)) x \<noteq> None" by simp
  qed (fact tcp_okD [OF ok])+
qed

lemma life_step_ok:
  assumes "life_step w w'" and "tcp_ok n w" and "n < 2147483647"
  shows "tcp_ok (Suc n) w'"
  using assms(1)
proof cases
  case lives
  with assms(2,3) show ?thesis by (simp add: tcp_step_ok)
next
  case (dies r)
  have "tcp_ok n w'" using tcp_ok_destroy [OF assms(2) dies(2)] dies(1) by simp
  then show ?thesis unfolding tcp_ok_def by (auto intro: le_SucI)
qed

lemma life_run_ok:
  "life_run m w w' \<Longrightarrow> tcp_ok n w \<Longrightarrow> n + m < 2147483648 \<Longrightarrow> tcp_ok (n + m) w'"
proof (induction rule: life_run.induct)
  case (lrun_step m w v u)
  then show ?case using life_step_ok [OF lrun_step.hyps(2), of "n + m"] by simp
qed simp

lemma lived_ok: "started w \<Longrightarrow> life_run n w w' \<Longrightarrow> n < 2147483648 \<Longrightarrow> tcp_ok n w'"
  using life_run_ok [of n w w' 0] started_ok by simp

section \<open>A session that leaves can be destroyed\<close>

lemma left_session_dies:
  assumes ok: "tcp_ok n w" and s: "ts_heap w r = Some s" "ss_disconnectOwner s"
    and quiet: "\<not> ss_recvOwner s" "sends_nothing r w" and acc: "r \<notin> snd ` set (ts_accepts w)"
  shows "\<exists>w'. ProcessDisconnect r w = Inr w' \<and> ts_accepts w' = ts_accepts w \<and> life_run 3 w (destroy r w')"
proof -
  obtain w' where w': "ProcessDisconnect r w = Inr w'" "tcp_run 2 w w'" using disconnect_run [OF ok s] by blast
  then obtain sv where sv: "ReleaseSession r (ts_service w) = Inr sv" "w' = (disconnect_begin r w)\<lparr>ts_service := sv\<rparr>"
    by (auto simp: ProcessDisconnect_def disconnect_end_def bindr_Inr_iff disconnect_begin_def
        GameSession_OnDisconnected_def upd_session_def)
  have m: "r \<in> set (ts_manager w)" using tcp_okD(10) [OF ok s] by blast
  then have "r \<notin> set (ts_leaving w)" "r \<in> set (sc_sessions (ts_service w))" using tcp_okD(6,7) [OF ok] by auto
  moreover from sst.leave_ok(2) [OF tcp_okD(1) [OF ok] this(2) sv(1)] have "r \<notin> set (sc_sessions sv)" by simp
  moreover have "r \<notin> set (GameSessionManager_Remove r (ts_manager w))"
    using tcp_okD(3) [OF ok] by (simp add: GameSessionManager_Remove_def set_erase_set)
  ultimately have "\<not> referred r w'"
    using s quiet acc by (simp add: referred_def sv(2) disconnect_begin_def GameSession_OnDisconnected_def upd_session_def
        event_owners_def sends_nothing_def)
  from lrun_step [OF tcp_run_lives [OF w'(2)] dies [OF this]] have "life_run 3 w (destroy r w')" by (simp add: numeral_eq_Suc)
  with w'(1) show ?thesis
    by (auto simp: sv(2) disconnect_begin_def GameSession_OnDisconnected_def upd_session_def)
qed

text \<open>The first session of the small listener closes, is destroyed, and its address is used again.\<close>

lemma demo_reuse:
  "\<exists>w. life_run 11 demo_listener w \<and> ts_accepts w = [(Armed, 0)] \<and> ts_heap w 0 = Some new_session"
proof -
  obtain w where w: "tcp_run 5 demo_listener w" "crowded 1 w" using demo_one by blast
  then obtain s where s: "ts_heap w 0 = Some s" "ss_connected s" "ss_recvOwner s" "\<not> ss_connectOwner s" "\<not> ss_sendOwner s"
    and acc: "ts_accepts w = [(Armed, 1)]"
    by (auto simp: crowded_def open_session_def outstanding_def sends_nothing_def)
  let ?s = "Session_Disconnect calm (s\<lparr>ss_recvOwner := False\<rparr>)"
  let ?v = "upd_session 0 (\<lambda>_. ?s) w"
  have pub: "published 0 w" by (simp add: published_def acc)
  have "Session_Dispatch calm 0 RecvEvent 0 w = Some (Inr ?v)"
    by (simp add: Session_Dispatch_def Session_ProcessRecv_def s(1))
  from session_run [OF _ pub _ this] have v: "tcp_run 1 w ?v" using s by (simp add: outstanding_def)
  have sv: "ts_heap ?v 0 = Some ?s" "ss_disconnectOwner ?s" "\<not> ss_recvOwner ?s" "sends_nothing 0 ?v"
    using s by (simp_all add: upd_session_def sends_nothing_def Session_Disconnect_def Session_RegisterDisconnect_def calm_def)
  have ok: "tcp_ok 6 ?v" using started_run [OF demo_started trun_trans [OF v w(1)]] by simp
  from left_session_dies [OF ok sv] acc obtain u where u: "ts_accepts u = [(Armed, 1)]" "life_run 3 ?v (destroy 0 u)" by auto
  let ?u = "destroy 0 u" let ?t = "set_pc 0 Rearming ?u"
  have 1: "life_step ?u ?t" by (intro lives refused [of 0 _ 1]) (simp_all add: u(1))
  have "arm (\<lambda>_. one_try 0) 0 ?t = Some (Inr (?t\<lparr>ts_heap := (ts_heap ?t)(0 \<mapsto> new_session), ts_accepts := [(Armed, 0)]\<rparr>))"
    by (simp add: arm_def RegisterAccept_one) (simp add: set_pc_def u(1))
  then have 2: "life_step ?t (?t\<lparr>ts_heap := (ts_heap ?t)(0 \<mapsto> new_session), ts_accepts := [(Armed, 0)]\<rparr>)"
    by (intro lives rearmed [of 0 ?t 1 "\<lambda>_. one_try 0"]) (simp_all add: u(1) one_try_def)
  note life_run_trans [OF lrun_step [OF lrun_step [OF u(2) 1] 2] tcp_run_lives [OF trun_trans [OF v w(1)]]]
  then have "life_run 11 demo_listener (?t\<lparr>ts_heap := (ts_heap ?t)(0 \<mapsto> new_session), ts_accepts := [(Armed, 0)]\<rparr>)"
    by (simp add: numeral_eq_Suc)
  then show ?thesis
    by (intro exI [of _ "?t\<lparr>ts_heap := (ts_heap ?t)(0 \<mapsto> new_session), ts_accepts := [(Armed, 0)]\<rparr>"] conjI) simp_all
qed

section \<open>Properties\<close>

text \<open>
  C12: In every run of the TCP server of fewer than 2^31 steps, whatever the operating system answers,
  however the threads interleave, and with the addresses of destroyed sessions used again: the service
  holds exactly the sessions the manager holds and those between the two tables, its counter is their
  number, every open session that other threads know of is in both tables, and every session in a
  table, on an accept event or on its way out is alive.
\<close>

theorem tables_agree_with_reuse:
  assumes "started w0" and "life_run n w0 w" and "n < 2147483648"
  shows "sint (sc_sessionCount (ts_service w)) = int (card (set (sc_sessions (ts_service w)))) \<and>
     set (sc_sessions (ts_service w)) =
       set (ts_manager w) \<union> set (ts_leaving w) \<union> {r. (Informing, r) \<in> set (ts_accepts w)} \<and>
     set (ts_manager w) \<inter> set (ts_leaving w) = {} \<and>
     (\<forall>r. open_session r w \<longrightarrow> published r w \<longrightarrow> r \<in> set (ts_manager w)) \<and>
     (\<forall>r \<in> set (sc_sessions (ts_service w)) \<union> snd ` set (ts_accepts w). ts_heap w r \<noteq> None)"
proof -
  have ok: "tcp_ok n w" by (rule lived_ok [OF assms])
  have "ts_heap w r \<noteq> None" if "r \<in> set (sc_sessions (ts_service w)) \<union> snd ` set (ts_accepts w)" for r
    using that tcp_okD(6,12,13) [OF ok] tcp_okD(8) [OF ok, of _ r] by fastforce
  with tcp_ok_tables [OF ok] show ?thesis by blast
qed

theorem tables_agree_with_reuse_witness:
  "\<exists>w. life_run 11 demo_listener w \<and> ts_accepts w = [(Armed, 0)] \<and>
     sint (sc_sessionCount (ts_service w)) = int (card (set (sc_sessions (ts_service w))))"
proof -
  obtain w where w: "life_run 11 demo_listener w" "ts_accepts w = [(Armed, 0)]" using demo_reuse by blast
  with tables_agree_with_reuse [OF demo_started w(1)] show ?thesis by auto
qed

text \<open>
  C21: Every completion that can be reported in a reachable state is handled by a run of at most two
  steps, and the handling of a disconnection always returns: the assertion in \<^verbatim>\<open>ReleaseSession\<close> never
  fails, also when addresses are used again.
\<close>

theorem completions_handled:
  assumes "started w0" and "life_run n w0 w" and "n < 2147483648"
    and "outstanding r ty w" and "published r w" and "Session_Dispatch os r ty k w = Some x"
  shows "(ty = DisconnectEvent \<longrightarrow> (\<exists>w'. x = Inr w')) \<and> (\<forall>w'. x = Inr w' \<longrightarrow> (\<exists>m\<le>2. life_run m w w'))"
  using tcp_ok_dispatch [OF lived_ok [OF assms(1-3)] assms(4-6)] tcp_run_lives by blast

theorem completions_handled_witness:
  "\<exists>w w' m. crowded 1 w \<and> Session_Dispatch calm 0 RecvEvent 0 w = Some (Inr w') \<and> m \<le> 2 \<and> life_run m w w'"
proof -
  obtain w where w: "tcp_run 5 demo_listener w" "crowded 1 w" using demo_one by blast
  then have o: "outstanding 0 RecvEvent w" and p: "published 0 w" by (simp_all add: crowded_def published_def)
  obtain w' where w': "Session_Dispatch calm 0 RecvEvent 0 w = Some (Inr w')"
    by (simp add: Session_Dispatch_def Session_ProcessRecv_def)
  from completions_handled [OF demo_started tcp_run_lives [OF w(1)] _ o p w'] w(2) w' show ?thesis by auto
qed

end
