(* ===== verification/SendProgress.thy ===== *)
theory SendProgress
  imports TcpSession
begin

text \<open>
  Progress of sending on a TCP session: when no new buffer is queued, the threads that send and the
  completions they cause come to rest after a few steps, and an open connection then has nothing
  left to send.
\<close>

section \<open>The steps that do not queue\<close>

inductive progress_step :: "os_results \<Rightarrow> send_machine \<Rightarrow> send_machine \<Rightarrow> bool" for os where
  p_give_up: "\<not> ss_connected s \<Longrightarrow>
    progress_step os \<lparr>sm_session = s, sm_senders = ps @ Registering # qs\<rparr> \<lparr>sm_session = s, sm_senders = ps @ qs\<rparr>"
| p_drain: "ss_connected s \<Longrightarrow>
    progress_step os \<lparr>sm_session = s, sm_senders = ps @ Registering # qs\<rparr>
      \<lparr>sm_session = Session_drain s, sm_senders = ps @ Calling # qs\<rparr>"
| p_call: "progress_step os \<lparr>sm_session = s, sm_senders = ps @ Calling # qs\<rparr>
      \<lparr>sm_session = Session_WSASend os s, sm_senders = ps @ qs\<rparr>"
| p_complete: "ss_sendPosted s \<Longrightarrow>
    progress_step os \<lparr>sm_session = s, sm_senders = ps\<rparr> \<lparr>sm_session = Session_ProcessSend os n s, sm_senders = ps\<rparr>"

lemma progress_is_step: "progress_step os m m' \<Longrightarrow> send_step os m m'"
  by (induction rule: progress_step.induct) (auto intro: send_step.intros)

inductive progress_path :: "os_results \<Rightarrow> nat \<Rightarrow> send_machine \<Rightarrow> send_machine \<Rightarrow> bool" for os where
  path_none: "progress_path os 0 m m"
| path_more: "progress_path os k m m' \<Longrightarrow> progress_step os m' m'' \<Longrightarrow> progress_path os (Suc k) m m''"

section \<open>They run out\<close>

definition pc_weight :: "sender_pc \<Rightarrow> nat" where
  "pc_weight pc = (case pc of Registering \<Rightarrow> 4 | Calling \<Rightarrow> 3)"

definition weight :: "send_machine \<Rightarrow> nat" where
  "weight m = sum_list (map pc_weight (sm_senders m)) + (if ss_sendPosted (sm_session m) then 1 else 0) +
     (if ss_sendQueue (sm_session m) = [] then 0 else 1)"

lemma progress_decreases:
  assumes "progress_step os m m'" and "\<not> failed (os_send os)" and "send_ok m"
  shows "weight m' < weight m"
  using assms(1)
proof cases
  case (p_drain s ps qs)
  then show ?thesis by (simp add: weight_def pc_weight_def Session_drain_def)
next
  case (p_call s ps qs)
  then show ?thesis using assms(2) by (simp add: weight_def pc_weight_def Session_WSASend_def)
next
  case (p_complete s n ps)
  then show ?thesis using assms(2)
    by (simp add: weight_def Session_ProcessSend_def Session_RegisterSend_def Session_WSASend_def Session_drain_def Let_def)
qed (simp add: weight_def pc_weight_def)

lemma send_ok_weight: "send_ok m \<Longrightarrow> weight m \<le> 5"
  by (cases "sm_senders m") (auto simp: send_ok_def weight_def pc_weight_def Let_def split: if_splits sender_pc.splits)

lemma progress_path_bound:
  "progress_path os k m m' \<Longrightarrow> \<not> failed (os_send os) \<Longrightarrow> send_ok m \<Longrightarrow> send_ok m' \<and> k + weight m' \<le> weight m"
proof (induction rule: progress_path.induct)
  case (path_more k m m' m'')
  then have ok: "send_ok m'" "k + weight m' \<le> weight m" by simp_all
  from progress_decreases [OF path_more.hyps(2) path_more.prems(1) ok(1)] ok(2)
    send_ok_step [OF progress_is_step [OF path_more.hyps(2)] ok(1) path_more.prems(1)]
  show ?case by simp
qed simp

lemma rest_sent:
  assumes ok: "send_ok m" and "\<nexists>m'. progress_step os m m'" and "ss_connected (sm_session m)"
  shows "ss_wire (sm_session m) = ss_log (sm_session m)"
proof -
  obtain s ps where m: "m = \<lparr>sm_session = s, sm_senders = ps\<rparr>" by (cases m)
  have "ps = []"
  proof (cases ps)
    case (Cons pc qs)
    then show ?thesis
      using assms(2,3) p_drain [of s os "[]" qs] p_call [of os s "[]" qs] by (cases pc) (auto simp: m)
  qed
  moreover have "\<not> ss_sendPosted s" using assms(2) p_complete [of s os ps] by (auto simp: m)
  ultimately show ?thesis using ok assms(3) by (auto simp: send_ok_def m)
qed

section \<open>Properties\<close>

text \<open>
  C19: As long as \<^verbatim>\<open>WSASend\<close> does not fail, at most five steps of the sending threads and of completions
  are possible from any reachable state before a caller queues another buffer, and when none is
  possible any more on an open connection every buffer ever queued has been handed to \<^verbatim>\<open>WSASend\<close>.
\<close>

theorem queued_buffers_get_sent:
  assumes "send_run oss (send_start os0) m" and "\<forall>os \<in> oss. \<not> failed (os_send os)"
    and "progress_path os k m m'" and "\<not> failed (os_send os)"
  shows "k \<le> 5 \<and> ((\<nexists>m''. progress_step os m' m'') \<longrightarrow> ss_connected (sm_session m') \<longrightarrow>
     ss_wire (sm_session m') = ss_log (sm_session m'))"
proof -
  have ok: "send_ok m" by (rule send_ok_run [OF assms(1) send_ok_start assms(2)])
  from progress_path_bound [OF assms(3,4) ok] send_ok_weight [OF ok] rest_sent [of m' os] show ?thesis by auto
qed

theorem queued_buffers_get_sent_witness:
  "\<exists>m. send_run {calm} (send_start calm) m \<and> ss_log (sm_session m) = [SendBuffer 3] \<and>
     ss_wire (sm_session m) = ss_log (sm_session m)"
proof -
  let ?s = "sm_session (send_start calm)"
  let ?s1 = "snd (Session_push (SendBuffer 3) ?s)"
  let ?m1 = "\<lparr>sm_session = ?s1, sm_senders = [Registering]\<rparr>"
  let ?m2 = "\<lparr>sm_session = Session_drain ?s1, sm_senders = [Calling]\<rparr>"
  let ?m3 = "\<lparr>sm_session = Session_WSASend calm (Session_drain ?s1), sm_senders = []\<rparr>"
  let ?m4 = "\<lparr>sm_session = Session_ProcessSend calm 3 (Session_WSASend calm (Session_drain ?s1)), sm_senders = []\<rparr>"
  have s: "ss_connected ?s" "\<not> ss_sendRegistered ?s" "ss_log ?s = []" "ss_sendQueue ?s = []" "sm_senders (send_start calm) = []"
    by (simp_all add: send_start_def Session_ProcessConnect_def Session_RegisterRecv_def new_session_def calm_def)
  have "send_step calm (send_start calm) ?m1"
    using push [OF s(1), of "SendBuffer 3" True ?s1 calm "[]"] s(2) by (simp add: send_start_def Session_push_def)
  note r1 = run_step [OF run_refl _ this, of "{calm}"]
  have 2: "progress_step calm ?m1 ?m2" using p_drain [of ?s1 calm "[]" "[]"] s(1) by (simp add: Session_push_def)
  have 3: "progress_step calm ?m2 ?m3" using p_call [of calm _ "[]" "[]"] by simp
  have 4: "progress_step calm ?m3 ?m4" by (rule p_complete) (simp add: Session_WSASend_def calm_def)
  have q: "\<not> failed (os_send calm)" by (simp add: calm_def)
  have r4: "send_run {calm} (send_start calm) ?m4"
    using r1 run_step [OF run_step [OF run_step [OF _ _ progress_is_step [OF 2]] _ progress_is_step [OF 3]] _ progress_is_step [OF 4]]
    by simp
  have log: "ss_log (sm_session ?m4) = [SendBuffer 3]" "ss_connected (sm_session ?m4)" "\<not> ss_sendPosted (sm_session ?m4)"
    using s by (simp_all add: Session_ProcessSend_def Session_WSASend_def Session_drain_def Session_push_def calm_def)
  have "\<nexists>m''. progress_step calm ?m4 m''"
  proof
    assume "\<exists>m''. progress_step calm ?m4 m''"
    then obtain m'' where "progress_step calm ?m4 m''" by blast
    then show False using log(3) by cases auto
  qed
  then have "ss_wire (sm_session ?m4) = ss_log (sm_session ?m4)"
    using queued_buffers_get_sent [OF r4 _ path_none q] q log(2) by blast
  with r4 log(1) show ?thesis by blast
qed

end
