(* ===== verification/SendLifetime.thy ===== *)
theory SendLifetime
  imports TcpSession
begin

text \<open>
  What the send event of a session keeps alive. The operating system reads the buffers of an
  outstanding \<^verbatim>\<open>WSASend\<close> and reports its completion to the session, so until then the event must hold
  both. Unlike the order of the buffers this does not depend on \<^verbatim>\<open>WSASend\<close> succeeding.
\<close>

definition under_way :: "send_machine \<Rightarrow> bool" where
  "under_way m \<longleftrightarrow> ss_sendPosted (sm_session m) \<or> sm_senders m = [Calling]"

definition held_ok :: "send_machine \<Rightarrow> bool" where
  "held_ok m \<longleftrightarrow> (let s = sm_session m in
     length (sm_senders m) + (if ss_sendPosted s then 1 else 0) \<le> 1 \<and>
     (ss_sendRegistered s \<or> sm_senders m = [] \<and> \<not> ss_sendPosted s) \<and>
     ss_sendOwner s = under_way m \<and>
     (\<not> under_way m \<longrightarrow> ss_sendBuffers s = []) \<and>
     (ss_sendPosted s \<longrightarrow> (\<exists>done_before. ss_wire s = done_before @ ss_sendBuffers s)))"

lemma Disconnect_owner [simp]: "ss_sendOwner (Session_Disconnect os s) = ss_sendOwner s"
  by (simp add: Session_Disconnect_def Session_RegisterDisconnect_def Let_def)

lemma HandleError_held [simp]:
  "ss_sendPosted (Session_HandleError os e s) = ss_sendPosted s" "ss_wire (Session_HandleError os e s) = ss_wire s"
  by (simp_all add: Session_HandleError_def)

lemma WSASend_held:
  "ss_sendPosted (Session_WSASend os s) = (ss_sendPosted s \<or> \<not> failed (os_send os))"
  "ss_sendOwner (Session_WSASend os s) = (ss_sendOwner s \<and> \<not> failed (os_send os))"
  "ss_sendBuffers (Session_WSASend os s) = (if failed (os_send os) then [] else ss_sendBuffers s)"
  "ss_wire (Session_WSASend os s) = ss_wire s @ (if failed (os_send os) then [] else ss_sendBuffers s)"
  "ss_sendRegistered (Session_WSASend os s) = (ss_sendRegistered s \<and> \<not> failed (os_send os))"
  by (simp_all add: Session_WSASend_def)

lemma held_step:
  assumes "send_step os m m'" and "held_ok m"
  shows "held_ok m'"
  using assms
proof cases
  case (push s buf r s' ps)
  with assms(2) show ?thesis by (auto simp: held_ok_def under_way_def Session_push_def Let_def split: if_splits)
next
  case (give_up s ps qs)
  with assms(2) show ?thesis by (auto simp: held_ok_def under_way_def Let_def split: if_splits)
next
  case (drain s ps qs)
  with assms(2) show ?thesis by (auto simp: held_ok_def under_way_def Session_drain_def Let_def split: if_splits)
next
  case (call s ps qs)
  with assms(2) show ?thesis by (auto simp: held_ok_def under_way_def WSASend_held Let_def split: if_splits)
next
  case (complete s ps n)
  with assms(2) have "ps = []" "ss_sendRegistered s" by (auto simp: held_ok_def)
  with complete show ?thesis
    by (auto simp: held_ok_def under_way_def Session_ProcessSend_def Session_RegisterSend_def Session_drain_def WSASend_held Let_def)
next
  case (close s ps)
  with assms(2) show ?thesis by (auto simp: held_ok_def under_way_def Let_def split: if_splits)
qed

lemma held_start: "held_ok (send_start os)"
  by (simp add: held_ok_def under_way_def send_start_def Session_ProcessConnect_def Session_RegisterRecv_def new_session_def
      Session_HandleError_def Let_def)

lemma held_run: "send_run oss m m' \<Longrightarrow> held_ok m \<Longrightarrow> held_ok m'"
  by (induction rule: send_run.induct) (auto intro: held_step)

section \<open>What the operating system reads\<close>

text \<open>
  The buffers of the \<^verbatim>\<open>WSASend\<close> that is outstanding, followed along a run from outside the session: a
  call that succeeds hands over the buffers it adds to the wire, they are read until the completion, and
  then none are, unless the completion makes the next call.
\<close>

definition read_after :: "send_machine \<Rightarrow> send_machine \<Rightarrow> send_buffer list \<Rightarrow> send_buffer list" where
  "read_after m m' bufs =
     (let s = sm_session m; s' = sm_session m'
      in if \<not> ss_sendPosted s' then []
         else if ss_sendPosted s \<and> ss_wire s' = ss_wire s then bufs
         else drop (length (ss_wire s)) (ss_wire s'))"

inductive reading_run :: "os_results set \<Rightarrow> os_results \<Rightarrow> send_machine \<Rightarrow> send_buffer list \<Rightarrow> bool" for oss os0 where
  reading_start: "reading_run oss os0 (send_start os0) []"
| reading_step: "reading_run oss os0 m bufs \<Longrightarrow> os \<in> oss \<Longrightarrow> send_step os m m' \<Longrightarrow>
    reading_run oss os0 m' (read_after m m' bufs)"

text \<open>It is a history of the runs that takes nothing away from them.\<close>

lemma reading_runs: "send_run oss (send_start os0) m \<longleftrightarrow> (\<exists>bufs. reading_run oss os0 m bufs)"
proof
  assume "send_run oss (send_start os0) m"
  then show "\<exists>bufs. reading_run oss os0 m bufs"
    by (induction "send_start os0" m rule: send_run.induct) (blast intro: reading_start reading_step)+
next
  assume "\<exists>bufs. reading_run oss os0 m bufs"
  then obtain bufs where "reading_run oss os0 m bufs" by blast
  then show "send_run oss (send_start os0) m"
    by (induction rule: reading_run.induct) (blast intro: run_refl run_step)+
qed

definition holds_read :: "send_machine \<Rightarrow> send_buffer list \<Rightarrow> bool" where
  "holds_read m bufs \<longleftrightarrow> bufs = (if ss_sendPosted (sm_session m) then ss_sendBuffers (sm_session m) else [])"

lemma Disconnect_held [simp]:
  "ss_sendPosted (Session_Disconnect os s) = ss_sendPosted s" "ss_wire (Session_Disconnect os s) = ss_wire s"
  "ss_sendBuffers (Session_Disconnect os s) = ss_sendBuffers s"
  by (simp_all add: Session_Disconnect_def Session_RegisterDisconnect_def Let_def)

lemma holds_read_step:
  assumes "send_step os m m'" and "held_ok m" and "holds_read m bufs"
  shows "holds_read m' (read_after m m' bufs)"
  using assms
proof cases
  case (push s buf r s' ps)
  with assms(3) show ?thesis by (auto simp: holds_read_def read_after_def Session_push_def Let_def)
next
  case (give_up s ps qs)
  with assms(3) show ?thesis by (auto simp: holds_read_def read_after_def Let_def)
next
  case (drain s ps qs)
  with assms(2,3) show ?thesis by (auto simp: held_ok_def holds_read_def read_after_def Session_drain_def Let_def split: if_splits)
next
  case (call s ps qs)
  with assms(2,3) show ?thesis by (auto simp: held_ok_def holds_read_def read_after_def WSASend_held Let_def split: if_splits)
next
  case (complete s ps n)
  with assms(2,3) show ?thesis
    by (auto simp: holds_read_def read_after_def Session_ProcessSend_def Session_RegisterSend_def Session_drain_def WSASend_held Let_def)
next
  case (close s ps)
  with assms(3) show ?thesis by (auto simp: holds_read_def read_after_def Let_def)
qed

lemma reading_held: "reading_run oss os0 m bufs \<Longrightarrow> held_ok m \<and> holds_read m bufs"
proof (induction rule: reading_run.induct)
  case reading_start
  show ?case
    using held_start
    by (simp add: holds_read_def send_start_def Session_ProcessConnect_def Session_RegisterRecv_def new_session_def
        Session_HandleError_def Let_def)
qed (blast intro: held_step holds_read_step)

section \<open>Properties\<close>

text \<open>
  C20: However many threads send and whatever \<^verbatim>\<open>WSASend\<close> answers: while a send is being made or is
  outstanding the event refers to its session, and while one is outstanding the event holds exactly the
  buffers that the operating system reads, those the last successful \<^verbatim>\<open>WSASend\<close> was given; otherwise it
  refers to nothing, holds nothing, and nothing is read. So no buffer is freed while it is read and no
  session is kept alive for ever.
\<close>

theorem sends_hold_their_buffers:
  assumes "reading_run oss os m bufs"
  shows "ss_sendOwner (sm_session m) = under_way m \<and>
     (ss_sendPosted (sm_session m) \<longrightarrow> ss_sendBuffers (sm_session m) = bufs \<and>
        (\<exists>done_before. ss_wire (sm_session m) = done_before @ bufs) \<and> sm_senders m = []) \<and>
     (\<not> under_way m \<longrightarrow> ss_sendBuffers (sm_session m) = []) \<and>
     (\<not> ss_sendPosted (sm_session m) \<longrightarrow> bufs = [])"
  using reading_held [OF assms] by (auto simp: held_ok_def holds_read_def Let_def)

theorem sends_hold_their_buffers_witness:
  "\<exists>m. reading_run {calm} calm m [SendBuffer 3] \<and> ss_sendPosted (sm_session m) \<and> ss_sendOwner (sm_session m) \<and>
     ss_sendBuffers (sm_session m) = [SendBuffer 3]"
proof -
  let ?s0 = "sm_session (send_start calm)"
  let ?s1 = "snd (Session_push (SendBuffer 3) ?s0)"
  let ?m = "\<lparr>sm_session = Session_WSASend calm (Session_drain ?s1), sm_senders = []\<rparr>"
  have s0: "ss_connected ?s0" "\<not> ss_sendRegistered ?s0" "ss_sendQueue ?s0 = []" "ss_wire ?s0 = []" "ss_sendBuffers ?s0 = []"
    "\<not> ss_sendPosted ?s0"
    by (simp_all add: send_start_def Session_ProcessConnect_def Session_RegisterRecv_def new_session_def calm_def)
  have "send_step calm (send_start calm) \<lparr>sm_session = ?s1, sm_senders = [Registering]\<rparr>"
    using push [OF s0(1), of "SendBuffer 3" True ?s1 calm "[]"] s0 by (simp add: send_start_def Session_push_def)
  note r1 = reading_step [OF reading_start _ this, where oss = "{calm}"]
  have "send_step calm \<lparr>sm_session = ?s1, sm_senders = [Registering]\<rparr> \<lparr>sm_session = Session_drain ?s1, sm_senders = [Calling]\<rparr>"
    using drain [of ?s1 calm "[]" "[]"] s0 by (simp add: Session_push_def)
  note r2 = reading_step [OF r1 _ this]
  have "send_step calm \<lparr>sm_session = Session_drain ?s1, sm_senders = [Calling]\<rparr> ?m"
    using call [of calm "Session_drain ?s1" "[]" "[]"] by simp
  note r3 = reading_step [OF r2 _ this]
  have p: "ss_sendPosted (sm_session ?m)" "ss_wire (sm_session ?m) = [SendBuffer 3]"
    using s0 by (simp_all add: Session_WSASend_def Session_drain_def Session_push_def calm_def)
  have "reading_run {calm} calm ?m [SendBuffer 3]"
    using r3 p s0 by (simp add: read_after_def Session_drain_def Session_push_def)
  from sends_hold_their_buffers [OF this] this p show ?thesis by (intro exI [of _ ?m]) (auto simp: under_way_def)
qed

end
