(* ===== verification/TestPacket.thy ===== *)
theory TestPacket
  imports TcpSession
begin

text \<open>
  \<^verbatim>\<open>GameServer/ServerPacketHandler\<close>: the TCP packets of the content code, a test message with a list
  of buffs, and the handler of incoming packets, which looks at the header and knows no packet.
\<close>

record buff_data =
  bd_buffId :: u64
  bd_remainTime :: f32

definition S_TEST :: u16 where "S_TEST = 1"

definition ServerPacketHandler_HandlePacket :: "byte list \<Rightarrow> i32 \<Rightarrow> unit result" where
  "ServerPacketHandler_HandlePacket buffer len =
     bindr (br_Peek 4 (BufferReader buffer len 0)) (\<lambda>header. Inr ())"

fun write_buffs :: "buff_data list \<Rightarrow> buffer_writer \<Rightarrow> buffer_writer result" where
  "write_buffs [] bw = Inr bw"
| "write_buffs (b # bs) bw =
     bindr (bindr (bw_shift (enc_u64 (bd_buffId b)) bw) (bw_shift (enc_u32 (bd_remainTime b)))) (write_buffs bs)"

definition Make_S_TEST :: "u64 \<Rightarrow> u32 \<Rightarrow> u16 \<Rightarrow> buff_data list \<Rightarrow> send_buffer result" where
  "Make_S_TEST objectId hp attack buffs =
     (let sendBuffer = SendBuffer 4096;
          bw = BufferWriter (sb_buffer sendBuffer) (sb_AllocSize sendBuffer) 0;
          (header, bw) = bw_Reserve 4 bw
      in bindr (bw_shift (enc_u64 objectId) bw) (\<lambda>bw.
         bindr (bw_shift (enc_u32 hp) bw) (\<lambda>bw.
         bindr (bw_shift (enc_u16 attack) bw) (\<lambda>bw.
         bindr (bw_shift (enc_u16 (of_nat (length buffs))) bw) (\<lambda>bw.
         bindr (write_buffs buffs bw) (\<lambda>bw.
         let sendBuffer = sb_SetWriteSize (bw_pos bw) sendBuffer
         in bindr (bw_poke header 0 (enc_u16 (ucast (bw_pos bw))) bw) (\<lambda>bw.
            bindr (bw_poke header 2 (enc_u16 S_TEST) bw) (\<lambda>bw.
            Inr (sendBuffer\<lparr>sb_buffer := bw_buffer bw\<rparr>)))))))))"

section \<open>The bytes of the packet\<close>

definition buff_bytes :: "buff_data \<Rightarrow> byte list" where
  "buff_bytes b = enc_u64 (bd_buffId b) @ enc_u32 (bd_remainTime b)"

definition test_body :: "u64 \<Rightarrow> u32 \<Rightarrow> u16 \<Rightarrow> buff_data list \<Rightarrow> byte list" where
  "test_body objectId hp attack buffs =
     enc_u64 objectId @ enc_u32 hp @ enc_u16 attack @ enc_u16 (of_nat (length buffs)) @ concat (map buff_bytes buffs)"

definition test_bytes :: "u64 \<Rightarrow> u32 \<Rightarrow> u16 \<Rightarrow> buff_data list \<Rightarrow> byte list" where
  "test_bytes objectId hp attack buffs =
     enc_u16 (of_nat (20 + 12 * length buffs)) @ enc_u16 S_TEST @ test_body objectId hp attack buffs"

lemma length_buffs: "length (concat (map buff_bytes buffs)) = 12 * length buffs"
  by (induction buffs) (simp_all add: buff_bytes_def)

lemma length_test_body: "length (test_body objectId hp attack buffs) = 16 + 12 * length buffs"
  by (simp add: test_body_def length_buffs)

lemma writes_buffs: "writes (write_buffs buffs) (concat (map buff_bytes buffs))"
proof (induction buffs)
  case Nil
  then show ?case by (simp add: writes_def)
next
  case (Cons b bs)
  from writes_bind [OF writes_bind [OF writes_shift writes_shift] Cons.IH]
  show ?case by (simp add: buff_bytes_def)
qed

lemma Make_S_TEST_eq:
  "bindr (Make_S_TEST objectId hp attack buffs) sb_wire =
     (if length buffs \<le> 339 then Inr (test_bytes objectId hp attack buffs) else Inl OutOfBounds)"
proof -
  define body where "body = (\<lambda>bw. bindr (bw_shift (enc_u64 objectId) bw) (\<lambda>bw. bindr (bw_shift (enc_u32 hp) bw) (\<lambda>bw.
      bindr (bw_shift (enc_u16 attack) bw) (\<lambda>bw. bindr (bw_shift (enc_u16 (of_nat (length buffs))) bw) (write_buffs buffs)))))"
  have w: "writes body (test_body objectId hp attack buffs)"
    unfolding body_def test_body_def by (intro writes_bind writes_shift writes_buffs)
  let ?p = "replicate 4 0 @ test_body objectId hp attack buffs"
  have r: "bw_Reserve 4 (filled 4096 []) = (Some 0, filled 4096 (replicate 4 0))"
    using bw_Reserve_filled [of "[]" 4 4096] by simp
  have b: "body (filled 4096 (replicate 4 0)) = (if length buffs \<le> 339 then Inr (filled 4096 ?p) else Inl OutOfBounds)"
    using writesD [OF w, of "replicate 4 0" 4096] by (simp add: length_test_body)
  have m: "Make_S_TEST objectId hp attack buffs = bindr (body (filled 4096 (replicate 4 0))) (\<lambda>bw.
      let sb = sb_SetWriteSize (bw_pos bw) (SendBuffer 4096)
      in bindr (bw_poke (Some 0) 0 (enc_u16 (ucast (bw_pos bw))) bw) (\<lambda>bw.
         bindr (bw_poke (Some 0) 2 (enc_u16 S_TEST) bw) (\<lambda>bw. Inr (sb\<lparr>sb_buffer := bw_buffer bw\<rparr>))))"
    by (simp add: Make_S_TEST_def BufferWriter_fresh r body_def bindr_assoc)
  show ?thesis
  proof (cases "length buffs \<le> 339")
    case True
    let ?n = "20 + 12 * length buffs"
    have pos: "bw_pos (filled 4096 ?p) = of_nat ?n" by (simp add: filled_def length_test_body)
    have u: "(ucast (of_nat ?n :: u32) :: u16) = of_nat ?n"
      by (rule word_unat_eq_iff [THEN iffD2]) (use True in \<open>simp add: unsigned_ucast_eq unat_of_nat_u32 unat_of_nat take_bit_eq_mod del: of_nat_add of_nat_mult\<close>)
    let ?q = "enc_u16 (of_nat ?n) @ replicate 2 0 @ test_body objectId hp attack buffs"
    have q: "bw_poke (Some 0) 0 (enc_u16 (of_nat ?n)) (filled 4096 ?p) = Inr (filled 4096 ?q)"
      using True by (simp add: bw_poke_filled length_test_body blit_def)
    have z: "bw_poke (Some 0) 2 (enc_u16 S_TEST) (filled 4096 ?q) = Inr (filled 4096 (test_bytes objectId hp attack buffs))"
      using True by (simp add: bw_poke_filled length_test_body blit_def test_bytes_def)
    have l: "length (test_bytes objectId hp attack buffs) = ?n" by (simp add: test_bytes_def length_test_body)
    have "Make_S_TEST objectId hp attack buffs =
        Inr \<lparr>sb_buffer = bw_buffer (filled 4096 (test_bytes objectId hp attack buffs)), sb_writeSize = of_nat ?n\<rparr>"
      using True unfolding m b by (simp only: if_True bindr_simps pos u Let_def q z sb_SetWriteSize_def SendBuffer_def send_buffer.simps)
    moreover have "(of_nat ?n :: u32) = bw_pos (filled 4096 (test_bytes objectId hp attack buffs))"
      by (simp add: filled_def l)
    ultimately show ?thesis using True sb_wire_filled [of "test_bytes objectId hp attack buffs" 4096] by (simp add: l)
  qed (simp add: m b)
qed

lemma test_bytes_framed: "length buffs \<le> 339 \<Longrightarrow> well_framed (test_bytes objectId hp attack buffs)"
  by (simp add: well_framed_def header_size_def test_bytes_def length_test_body unat_of_nat del: of_nat_add of_nat_mult)

section \<open>Reading it back\<close>

text \<open>A receiver that uses \<^verbatim>\<open>BufferReader\<close> in the order of the writes.\<close>

fun read_buffs :: "nat \<Rightarrow> buffer_reader \<Rightarrow> buff_data list result" where
  "read_buffs 0 r = Inr []"
| "read_buffs (Suc n) r =
     bindr (br_shift dec_u64 8 r) (\<lambda>(i, r). bindr (br_shift dec_u32 4 r) (\<lambda>(t, r).
     bindr (read_buffs n r) (\<lambda>bs. Inr (\<lparr>bd_buffId = i, bd_remainTime = t\<rparr> # bs))))"

type_synonym test_message = "u64 \<times> u32 \<times> u16 \<times> buff_data list"

definition read_test :: "byte list \<Rightarrow> test_message result" where
  "read_test packet =
     bindr (br_shift dec_u16 2 (BufferReader packet (of_nat (length packet)) 0)) (\<lambda>(size, r).
     bindr (br_shift dec_u16 2 r) (\<lambda>(ident, r).
     bindr (br_shift dec_u64 8 r) (\<lambda>(objectId, r).
     bindr (br_shift dec_u32 4 r) (\<lambda>(hp, r).
     bindr (br_shift dec_u16 2 r) (\<lambda>(attack, r).
     bindr (br_shift dec_u16 2 r) (\<lambda>(n, r).
     bindr (read_buffs (unat n) r) (\<lambda>buffs. Inr (objectId, hp, attack, buffs))))))))"

definition send_test :: "test_message \<Rightarrow> byte list result" where
  "send_test = (\<lambda>(objectId, hp, attack, buffs). bindr (Make_S_TEST objectId hp attack buffs) sb_wire)"

lemma read_buffs_bytes: "ahead r (concat (map buff_bytes buffs)) \<Longrightarrow> read_buffs (length buffs) r = Inr buffs"
proof (induction buffs arbitrary: r)
  case (Cons b bs)
  then have a: "ahead r (enc_u64 (bd_buffId b) @ enc_u32 (bd_remainTime b) @ concat (map buff_bytes bs))"
    by (simp add: buff_bytes_def [of b])
  note a1 = wu64.ahead_enc [OF a]
  from Cons.IH [OF wu32.ahead_enc [OF a1]] show ?case
    by (simp add: wu64.br_shift_enc [OF a] wu32.br_shift_enc [OF a1])
qed simp

lemma read_test_bytes:
  assumes "length buffs \<le> 339"
  shows "read_test (test_bytes objectId hp attack buffs) = Inr (objectId, hp, attack, buffs)"
proof -
  let ?w = "test_bytes objectId hp attack buffs"
  have "ahead (BufferReader ?w (of_nat (length ?w)) 0) (enc_u16 (of_nat (20 + 12 * length buffs)) @ enc_u16 S_TEST @
      enc_u64 objectId @ enc_u32 hp @ enc_u16 attack @ enc_u16 (of_nat (length buffs)) @ concat (map buff_bytes buffs))"
    using assms by (simp add: ahead_def BufferReader_def test_bytes_def test_body_def length_buffs)
  note a0 = this and a1 = wu16.ahead_enc [OF this]
  note a2 = wu16.ahead_enc [OF a1]
  note a3 = wu64.ahead_enc [OF a2]
  note a4 = wu32.ahead_enc [OF a3]
  note a5 = wu16.ahead_enc [OF a4]
  note a6 = wu16.ahead_enc [OF a5]
  have "unat (of_nat (length buffs) :: u16) = length buffs" using assms by (simp add: unat_of_nat)
  then show ?thesis
    by (simp add: read_test_def wu16.br_shift_enc [OF a0] wu16.br_shift_enc [OF a1] wu64.br_shift_enc [OF a2]
        wu32.br_shift_enc [OF a3] wu16.br_shift_enc [OF a4] wu16.br_shift_enc [OF a5] read_buffs_bytes [OF a6])
qed

lemma send_test_ok:
  assumes "send_test m = Inr w"
  shows "well_framed w \<and> read_test w = Inr m"
proof -
  obtain i h a bs where m: "m = (i, h, a, bs)" by (cases m)
  then have "length bs \<le> 339" "w = test_bytes i h a bs"
    using assms by (auto simp: send_test_def Make_S_TEST_eq split: if_splits)
  then show ?thesis by (simp add: m test_bytes_framed read_test_bytes)
qed

section \<open>Properties\<close>

text \<open>
  C29: Test messages sent over a TCP connection, each with at most 339 buffs, arrive as the messages that
  were sent, one packet each and in order, however the stream is cut into receives; a message with
  more buffs is built by writing past the end of its 4096-byte buffer.
\<close>

theorem test_messages_end_to_end:
  assumes "map send_test ms = map Inr ws" and "concat bss = concat ws"
    and "\<forall>bs \<in> set bss. bs \<noteq> [] \<and> length bs \<le> 0x10000" and "\<not> failed (os_recv os)"
  shows "(\<exists>s. receive_all os bss (Session_ProcessConnect os new_session) = Some (Inr s) \<and>
      map read_test (ss_packets s) = map Inr ms) \<and>
    (\<forall>objectId hp attack buffs. 339 < length buffs \<longrightarrow> send_test (objectId, hp, attack, buffs) = Inl OutOfBounds)"
proof
  have l: "length ms = length ws" using assms(1) by (rule map_eq_imp_length_eq)
  have e: "send_test (ms ! i) = Inr (ws ! i)" if "i < length ws" for i
    using arg_cong [OF assms(1), of "\<lambda>xs. xs ! i"] that l by simp
  have ok: "well_framed (ws ! i) \<and> read_test (ws ! i) = Inr (ms ! i)" if "i < length ws" for i
    using send_test_ok [OF e [OF that]] .
  then have "\<forall>p \<in> set ws. well_framed p" by (auto simp: in_set_conv_nth)
  from frames_well_framed [OF this, of "[]"] have "frames (concat bss) = (ws, [])"
    by (simp add: assms(2) frames_end)
  moreover have "\<not> stuck []" "snd (frames []) = []" by (simp_all add: stuck_def frames_end)
  ultimately obtain s where "receive_all os bss (Session_ProcessConnect os new_session) = Some (Inr s)" "ss_packets s = ws"
    using receive_all_eq [OF _ assms(3,4), of "Session_ProcessConnect os new_session" ws "[]"] connected_ready [OF assms(4)]
    by auto
  moreover have "map read_test ws = map Inr ms" using ok l by (auto intro!: nth_equalityI)
  ultimately show "\<exists>s. receive_all os bss (Session_ProcessConnect os new_session) = Some (Inr s) \<and>
      map read_test (ss_packets s) = map Inr ms" by blast
  show "\<forall>objectId hp attack buffs. 339 < length buffs \<longrightarrow> send_test (objectId, hp, attack, buffs) = Inl OutOfBounds"
    by (simp add: send_test_def Make_S_TEST_eq)
qed

theorem test_messages_end_to_end_witness:
  "\<exists>s. receive_all calm [take 7 (test_bytes 5 100 7 []), drop 7 (test_bytes 5 100 7 [])]
     (Session_ProcessConnect calm new_session) = Some (Inr s) \<and> map read_test (ss_packets s) = [Inr (5, 100, 7, [])]"
proof -
  let ?w = "test_bytes 5 100 7 []"
  have l: "length ?w = 20" by (simp add: test_bytes_def length_test_body)
  have n: "take 7 ?w \<noteq> []" "drop 7 ?w \<noteq> []"
    using arg_cong [of "take 7 ?w" "[]" length] arg_cong [of "drop 7 ?w" "[]" length] l by auto
  have "map send_test [(5, 100, 7, [])] = map Inr [?w]" by (simp add: send_test_def Make_S_TEST_eq)
  then show ?thesis
    using test_messages_end_to_end [of "[(5, 100, 7, [])]" "[?w]" "[take 7 ?w, drop 7 ?w]" calm] n l
    by (simp add: calm_def)
qed

end
