(* ===== verification/Lock.thy ===== *)
theory Lock
  imports Prelude
begin

unbundle bit_operations_syntax

text \<open>
  \<^verbatim>\<open>ServerCore/Lock\<close>: the reader-writer spin lock. The upper half of the flag is the identifier of the
  thread that writes, the lower half counts the readers. \<open>try_WriteLock\<close> and \<open>try_ReadLock\<close> are one
  turn of the two functions: the reentrant case, or one \<^verbatim>\<open>compare_exchange\<close>; a turn that gives False
  changes nothing, and after ten seconds of such turns the caller crashes. A turn of \<^verbatim>\<open>ReadLock\<close> loads
  the flag and then exchanges it, in two atomic operations between which other threads act: \<open>loaded\<close> is
  what the load gave, and \<open>l\<close> is the lock at the exchange.
\<close>

record lock =
  lk_lockFlag :: u32
  lk_writeCount :: u16

definition WRITE_THREAD_MASK :: u32 where "WRITE_THREAD_MASK = 0xFFFF0000"
definition READ_COUNT_MASK :: u32 where "READ_COUNT_MASK = 0x0000FFFF"
definition EMPTY_FLAG :: u32 where "EMPTY_FLAG = 0"

definition new_lock :: lock where
  "new_lock = \<lparr>lk_lockFlag = EMPTY_FLAG, lk_writeCount = 0\<rparr>"

definition lock_owner :: "lock \<Rightarrow> u32" where
  "lock_owner l = drop_bit 16 (lk_lockFlag l AND WRITE_THREAD_MASK)"

definition try_WriteLock :: "u32 \<Rightarrow> lock \<Rightarrow> bool \<times> lock" where
  "try_WriteLock threadId l =
     (if lock_owner l = threadId then (True, l\<lparr>lk_writeCount := lk_writeCount l + 1\<rparr>)
      else if lk_lockFlag l = EMPTY_FLAG
      then (True, l\<lparr>lk_lockFlag := push_bit 16 threadId AND WRITE_THREAD_MASK,
                    lk_writeCount := lk_writeCount l + 1\<rparr>)
      else (False, l))"

definition WriteUnlock :: "lock \<Rightarrow> lock result" where
  "WriteUnlock l =
     (if lk_lockFlag l AND READ_COUNT_MASK \<noteq> 0 then Inl (Crash ''INVALID_UNLOCK_ORDER'')
      else let count = lk_writeCount l - 1
        in Inr (if count = 0 then l\<lparr>lk_writeCount := count, lk_lockFlag := EMPTY_FLAG\<rparr>
                else l\<lparr>lk_writeCount := count\<rparr>))"

definition try_ReadLock :: "u32 \<Rightarrow> u32 \<Rightarrow> lock \<Rightarrow> bool \<times> lock" where
  "try_ReadLock threadId loaded l =
     (if lock_owner l = threadId then (True, l\<lparr>lk_lockFlag := lk_lockFlag l + 1\<rparr>)
      else let expected = loaded AND READ_COUNT_MASK
        in if lk_lockFlag l = expected then (True, l\<lparr>lk_lockFlag := expected + 1\<rparr>) else (False, l))"

definition ReadUnlock :: "lock \<Rightarrow> lock result" where
  "ReadUnlock l =
     (if lk_lockFlag l AND READ_COUNT_MASK = 0 then Inl (Crash ''MULTIPLE_UNLOCK'')
      else Inr (l\<lparr>lk_lockFlag := lk_lockFlag l - 1\<rparr>))"

section \<open>Threads that use a lock\<close>

text \<open>
  Lock guards nest, and the header allows a thread to read while it writes but not to write while
  it only reads: a thread first holds \<open>g_writes\<close> write guards, then \<open>g_reads\<close> read guards inside them.
  The flag that a reader loaded before its exchange may be of any age, so the step takes any value.
\<close>

record guards =
  g_writes :: nat
  g_reads :: nat

record lock_system =
  ls_lock :: lock
  ls_held :: "u32 \<Rightarrow> guards"

definition no_guards :: guards where "no_guards = \<lparr>g_writes = 0, g_reads = 0\<rparr>"

definition lock_start :: lock_system where
  "lock_start = \<lparr>ls_lock = new_lock, ls_held = (\<lambda>_. no_guards)\<rparr>"

inductive lock_step :: "u32 set \<Rightarrow> nat \<Rightarrow> lock_system \<Rightarrow> lock_system \<Rightarrow> bool" for T depth where
  write_lock: "t \<in> T \<Longrightarrow> g_reads (h t) = 0 \<Longrightarrow> g_writes (h t) < depth \<Longrightarrow> try_WriteLock t l = (True, l') \<Longrightarrow>
    lock_step T depth \<lparr>ls_lock = l, ls_held = h\<rparr>
      \<lparr>ls_lock = l', ls_held = h(t := (h t)\<lparr>g_writes := Suc (g_writes (h t))\<rparr>)\<rparr>"
| read_lock: "t \<in> T \<Longrightarrow> g_reads (h t) < depth \<Longrightarrow> try_ReadLock t loaded l = (True, l') \<Longrightarrow>
    lock_step T depth \<lparr>ls_lock = l, ls_held = h\<rparr>
      \<lparr>ls_lock = l', ls_held = h(t := (h t)\<lparr>g_reads := Suc (g_reads (h t))\<rparr>)\<rparr>"
| write_unlock: "t \<in> T \<Longrightarrow> g_reads (h t) = 0 \<Longrightarrow> g_writes (h t) = Suc k \<Longrightarrow> WriteUnlock l = Inr l' \<Longrightarrow>
    lock_step T depth \<lparr>ls_lock = l, ls_held = h\<rparr> \<lparr>ls_lock = l', ls_held = h(t := (h t)\<lparr>g_writes := k\<rparr>)\<rparr>"
| read_unlock: "t \<in> T \<Longrightarrow> g_reads (h t) = Suc k \<Longrightarrow> ReadUnlock l = Inr l' \<Longrightarrow>
    lock_step T depth \<lparr>ls_lock = l, ls_held = h\<rparr> \<lparr>ls_lock = l', ls_held = h(t := (h t)\<lparr>g_reads := k\<rparr>)\<rparr>"

inductive lock_run :: "u32 set \<Rightarrow> nat \<Rightarrow> lock_system \<Rightarrow> bool" for T depth where
  run_start: "lock_run T depth lock_start"
| run_next: "lock_run T depth s \<Longrightarrow> lock_step T depth s s' \<Longrightarrow> lock_run T depth s'"

text \<open>The threads have identifiers of 16 bits, and their guards fit the two counters.\<close>

definition small_threads :: "u32 set \<Rightarrow> nat \<Rightarrow> bool" where
  "small_threads T depth \<longleftrightarrow> finite T \<and> (\<forall>t \<in> T. 0 < unat t \<and> unat t < 2 ^ 16) \<and> card T * depth < 2 ^ 16 \<and> depth < 2 ^ 16"

definition reads :: "u32 set \<Rightarrow> (u32 \<Rightarrow> guards) \<Rightarrow> nat" where
  "reads T h = (\<Sum>t\<in>T. g_reads (h t))"

definition flag_of :: "u32 \<Rightarrow> nat \<Rightarrow> u32" where
  "flag_of owner n = of_nat (unat owner * 2 ^ 16 + n)"

definition lock_ok :: "u32 set \<Rightarrow> nat \<Rightarrow> lock_system \<Rightarrow> bool" where
  "lock_ok T depth s \<longleftrightarrow>
     (\<forall>t. g_reads (ls_held s t) \<le> depth \<and> g_writes (ls_held s t) \<le> depth \<and> (t \<notin> T \<longrightarrow> ls_held s t = no_guards)) \<and>
     ((\<forall>t. g_writes (ls_held s t) = 0) \<and> ls_lock s = \<lparr>lk_lockFlag = flag_of 0 (reads T (ls_held s)), lk_writeCount = 0\<rparr> \<or>
      (\<exists>t \<in> T. 0 < g_writes (ls_held s t) \<and> (\<forall>u. u \<noteq> t \<longrightarrow> ls_held s u = no_guards) \<and>
         ls_lock s = \<lparr>lk_lockFlag = flag_of t (reads T (ls_held s)), lk_writeCount = of_nat (g_writes (ls_held s t))\<rparr>))"

lemma unat_flag_of: "unat t < 2 ^ 16 \<Longrightarrow> n < 2 ^ 16 \<Longrightarrow> unat (flag_of t n) = unat t * 2 ^ 16 + n"
  unfolding flag_of_def by (subst unat_of_nat_u32) simp_all

lemma unat_and_low: "unat (w AND READ_COUNT_MASK :: u32) = unat w mod 2 ^ 16"
proof -
  have "w AND READ_COUNT_MASK = take_bit 16 w"
    unfolding take_bit_eq_mask READ_COUNT_MASK_def by (simp add: mask_eq_exp_minus_1)
  then have "unat (w AND READ_COUNT_MASK) = take_bit 16 (unat w)" by (simp only: unsigned_take_bit_eq)
  then show ?thesis by (simp add: take_bit_eq_mod)
qed

lemma unat_owner: "unat (lock_owner l) = unat (lk_lockFlag l) div 2 ^ 16"
proof -
  have "lock_owner l = take_bit 16 (drop_bit 16 (lk_lockFlag l))"
    unfolding lock_owner_def take_bit_eq_mask by (simp add: mask_eq_exp_minus_1 WRITE_THREAD_MASK_def drop_bit_and)
  moreover have "take_bit 32 (unat (lk_lockFlag l)) = unat (lk_lockFlag l)"
    using unsigned_less [of "lk_lockFlag l", where ?'a = nat] by (intro take_bit_nat_eq_self) simp
  ultimately have "unat (lock_owner l) = take_bit 16 (drop_bit 16 (unat (lk_lockFlag l)))"
    by (simp only: unsigned_take_bit_eq unsigned_drop_bit_eq) simp
  moreover have "unat (lk_lockFlag l) div 2 ^ 16 < 2 ^ 16"
    using unsigned_less [of "lk_lockFlag l", where ?'a = nat] by (simp add: less_mult_imp_div_less)
  ultimately show ?thesis
    by (simp add: take_bit_eq_mod drop_bit_eq_div)
qed

lemma flag_parts:
  assumes "unat t < 2 ^ 16" "n < 2 ^ 16" "lk_lockFlag l = flag_of t n"
  shows "lock_owner l = t" "lk_lockFlag l AND READ_COUNT_MASK = of_nat n" "lk_lockFlag l = 0 \<longleftrightarrow> t = 0 \<and> n = 0"
proof -
  note f = unat_flag_of [OF assms(1,2)]
  have "unat (lock_owner l) = unat t" unfolding unat_owner assms(3) f using assms(2) by simp
  then show "lock_owner l = t" by (simp add: word_unat_eq_iff)
  have "unat (lk_lockFlag l AND READ_COUNT_MASK) = unat (of_nat n :: u32)"
    unfolding unat_and_low assms(3) f using assms(2) by (simp add: unat_of_nat_u32)
  then show "lk_lockFlag l AND READ_COUNT_MASK = of_nat n" by (simp add: word_unat_eq_iff)
  have "lk_lockFlag l = 0 \<longleftrightarrow> unat (flag_of t n) = 0" unfolding assms(3) by (simp add: unat_eq_0)
  then show "lk_lockFlag l = 0 \<longleftrightarrow> t = 0 \<and> n = 0" unfolding f by (simp add: unat_eq_0)
qed

lemma push_owner: "unat t < 2 ^ 16 \<Longrightarrow> push_bit 16 t AND WRITE_THREAD_MASK = flag_of t 0"
proof -
  assume t: "unat t < 2 ^ 16"
  have "unat (t AND READ_COUNT_MASK) = unat t" using t by (simp add: unat_and_low)
  then have "t AND READ_COUNT_MASK = t" by (simp only: word_unat_eq_iff)
  moreover have "WRITE_THREAD_MASK = push_bit 16 READ_COUNT_MASK"
    by (simp add: WRITE_THREAD_MASK_def READ_COUNT_MASK_def)
  ultimately have "push_bit 16 t AND WRITE_THREAD_MASK = push_bit 16 t" by (metis push_bit_and)
  also have "unat \<dots> = unat (flag_of t 0)"
    using t unat_flag_of [OF t, of 0] by (simp add: push_bit_eq_mult unat_word_ariths(2))
  finally show ?thesis by (simp add: word_unat_eq_iff)
qed

lemma flag_of_Suc: "flag_of t n + 1 = flag_of t (Suc n)" "flag_of t (Suc n) - 1 = flag_of t n"
  by (simp_all add: flag_of_def)


section \<open>The invariant\<close>

lemma reads_upd:
  assumes "finite T" "t \<in> T"
  shows "reads T (h(t := g)) + g_reads (h t) = reads T h + g_reads g"
proof -
  have "reads T h = g_reads (h t) + reads (T - {t}) h" for h
    using assms by (simp add: reads_def sum.remove)
  moreover have "reads (T - {t}) (h(t := g)) = reads (T - {t}) h"
    unfolding reads_def by (intro sum.cong) auto
  ultimately show ?thesis by simp
qed

lemma reads_bound:
  assumes "small_threads T depth" "\<forall>t. g_reads (h t) \<le> depth"
  shows "reads T h < 2 ^ 16"
proof -
  have "reads T h \<le> card T * depth"
    unfolding reads_def using assms by (intro sum_bounded_above [THEN order_trans]) auto
  then show ?thesis using assms(1) by (simp add: small_threads_def)
qed

lemma lock_ok_start: "lock_ok T depth lock_start"
  by (simp add: lock_ok_def lock_start_def new_lock_def no_guards_def flag_of_def reads_def EMPTY_FLAG_def)


lemma flag_of_reads: "n < 2 ^ 16 \<Longrightarrow> flag_of t n = of_nat n \<longleftrightarrow> t = 0"
  if "unat t < 2 ^ 16" for t
proof -
  assume n: "n < 2 ^ 16"
  have "flag_of t n = of_nat n \<longleftrightarrow> unat (flag_of t n) = n"
    using n by (simp add: word_unat_eq_iff unat_of_nat_u32)
  then show ?thesis by (simp add: unat_flag_of [OF that n] unat_eq_0)
qed

lemma of_nat_pos: "0 < n \<Longrightarrow> n < 2 ^ 16 \<Longrightarrow> (of_nat n :: u32) \<noteq> 0"
  by (simp only: word_unat_eq_iff unat_of_nat_u32) (simp add: unat_of_nat)

lemma turns_free:
  assumes "unat t < 2 ^ 16" "t \<noteq> 0" "n < 2 ^ 16" "l = \<lparr>lk_lockFlag = flag_of 0 n, lk_writeCount = 0\<rparr>"
  shows "try_WriteLock t l = (if n = 0 then (True, \<lparr>lk_lockFlag = flag_of t 0, lk_writeCount = 1\<rparr>) else (False, l))"
    and "try_ReadLock t loaded l =
      (if loaded AND READ_COUNT_MASK = of_nat n then (True, \<lparr>lk_lockFlag = flag_of 0 (Suc n), lk_writeCount = 0\<rparr>) else (False, l))"
    and "n = Suc k \<Longrightarrow> ReadUnlock l = Inr \<lparr>lk_lockFlag = flag_of 0 k, lk_writeCount = 0\<rparr>"
proof -
  have f: "lk_lockFlag l = flag_of 0 n" using assms(4) by simp
  note p = flag_parts [OF _ assms(3) f] flag_of_reads [OF _ assms(3), of 0]
  show "try_WriteLock t l = (if n = 0 then (True, \<lparr>lk_lockFlag = flag_of t 0, lk_writeCount = 1\<rparr>) else (False, l))"
    using p assms(1,2,4) by (simp add: try_WriteLock_def EMPTY_FLAG_def push_owner)
  show "try_ReadLock t loaded l =
      (if loaded AND READ_COUNT_MASK = of_nat n then (True, \<lparr>lk_lockFlag = flag_of 0 (Suc n), lk_writeCount = 0\<rparr>) else (False, l))"
    using p assms(1,2,4) by (auto simp: try_ReadLock_def flag_of_def)
  show "n = Suc k \<Longrightarrow> ReadUnlock l = Inr \<lparr>lk_lockFlag = flag_of 0 k, lk_writeCount = 0\<rparr>"
    using p(2) of_nat_pos [of n] assms(3,4) by (auto simp: ReadUnlock_def flag_of_Suc simp del: of_nat_Suc)
qed

text \<open>While a thread writes, the flag is no reader count, whatever a reader loaded before.\<close>

lemma flag_of_not_count:
  assumes "unat t < 2 ^ 16" "t \<noteq> 0" "n < 2 ^ 16"
  shows "flag_of t n \<noteq> loaded AND READ_COUNT_MASK"
proof
  assume "flag_of t n = loaded AND READ_COUNT_MASK"
  then have "unat (flag_of t n) < 2 ^ 16" by (simp add: unat_and_low)
  then have "unat t = 0" using unat_flag_of [OF assms(1,3)] by simp
  then show False using assms(2) by (simp add: unat_eq_0)
qed

lemma turns_owned:
  assumes "unat t < 2 ^ 16" "t \<noteq> 0" "n < 2 ^ 16" "l = \<lparr>lk_lockFlag = flag_of t n, lk_writeCount = of_nat k\<rparr>"
  shows "try_WriteLock u l = (if u = t then (True, \<lparr>lk_lockFlag = flag_of t n, lk_writeCount = of_nat (Suc k)\<rparr>) else (False, l))"
    and "try_ReadLock u loaded l = (if u = t then (True, \<lparr>lk_lockFlag = flag_of t (Suc n), lk_writeCount = of_nat k\<rparr>) else (False, l))"
    and "n = Suc m \<Longrightarrow> ReadUnlock l = Inr \<lparr>lk_lockFlag = flag_of t m, lk_writeCount = of_nat k\<rparr>"
    and "n = 0 \<Longrightarrow> k = Suc j \<Longrightarrow> k < 2 ^ 16 \<Longrightarrow>
      WriteUnlock l = Inr (if j = 0 then new_lock else \<lparr>lk_lockFlag = flag_of t 0, lk_writeCount = of_nat j\<rparr>)"
proof -
  have f: "lk_lockFlag l = flag_of t n" using assms(4) by simp
  note p = flag_parts [OF assms(1,3) f] flag_of_reads [OF assms(1,3)]
  show "try_WriteLock u l = (if u = t then (True, \<lparr>lk_lockFlag = flag_of t n, lk_writeCount = of_nat (Suc k)\<rparr>) else (False, l))"
    using p assms(2,4) by (simp add: try_WriteLock_def EMPTY_FLAG_def add.commute)
  show "try_ReadLock u loaded l = (if u = t then (True, \<lparr>lk_lockFlag = flag_of t (Suc n), lk_writeCount = of_nat k\<rparr>) else (False, l))"
    using p assms(2,4) flag_of_not_count [OF assms(1-3)] by (simp add: try_ReadLock_def flip: flag_of_Suc(1))
  show "n = Suc m \<Longrightarrow> ReadUnlock l = Inr \<lparr>lk_lockFlag = flag_of t m, lk_writeCount = of_nat k\<rparr>"
    using p(2) of_nat_pos [of n] assms(3,4) by (auto simp: ReadUnlock_def flag_of_Suc simp del: of_nat_Suc)
  show "WriteUnlock l = Inr (if j = 0 then new_lock else \<lparr>lk_lockFlag = flag_of t 0, lk_writeCount = of_nat j\<rparr>)"
    if "n = 0" "k = Suc j" "k < 2 ^ 16"
  proof -
    have "(of_nat j :: u16) = 0 \<longleftrightarrow> j = 0" using that by (simp add: word_unat_eq_iff unat_of_nat)
    then show ?thesis
      using p(2) that assms(4) by (simp add: WriteUnlock_def Let_def new_lock_def)
  qed
qed


lemma no_guards_iff: "g = no_guards \<longleftrightarrow> g_writes g = 0 \<and> g_reads g = 0"
  by (cases g) (simp add: no_guards_def)

definition bounded_guards :: "u32 set \<Rightarrow> nat \<Rightarrow> (u32 \<Rightarrow> guards) \<Rightarrow> bool" where
  "bounded_guards T depth h \<longleftrightarrow>
     (\<forall>t. g_reads (h t) \<le> depth \<and> g_writes (h t) \<le> depth \<and> (t \<notin> T \<longrightarrow> h t = no_guards))"

lemma lock_ok_cases [consumes 1, case_names free owned]:
  assumes "lock_ok T depth \<lparr>ls_lock = l, ls_held = h\<rparr>"
  obtains "bounded_guards T depth h" "\<forall>t. g_writes (h t) = 0" "l = \<lparr>lk_lockFlag = flag_of 0 (reads T h), lk_writeCount = 0\<rparr>"
  | t where "bounded_guards T depth h" "t \<in> T" "0 < g_writes (h t)" "\<forall>u. u \<noteq> t \<longrightarrow> h u = no_guards"
      "l = \<lparr>lk_lockFlag = flag_of t (reads T h), lk_writeCount = of_nat (g_writes (h t))\<rparr>"
  using assms by (auto simp: lock_ok_def bounded_guards_def)

lemma lock_ok_free:
  "bounded_guards T depth h \<Longrightarrow> \<forall>t. g_writes (h t) = 0 \<Longrightarrow> n = reads T h \<Longrightarrow>
   lock_ok T depth \<lparr>ls_lock = \<lparr>lk_lockFlag = flag_of 0 n, lk_writeCount = 0\<rparr>, ls_held = h\<rparr>"
  by (simp add: lock_ok_def bounded_guards_def)

lemma lock_ok_owned:
  "bounded_guards T depth h \<Longrightarrow> t \<in> T \<Longrightarrow> 0 < g_writes (h t) \<Longrightarrow> \<forall>u. u \<noteq> t \<longrightarrow> h u = no_guards \<Longrightarrow>
   n = reads T h \<Longrightarrow> k = g_writes (h t) \<Longrightarrow>
   lock_ok T depth \<lparr>ls_lock = \<lparr>lk_lockFlag = flag_of t n, lk_writeCount = of_nat k\<rparr>, ls_held = h\<rparr>"
  by (auto simp: lock_ok_def bounded_guards_def)

lemma thread_id: "small_threads T depth \<Longrightarrow> t \<in> T \<Longrightarrow> unat t < 2 ^ 16 \<and> t \<noteq> 0"
  by (auto simp: small_threads_def)

lemma bounded_upd:
  "bounded_guards T depth h \<Longrightarrow> t \<in> T \<Longrightarrow> g_reads g \<le> depth \<Longrightarrow> g_writes g \<le> depth \<Longrightarrow>
   bounded_guards T depth (h(t := g))"
  by (simp add: bounded_guards_def)

lemma reads_small: "small_threads T depth \<Longrightarrow> bounded_guards T depth h \<Longrightarrow> reads T h < 2 ^ 16"
  by (rule reads_bound) (auto simp: bounded_guards_def)

lemma reads_only:
  assumes "finite T" "t \<in> T" "\<forall>u. u \<noteq> t \<longrightarrow> h u = no_guards"
  shows "reads T h = g_reads (h t)"
proof -
  have "(\<Sum>u\<in>T - {t}. g_reads (h u)) = 0" using assms(3) by (intro sum.neutral) (simp add: no_guards_def)
  then show ?thesis using assms(1,2) by (simp add: reads_def sum.remove [of T t])
qed

lemma lock_ok_write:
  assumes small: "small_threads T depth" and ok: "lock_ok T depth \<lparr>ls_lock = l, ls_held = h\<rparr>"
    and t: "t \<in> T" "g_reads (h t) = 0" "g_writes (h t) < depth" and turn: "try_WriteLock t l = (True, l')"
  shows "lock_ok T depth \<lparr>ls_lock = l', ls_held = h(t := (h t)\<lparr>g_writes := Suc (g_writes (h t))\<rparr>)\<rparr>"
  using ok
proof (cases rule: lock_ok_cases)
  case free
  note f = turns_free(1) [OF _ _ reads_small [OF small free(1)] free(3), of t]
  then have n: "reads T h = 0" and l': "l' = \<lparr>lk_lockFlag = flag_of t 0, lk_writeCount = of_nat 1\<rparr>"
    using turn thread_id [OF small t(1)] by (auto split: if_splits)
  have "finite T" using small by (simp add: small_threads_def)
  with n have "\<forall>u \<in> T. g_reads (h u) = 0" by (simp add: reads_def)
  then have others: "h u = no_guards" for u
    using free by (cases "u \<in> T") (simp_all add: no_guards_iff bounded_guards_def)
  show ?thesis
    unfolding l' using free(1) t \<open>finite T\<close> others
    by (intro lock_ok_owned bounded_upd) (simp_all add: reads_only [of T t] no_guards_def)
next
  case (owned u)
  note f = turns_owned(1) [OF _ _ reads_small [OF small owned(1)] owned(5), of t]
  then have u: "t = u" and l': "l' = \<lparr>lk_lockFlag = flag_of u (reads T h), lk_writeCount = of_nat (Suc (g_writes (h u)))\<rparr>"
    using turn thread_id [OF small owned(2)] by (auto split: if_splits simp del: of_nat_Suc)
  have "finite T" using small by (simp add: small_threads_def)
  then show ?thesis
    unfolding l' u using owned t u
    by (intro lock_ok_owned bounded_upd) (simp_all add: reads_only [of T u] bounded_guards_def)
qed

lemma lock_ok_read:
  assumes small: "small_threads T depth" and ok: "lock_ok T depth \<lparr>ls_lock = l, ls_held = h\<rparr>"
    and t: "t \<in> T" "g_reads (h t) < depth" and turn: "try_ReadLock t loaded l = (True, l')"
  shows "lock_ok T depth \<lparr>ls_lock = l', ls_held = h(t := (h t)\<lparr>g_reads := Suc (g_reads (h t))\<rparr>)\<rparr>"
proof -
  let ?g = "(h t)\<lparr>g_reads := Suc (g_reads (h t))\<rparr>"
  have "finite T" using small by (simp add: small_threads_def)
  from reads_upd [OF this t(1), of h ?g] have r: "Suc (reads T h) = reads T (h(t := ?g))" by simp
  show ?thesis
    using ok
  proof (cases rule: lock_ok_cases)
    case free
    from turns_free(2) [OF _ _ reads_small [OF small free(1)] free(3), of t loaded]
    have l': "l' = \<lparr>lk_lockFlag = flag_of 0 (Suc (reads T h)), lk_writeCount = 0\<rparr>"
      using turn thread_id [OF small t(1)] by (simp split: if_splits)
    show ?thesis
      unfolding l' using free t r by (intro lock_ok_free bounded_upd) (auto simp: bounded_guards_def)
  next
    case (owned u)
    from turns_owned(2) [OF _ _ reads_small [OF small owned(1)] owned(5), of t loaded]
    have u: "t = u" and l': "l' = \<lparr>lk_lockFlag = flag_of u (Suc (reads T h)), lk_writeCount = of_nat (g_writes (h u))\<rparr>"
      using turn thread_id [OF small owned(2)] by (auto split: if_splits)
    show ?thesis
      unfolding l' using owned t r u by (intro lock_ok_owned bounded_upd) (auto simp: bounded_guards_def)
  qed
qed

lemma lock_ok_write_unlock:
  assumes small: "small_threads T depth" and ok: "lock_ok T depth \<lparr>ls_lock = l, ls_held = h\<rparr>"
    and t: "t \<in> T" "g_reads (h t) = 0" "g_writes (h t) = Suc k"
  shows "\<exists>l'. WriteUnlock l = Inr l' \<and> lock_ok T depth \<lparr>ls_lock = l', ls_held = h(t := (h t)\<lparr>g_writes := k\<rparr>)\<rparr>"
  using ok
proof (cases rule: lock_ok_cases)
  case free
  with t show ?thesis by simp
next
  case (owned u)
  have fin: "finite T" using small by (simp add: small_threads_def)
  have u: "u = t" using owned t by (metis no_guards_iff nat.distinct(1))
  have n: "reads T h = 0" using reads_only [OF fin owned(2,4)] t(2) u by simp
  have "g_writes (h u) < 2 ^ 16" using owned(1) small by (auto simp: bounded_guards_def small_threads_def intro: le_less_trans)
  with turns_owned(4) [OF _ _ reads_small [OF small owned(1)] owned(5) n, of k] thread_id [OF small owned(2)] t(3) u
  have un: "WriteUnlock l = Inr (if k = 0 then new_lock else \<lparr>lk_lockFlag = flag_of t 0, lk_writeCount = of_nat k\<rparr>)" by simp
  let ?h = "h(t := (h t)\<lparr>g_writes := k\<rparr>)"
  have b: "bounded_guards T depth ?h"
    using owned(1) t by (intro bounded_upd) (auto simp: bounded_guards_def dest!: spec [of _ t])
  have r: "reads T ?h = 0" using fin t owned(4) u by (simp add: reads_only [of T t])
  show ?thesis
  proof (cases "k = 0")
    case True
    have "lock_ok T depth \<lparr>ls_lock = \<lparr>lk_lockFlag = flag_of 0 0, lk_writeCount = 0\<rparr>, ls_held = ?h\<rparr>"
      using b r True owned(4) u by (intro lock_ok_free) (auto simp: no_guards_def)
    with True un show ?thesis by (simp add: new_lock_def EMPTY_FLAG_def flag_of_def)
  next
    case False
    have "lock_ok T depth \<lparr>ls_lock = \<lparr>lk_lockFlag = flag_of t 0, lk_writeCount = of_nat k\<rparr>, ls_held = ?h\<rparr>"
      using b r False owned(4) u t by (intro lock_ok_owned) auto
    with False un show ?thesis by simp
  qed
qed

lemma lock_ok_read_unlock:
  assumes small: "small_threads T depth" and ok: "lock_ok T depth \<lparr>ls_lock = l, ls_held = h\<rparr>"
    and t: "t \<in> T" "g_reads (h t) = Suc k"
  shows "\<exists>l'. ReadUnlock l = Inr l' \<and> lock_ok T depth \<lparr>ls_lock = l', ls_held = h(t := (h t)\<lparr>g_reads := k\<rparr>)\<rparr>"
proof -
  let ?h = "h(t := (h t)\<lparr>g_reads := k\<rparr>)"
  have "finite T" using small by (simp add: small_threads_def)
  from reads_upd [OF this t(1), of h "(h t)\<lparr>g_reads := k\<rparr>"] t(2) have r: "reads T h = Suc (reads T ?h)" by simp
  show ?thesis
    using ok
  proof (cases rule: lock_ok_cases)
    case free
    from turns_free(3) [OF _ _ reads_small [OF small free(1)] free(3), of t, OF _ _ r] thread_id [OF small t(1)]
    have un: "ReadUnlock l = Inr \<lparr>lk_lockFlag = flag_of 0 (reads T ?h), lk_writeCount = 0\<rparr>" by simp
    have "lock_ok T depth \<lparr>ls_lock = \<lparr>lk_lockFlag = flag_of 0 (reads T ?h), lk_writeCount = 0\<rparr>, ls_held = ?h\<rparr>"
      using free t by (intro lock_ok_free bounded_upd) (auto simp: bounded_guards_def dest!: spec [of _ t])
    with un show ?thesis by blast
  next
    case (owned u)
    have u: "u = t" using owned t by (metis no_guards_iff nat.distinct(1))
    from turns_owned(3) [OF _ _ reads_small [OF small owned(1)] owned(5) r] thread_id [OF small owned(2)]
    have un: "ReadUnlock l = Inr \<lparr>lk_lockFlag = flag_of u (reads T ?h), lk_writeCount = of_nat (g_writes (h u))\<rparr>" by simp
    have "lock_ok T depth \<lparr>ls_lock = \<lparr>lk_lockFlag = flag_of u (reads T ?h), lk_writeCount = of_nat (g_writes (h u))\<rparr>, ls_held = ?h\<rparr>"
      using owned t u by (intro lock_ok_owned bounded_upd) (auto simp: bounded_guards_def dest!: spec [of _ t])
    with un show ?thesis by blast
  qed
qed


lemma lock_ok_step:
  assumes "lock_step T depth s s'" and "small_threads T depth" and "lock_ok T depth s"
  shows "lock_ok T depth s'"
  using assms
proof cases
  case (write_unlock t h k l l')
  with lock_ok_write_unlock [OF assms(2), of l h t k] assms(3) show ?thesis by auto
next
  case (read_unlock t h k l l')
  with lock_ok_read_unlock [OF assms(2), of l h t k] assms(3) show ?thesis by auto
qed (auto simp: lock_ok_write lock_ok_read)

lemma lock_ok_run: "lock_run T depth s \<Longrightarrow> small_threads T depth \<Longrightarrow> lock_ok T depth s"
  by (induction rule: lock_run.induct) (auto intro: lock_ok_start lock_ok_step)

lemma lock_ok_excludes:
  assumes "lock_ok T depth s" and "0 < g_writes (ls_held s t)" and "u \<noteq> t"
  shows "ls_held s u = no_guards"
proof -
  obtain l h where s: "s = \<lparr>ls_lock = l, ls_held = h\<rparr>" by (cases s)
  from assms(1) [unfolded s] show ?thesis
  proof (cases rule: lock_ok_cases)
    case free
    with assms(2) show ?thesis by (simp add: s)
  next
    case (owned v)
    then have "v = t" using assms(2) by (auto simp: s no_guards_iff)
    with owned assms(3) show ?thesis by (simp add: s)
  qed
qed

section \<open>A short run\<close>

text \<open>Thread 1 of two writes.\<close>

definition demo_lock :: lock_system where
  "demo_lock = \<lparr>ls_lock = \<lparr>lk_lockFlag = 0x10000, lk_writeCount = 1\<rparr>,
     ls_held = (\<lambda>_. no_guards)(1 := \<lparr>g_writes = 1, g_reads = 0\<rparr>)\<rparr>"

lemma demo_lock_run: "lock_run {1, 2} 3 demo_lock" "small_threads {1, 2} 3"
proof -
  have "try_WriteLock 1 new_lock = (True, \<lparr>lk_lockFlag = 0x10000, lk_writeCount = 1\<rparr>)" by code_simp
  then have "lock_step {1, 2} 3 lock_start demo_lock"
    using write_lock [of 1 "{1, 2}" "\<lambda>_. no_guards" 3 new_lock]
    by (simp add: lock_start_def demo_lock_def no_guards_def)
  then show "lock_run {1, 2} 3 demo_lock" by (rule run_next [OF run_start])
  show "small_threads {1, 2} 3" by (simp add: small_threads_def)
qed

section \<open>Properties\<close>

text \<open>
  C17: With at most \<open>2 ^ 16 - 1\<close> guards that can be held at once and thread identifiers of 16 bits, a thread
  that holds a write guard excludes every guard of every other thread, in every interleaving.
\<close>

theorem lock_excludes:
  assumes "lock_run T depth s" and "small_threads T depth" and "0 < g_writes (ls_held s t)" and "u \<noteq> t"
  shows "ls_held s u = no_guards"
  using lock_ok_run [OF assms(1,2)] assms(3,4) by (rule lock_ok_excludes)

theorem lock_excludes_witness: "ls_held demo_lock 2 = no_guards"
  by (rule lock_excludes [OF demo_lock_run, of 1]) (simp_all add: demo_lock_def)

text \<open>
  A turn of \<^verbatim>\<open>WriteLock\<close> succeeds exactly for the thread that writes already and for anybody when no
  guard is held at all; a turn of \<^verbatim>\<open>ReadLock\<close> succeeds exactly when no other thread writes and, unless the
  thread writes itself, no other reader came or went between the load and the exchange. A thread that
  only reads therefore never gets a write guard.
\<close>

theorem lock_turns:
  assumes "lock_run T depth s" and "small_threads T depth" and "t \<in> T"
  shows "(fst (try_WriteLock t (ls_lock s)) \<longleftrightarrow>
      0 < g_writes (ls_held s t) \<or> (\<forall>u. ls_held s u = no_guards)) \<and>
    (fst (try_ReadLock t loaded (ls_lock s)) \<longleftrightarrow>
      (\<forall>u. u \<noteq> t \<longrightarrow> g_writes (ls_held s u) = 0) \<and>
      (0 < g_writes (ls_held s t) \<or> loaded AND READ_COUNT_MASK = lk_lockFlag (ls_lock s) AND READ_COUNT_MASK))"
proof -
  obtain l h where s: "s = \<lparr>ls_lock = l, ls_held = h\<rparr>" by (cases s)
  note t = thread_id [OF assms(2,3)]
  from lock_ok_run [OF assms(1,2), unfolded s] show ?thesis
  proof (cases rule: lock_ok_cases)
    case free
    note f = turns_free [OF _ _ reads_small [OF assms(2) free(1)] free(3), of t]
      flag_parts(2) [OF _ reads_small [OF assms(2) free(1)], of 0 l]
    have "finite T" using assms(2) by (simp add: small_threads_def)
    then have "reads T h = 0 \<longleftrightarrow> (\<forall>u. h u = no_guards)"
      using free by (auto simp: reads_def no_guards_iff bounded_guards_def)
    with f t free show ?thesis by (simp add: s)
  next
    case (owned u)
    note f = turns_owned(1,2) [OF _ _ reads_small [OF assms(2) owned(1)] owned(5), of t]
    have "h t \<noteq> no_guards \<longleftrightarrow> t = u" "h u \<noteq> no_guards" "0 < g_writes (h t) \<longleftrightarrow> t = u"
      using owned by (auto simp: no_guards_iff)
    moreover have "(\<forall>v. v \<noteq> t \<longrightarrow> g_writes (h v) = 0) \<longleftrightarrow> t = u"
      using owned by (auto simp: no_guards_iff)
    ultimately show ?thesis
      using f thread_id [OF assms(2) owned(2)] by (auto simp: s)
  qed
qed

theorem lock_turns_witness:
  "\<not> fst (try_WriteLock 2 (ls_lock demo_lock)) \<and> \<not> fst (try_ReadLock 2 0 (ls_lock demo_lock))"
  using lock_turns [OF demo_lock_run, of 2] by (auto simp: demo_lock_def no_guards_def dest: spec [of _ 1])

text \<open>
  Releasing guards in the order of their scopes never reaches one of the two crashes of the unlock
  functions.
\<close>

theorem unlock_never_crashes:
  assumes "lock_run T depth s" and "small_threads T depth" and "t \<in> T"
  shows "(0 < g_reads (ls_held s t) \<longrightarrow> (\<exists>l. ReadUnlock (ls_lock s) = Inr l)) \<and>
    (0 < g_writes (ls_held s t) \<and> g_reads (ls_held s t) = 0 \<longrightarrow> (\<exists>l. WriteUnlock (ls_lock s) = Inr l))"
proof -
  obtain l h where s: "s = \<lparr>ls_lock = l, ls_held = h\<rparr>" by (cases s)
  note ok = lock_ok_run [OF assms(1,2), unfolded s]
  show ?thesis
    using lock_ok_read_unlock [OF assms(2) ok assms(3)] lock_ok_write_unlock [OF assms(2) ok assms(3)]
    by (auto simp: s gr0_conv_Suc)
qed

theorem unlock_never_crashes_witness: "\<exists>l. WriteUnlock (ls_lock demo_lock) = Inr l"
  using unlock_never_crashes [OF demo_lock_run, of 1] by (simp add: demo_lock_def)

text \<open>
  The limits are needed: two threads whose identifiers agree in the lower 16 bits both write, and the
  reader after 65535 readers makes the lock look as if thread 1 wrote.
\<close>

theorem lock_counters_overflow:
  "fst (try_WriteLock 0x10001 new_lock) \<and> fst (try_WriteLock 1 (snd (try_WriteLock 0x10001 new_lock))) \<and>
   lock_owner (snd (try_ReadLock 2 0xFFFF \<lparr>lk_lockFlag = 0xFFFF, lk_writeCount = 0\<rparr>)) = 1"
  by code_simp

end
