(* ===== verification/Threads.thy ===== *)
theory Threads
  imports Lock
begin

text \<open>
  \<^verbatim>\<open>ServerCore/ThreadManager\<close>: the threads of the program and the identifiers they get, which the
  locks use to tell them apart. A launched thread runs \<^verbatim>\<open>InitTLS\<close> whenever the operating system first
  schedules it, so starting is a step of its own; until then its thread-local identifier is 0.
\<close>

datatype thread_status = Created | Running | Finished

record os_thread =
  th_status :: thread_status
  th_LThreadId :: u32

record thread_manager =
  tm_SThreadId :: u32
  tm_mainId :: u32
  tm_threads :: "os_thread list"

text \<open>\<^verbatim>\<open>fetch_add\<close> on the static counter.\<close>

definition InitTLS :: "thread_manager \<Rightarrow> u32 \<times> thread_manager" where
  "InitTLS m = (tm_SThreadId m, m\<lparr>tm_SThreadId := tm_SThreadId m + 1\<rparr>)"

definition ThreadManager :: thread_manager where
  "ThreadManager =
     (let (mainId, m) = InitTLS \<lparr>tm_SThreadId = 1, tm_mainId = 0, tm_threads = []\<rparr> in m\<lparr>tm_mainId := mainId\<rparr>)"

definition Launch :: "thread_manager \<Rightarrow> thread_manager" where
  "Launch m = m\<lparr>tm_threads := tm_threads m @ [\<lparr>th_status = Created, th_LThreadId = 0\<rparr>]\<rparr>"

text \<open>The beginning and the end of the function a thread runs; \<^verbatim>\<open>DestroyTLS\<close> does nothing.\<close>

definition thread_begin :: "nat \<Rightarrow> thread_manager \<Rightarrow> thread_manager" where
  "thread_begin i m =
     (let (threadId, m) = InitTLS m
      in m\<lparr>tm_threads := (tm_threads m)[i := \<lparr>th_status = Running, th_LThreadId = threadId\<rparr>]\<rparr>)"

definition thread_end :: "nat \<Rightarrow> thread_manager \<Rightarrow> thread_manager" where
  "thread_end i m = m\<lparr>tm_threads := (tm_threads m)[i := (tm_threads m ! i)\<lparr>th_status := Finished\<rparr>]\<rparr>"

text \<open>\<^verbatim>\<open>Join\<close> waits for every thread and forgets them: it returns only when all have finished.\<close>

definition Join :: "thread_manager \<Rightarrow> thread_manager option" where
  "Join m = (if \<forall>t \<in> set (tm_threads m). th_status t = Finished then Some (m\<lparr>tm_threads := []\<rparr>) else None)"

inductive thread_step :: "thread_manager \<Rightarrow> thread_manager \<Rightarrow> bool" where
  launched: "thread_step m (Launch m)"
| begun: "i < length (tm_threads m) \<Longrightarrow> th_status (tm_threads m ! i) = Created \<Longrightarrow> thread_step m (thread_begin i m)"
| ended: "i < length (tm_threads m) \<Longrightarrow> th_status (tm_threads m ! i) = Running \<Longrightarrow> thread_step m (thread_end i m)"
| joined: "Join m = Some m' \<Longrightarrow> thread_step m m'"

inductive thread_run :: "nat \<Rightarrow> thread_manager \<Rightarrow> bool" where
  thread_run_start: "thread_run 0 ThreadManager"
| thread_run_step: "thread_run n m \<Longrightarrow> thread_step m m' \<Longrightarrow> thread_run (Suc n) m'"

section \<open>Identifiers\<close>

definition initialised :: "thread_manager \<Rightarrow> nat \<Rightarrow> bool" where
  "initialised m i \<longleftrightarrow> i < length (tm_threads m) \<and> th_status (tm_threads m ! i) \<noteq> Created"

definition id_of :: "thread_manager \<Rightarrow> nat \<Rightarrow> u32" where
  "id_of m i = th_LThreadId (tm_threads m ! i)"

definition threads_ok :: "nat \<Rightarrow> thread_manager \<Rightarrow> bool" where
  "threads_ok n m \<longleftrightarrow> tm_mainId m = 1 \<and> 2 \<le> unat (tm_SThreadId m) \<and> unat (tm_SThreadId m) \<le> n + 2 \<and>
     (\<forall>i. initialised m i \<longrightarrow> 2 \<le> unat (id_of m i) \<and> unat (id_of m i) < unat (tm_SThreadId m)) \<and>
     (\<forall>i j. initialised m i \<longrightarrow> initialised m j \<longrightarrow> id_of m i = id_of m j \<longrightarrow> i = j)"

lemma threads_ok_start: "threads_ok 0 ThreadManager"
  by (simp add: threads_ok_def ThreadManager_def InitTLS_def initialised_def)

lemma unat_Suc_u32: "unat (w :: u32) < 2 ^ 32 - 1 \<Longrightarrow> unat (w + 1) = unat w + 1"
  by (simp add: unat_word_ariths(1))

lemma threads_ok_step:
  assumes "thread_step m m'" and ok: "threads_ok n m" and n: "n < 2 ^ 32 - 3"
  shows "threads_ok (Suc n) m'"
  using assms(1)
proof cases
  case launched
  have "initialised (Launch m) i \<longleftrightarrow> initialised m i" for i
    by (auto simp: initialised_def Launch_def nth_append less_Suc_eq)
  moreover have "initialised m i \<Longrightarrow> id_of (Launch m) i = id_of m i" for i
    by (simp add: initialised_def id_of_def Launch_def nth_append)
  ultimately show ?thesis using ok unfolding launched by (auto simp: threads_ok_def) (simp_all add: Launch_def)
next
  case (begun i)
  have s: "unat (tm_SThreadId m + 1) = unat (tm_SThreadId m) + 1" using ok n by (intro unat_Suc_u32) (simp add: threads_ok_def)
  have "initialised (thread_begin i m) j \<longleftrightarrow> j = i \<or> initialised m j" for j
    using begun(2) by (auto simp: initialised_def thread_begin_def InitTLS_def nth_list_update)
  moreover have "\<not> initialised m i" using begun(3) by (simp add: initialised_def)
  moreover have "id_of (thread_begin i m) j = (if j = i then tm_SThreadId m else id_of m j)" for j
    using begun(2) by (simp add: id_of_def thread_begin_def InitTLS_def nth_list_update)
  moreover have "tm_SThreadId (thread_begin i m) = tm_SThreadId m + 1" "tm_mainId (thread_begin i m) = tm_mainId m"
    by (simp_all add: thread_begin_def InitTLS_def)
  ultimately show ?thesis
    using ok s unfolding begun(1) threads_ok_def by (auto split: if_splits)
next
  case (ended i)
  have "initialised (thread_end i m) j \<longleftrightarrow> initialised m j" for j
    using ended(2,3) by (auto simp: initialised_def thread_end_def nth_list_update)
  moreover have "id_of (thread_end i m) j = id_of m j" for j
    using ended(2) by (simp add: id_of_def thread_end_def nth_list_update)
  ultimately show ?thesis using ok unfolding ended(1) by (auto simp: threads_ok_def thread_end_def)
next
  case joined
  then show ?thesis using ok by (auto simp: threads_ok_def Join_def initialised_def split: if_splits)
qed

lemma threads_ok_run: "thread_run n m \<Longrightarrow> n < 2 ^ 32 - 3 \<Longrightarrow> threads_ok n m"
  by (induction rule: thread_run.induct) (auto intro: threads_ok_start threads_ok_step)

section \<open>Properties\<close>

definition thread_ids :: "thread_manager \<Rightarrow> u32 set" where
  "thread_ids m = insert (tm_mainId m) (id_of m ` {i. initialised m i})"

lemma thread_ids_range:
  assumes "threads_ok n m" "n < 65534" "t \<in> thread_ids m"
  shows "0 < unat t \<and> unat t < 2 ^ 16"
proof -
  consider "t = 1" | i where "initialised m i" "t = id_of m i"
    using assms(1,3) by (auto simp: thread_ids_def threads_ok_def)
  then show ?thesis
  proof cases
    case 2
    then have "2 \<le> unat t" "unat t < n + 2" using assms(1) by (auto simp: threads_ok_def intro: less_le_trans)
    then show ?thesis using assms(2) by simp
  qed simp
qed

lemma thread_ids_small:
  assumes "threads_ok n m" "n < 65534" "T \<subseteq> thread_ids m" "card T * depth < 2 ^ 16" "depth < 2 ^ 16"
  shows "small_threads T depth"
proof -
  have "finite {i. initialised m i}" by (rule finite_subset [of _ "{..<length (tm_threads m)}"]) (auto simp: initialised_def)
  then have "finite T" using assms(3) finite_subset by (auto simp: thread_ids_def)
  moreover have "0 < unat t \<and> unat t < 2 ^ 16" if "t \<in> T" for t
    using thread_ids_range [OF assms(1,2)] assms(3) that by blast
  ultimately show ?thesis using assms(4,5) by (simp add: small_threads_def)
qed

text \<open>
  C23: During the first 65533 steps of the thread manager (launches, starts and ends of threads, joins) the
  main thread and all threads that have begun have pairwise different identifiers, none of them 0 and
  all below \<open>2 ^ 16\<close>, so that the locks can tell them apart: a thread that holds a write guard excludes
  all guards of the others, as long as all guards that can be held fit the 16 bits of the reader count.
\<close>

theorem launched_threads_exclude:
  assumes "thread_run n m" and "n < 65534"
  shows "(\<forall>t \<in> thread_ids m. 0 < unat t \<and> unat t < 2 ^ 16) \<and>
    (\<forall>i. initialised m i \<longrightarrow> id_of m i \<noteq> tm_mainId m) \<and>
    (\<forall>i j. initialised m i \<longrightarrow> initialised m j \<longrightarrow> id_of m i = id_of m j \<longrightarrow> i = j) \<and>
    (\<forall>T depth s t u. T \<subseteq> thread_ids m \<longrightarrow> card T * depth < 2 ^ 16 \<longrightarrow> depth < 2 ^ 16 \<longrightarrow> lock_run T depth s \<longrightarrow>
       0 < g_writes (ls_held s t) \<longrightarrow> u \<noteq> t \<longrightarrow> ls_held s u = no_guards)"
proof (intro conjI allI impI)
  have ok: "threads_ok n m" using threads_ok_run assms by simp
  show "\<forall>t \<in> thread_ids m. 0 < unat t \<and> unat t < 2 ^ 16" using thread_ids_range [OF ok assms(2)] by blast
  show "id_of m i \<noteq> tm_mainId m" if "initialised m i" for i
  proof -
    have "2 \<le> unat (id_of m i)" "tm_mainId m = 1" using ok that by (simp_all add: threads_ok_def)
    then show ?thesis by auto
  qed
  show "i = j" if "initialised m i" "initialised m j" "id_of m i = id_of m j" for i j
    using ok that unfolding threads_ok_def by blast
  fix T depth s t u
  assume "T \<subseteq> thread_ids m" "card T * depth < 2 ^ 16" "depth < 2 ^ 16" and r: "lock_run T depth s"
    and t: "0 < g_writes (ls_held s t)" and u: "u \<noteq> t"
  from lock_ok_run [OF r thread_ids_small [OF ok assms(2) this(1-3)]] t u show "ls_held s u = no_guards"
    by (rule lock_ok_excludes)
qed

text \<open>The main thread and one worker.\<close>

definition demo_threads :: thread_manager where
  "demo_threads = thread_begin 0 (Launch ThreadManager)"

lemma demo_threads_run: "thread_run 2 demo_threads"
proof -
  have "thread_step (Launch ThreadManager) demo_threads"
    unfolding demo_threads_def by (rule begun) (simp_all add: Launch_def ThreadManager_def InitTLS_def)
  from thread_run_step [OF thread_run_step [OF thread_run_start launched] this] show ?thesis by (simp add: numeral_2_eq_2)
qed

theorem launched_threads_exclude_witness:
  "unat (id_of demo_threads 0) < 2 ^ 16 \<and> id_of demo_threads 0 \<noteq> tm_mainId demo_threads \<and>
   ls_held demo_lock 2 = no_guards"
proof -
  have i: "initialised demo_threads 0" "thread_ids demo_threads = {1, 2}"
    by (auto simp: initialised_def id_of_def thread_ids_def demo_threads_def thread_begin_def InitTLS_def Launch_def ThreadManager_def)
  show ?thesis
    using launched_threads_exclude [OF demo_threads_run] i demo_lock_run(1)
    by (auto simp: demo_lock_def thread_ids_def)
qed

end
