(* ===== verification/LockWait.thy ===== *)
theory LockWait
  imports Lock
begin

text \<open>
  The waiting in \<^verbatim>\<open>Lock::WriteLock\<close> and \<^verbatim>\<open>Lock::ReadLock\<close>: rounds of 5000 turns, a look at the clock
  after each round, and a crash when ten seconds have passed. Other threads change the lock
  meanwhile: \<open>seen k i\<close> is what turn \<open>i\<close> of round \<open>k\<close> sees, and \<open>clock k\<close> the time after round \<open>k\<close>.
  A turn of the writer is one atomic operation and sees the lock at its \<^verbatim>\<open>compare_exchange\<close>. A turn of
  the reader is two, the load and the \<^verbatim>\<open>compare_exchange\<close>, and other threads can act between them: it
  sees the flag at the load and the lock at the exchange. Nothing relates what is seen at different
  operations, so every interleaving is covered.
\<close>

definition ACQUIRE_TIMEOUT_TIC :: u64 where "ACQUIRE_TIMEOUT_TIC = 10000"
definition MAX_SPIN_COUNT :: nat where "MAX_SPIN_COUNT = 5000"

type_synonym 'v turn = "'v \<Rightarrow> bool \<times> lock"

text \<open>The \<^verbatim>\<open>for\<close> loop: \<open>n\<close> turns are left.\<close>

fun spin :: "'v turn \<Rightarrow> (nat \<Rightarrow> 'v) \<Rightarrow> nat \<Rightarrow> nat \<Rightarrow> lock option" where
  "spin turn seen i 0 = None"
| "spin turn seen i (Suc n) = (let (done', l) = turn (seen i) in if done' then Some l else spin turn seen (Suc i) n)"

definition spin_round :: "string \<Rightarrow> 'v turn \<Rightarrow> u64 \<Rightarrow> (nat \<Rightarrow> nat \<Rightarrow> 'v) \<Rightarrow> (nat \<Rightarrow> u64) \<Rightarrow> nat \<Rightarrow> lock result option" where
  "spin_round cause turn beginTick seen clock k =
     (case spin turn (seen k) 0 MAX_SPIN_COUNT of Some l \<Rightarrow> Some (Inr l)
      | None \<Rightarrow> if ACQUIRE_TIMEOUT_TIC \<le> clock k - beginTick then Some (Inl (Crash cause)) else None)"

partial_function (option) rounds ::
  "string \<Rightarrow> 'v turn \<Rightarrow> u64 \<Rightarrow> (nat \<Rightarrow> nat \<Rightarrow> 'v) \<Rightarrow> (nat \<Rightarrow> u64) \<Rightarrow> nat \<Rightarrow> lock result option" where
  "rounds cause turn beginTick seen clock k =
     (case spin_round cause turn beginTick seen clock k of Some r \<Rightarrow> Some r
      | None \<Rightarrow> rounds cause turn beginTick seen clock (Suc k))"

text \<open>One turn that is not reentrant.\<close>

definition cas_WriteLock :: "u32 \<Rightarrow> lock turn" where
  "cas_WriteLock threadId l =
     (if lk_lockFlag l = EMPTY_FLAG
      then (True, l\<lparr>lk_lockFlag := push_bit 16 threadId AND WRITE_THREAD_MASK, lk_writeCount := lk_writeCount l + 1\<rparr>)
      else (False, l))"

definition cas_ReadLock :: "(u32 \<times> lock) turn" where
  "cas_ReadLock = (\<lambda>(loaded, l).
     let expected = loaded AND READ_COUNT_MASK
     in if lk_lockFlag l = expected then (True, l\<lparr>lk_lockFlag := expected + 1\<rparr>) else (False, l))"

text \<open>The two functions; \<open>l\<close> is the lock at the first look, for the reentrant case.\<close>

definition WriteLock ::
  "u32 \<Rightarrow> lock \<Rightarrow> u64 \<Rightarrow> (nat \<Rightarrow> nat \<Rightarrow> lock) \<Rightarrow> (nat \<Rightarrow> u64) \<Rightarrow> lock result option" where
  "WriteLock threadId l beginTick seen clock =
     (if lock_owner l = threadId then Some (Inr (l\<lparr>lk_writeCount := lk_writeCount l + 1\<rparr>))
      else rounds ''WRITE_LOCK_TIMEOUT'' (cas_WriteLock threadId) beginTick seen clock 0)"

definition ReadLock ::
  "u32 \<Rightarrow> lock \<Rightarrow> u64 \<Rightarrow> (nat \<Rightarrow> nat \<Rightarrow> u32 \<times> lock) \<Rightarrow> (nat \<Rightarrow> u64) \<Rightarrow> lock result option" where
  "ReadLock threadId l beginTick seen clock =
     (if lock_owner l = threadId then Some (Inr (l\<lparr>lk_lockFlag := lk_lockFlag l + 1\<rparr>))
      else rounds ''READ_LOCK_TIMEOUT'' cas_ReadLock beginTick seen clock 0)"

section \<open>When the rounds end\<close>

lemma spin_None: "spin turn seen i n = None \<longleftrightarrow> (\<forall>j<n. \<not> fst (turn (seen (i + j))))"
proof (induction n arbitrary: i)
  case (Suc n)
  then show ?case by (auto simp: split_beta less_Suc_eq_0_disj)
qed simp

lemma spin_Some:
  "spin turn seen i n = Some l \<Longrightarrow> \<exists>j<n. turn (seen (i + j)) = (True, l) \<and> (\<forall>j'<j. \<not> fst (turn (seen (i + j'))))"
proof (induction n arbitrary: i)
  case (Suc n)
  show ?case
  proof (cases "fst (turn (seen i))")
    case True
    with Suc.prems show ?thesis by (cases "turn (seen i)") (auto intro!: exI [of _ 0])
  next
    case False
    with Suc.prems have "spin turn seen (Suc i) n = Some l" by (simp add: split_beta)
    from Suc.IH [OF this] obtain j where "j < n" "turn (seen (Suc i + j)) = (True, l)"
      "\<forall>j'<j. \<not> fst (turn (seen (Suc i + j')))" by blast
    with False show ?thesis by (intro exI [of _ "Suc j"]) (auto simp: less_Suc_eq_0_disj)
  qed
qed simp

lemma rounds_return:
  assumes "spin_round c turn b seen clock (k + d) = Some r" and "\<And>i. i < d \<Longrightarrow> spin_round c turn b seen clock (k + i) = None"
  shows "rounds c turn b seen clock k = Some r"
  using assms
proof (induction d arbitrary: k)
  case 0
  then show ?case by (simp add: rounds.simps)
next
  case (Suc d)
  then have "rounds c turn b seen clock (Suc k) = Some r"
    using Suc.prems(2) [of "Suc _"] by (intro Suc.IH) auto
  then show ?case using Suc.prems(2) [of 0] by (simp add: rounds.simps [of c turn b seen clock k])
qed

lemma rounds_end:
  assumes "rounds c turn b seen clock k = Some r"
  shows "\<exists>m\<ge>k. spin_round c turn b seen clock m = Some r \<and> (\<forall>i. k \<le> i \<and> i < m \<longrightarrow> spin_round c turn b seen clock i = None)"
proof (rule rounds.raw_induct [where P = "\<lambda>c turn b seen clock k r. \<exists>m\<ge>k. spin_round c turn b seen clock m = Some r \<and>
    (\<forall>i. k \<le> i \<and> i < m \<longrightarrow> spin_round c turn b seen clock i = None)", OF _ assms])
  fix f c turn b seen clock k r
  assume IH: "\<And>c turn b seen clock k r. f c turn b seen clock k = Some r \<Longrightarrow>
      \<exists>m\<ge>k. spin_round c turn b seen clock m = Some r \<and> (\<forall>i. k \<le> i \<and> i < m \<longrightarrow> spin_round c turn b seen clock i = None)"
    and eq: "(case spin_round c turn b seen clock k of None \<Rightarrow> f c turn b seen clock (Suc k) | Some r \<Rightarrow> Some r) = Some r"
  show "\<exists>m\<ge>k. spin_round c turn b seen clock m = Some r \<and> (\<forall>i. k \<le> i \<and> i < m \<longrightarrow> spin_round c turn b seen clock i = None)"
  proof (cases "spin_round c turn b seen clock k")
    case None
    with eq IH obtain m where "Suc k \<le> m" "spin_round c turn b seen clock m = Some r"
      "\<forall>i. Suc k \<le> i \<and> i < m \<longrightarrow> spin_round c turn b seen clock i = None" by fastforce
    moreover from this None have "spin_round c turn b seen clock i = None" if "k \<le> i" "i < m" for i
      using that by (cases "i = k") (simp_all add: Suc_le_eq)
    ultimately show ?thesis by (intro exI [of _ m]) simp
  qed (use eq in auto)
qed

text \<open>A late round is the last one: the lock is taken at a turn before its end, or the caller crashes.\<close>

lemma rounds_late:
  assumes late: "ACQUIRE_TIMEOUT_TIC \<le> clock k - b"
  obtains (crash) m where "rounds c turn b seen clock 0 = Some (Inl (Crash c))" "m \<le> k"
      "ACQUIRE_TIMEOUT_TIC \<le> clock m - b" "\<forall>j\<le>m. \<forall>i<MAX_SPIN_COUNT. \<not> fst (turn (seen j i))"
    | (locked) m i l where "rounds c turn b seen clock 0 = Some (Inr l)" "m \<le> k" "i < MAX_SPIN_COUNT"
      "turn (seen m i) = (True, l)" "\<forall>j<m. clock j - b < ACQUIRE_TIMEOUT_TIC"
proof -
  have "spin_round c turn b seen clock k \<noteq> None" using late by (simp add: spin_round_def split: option.split)
  then obtain m where m: "m \<le> k" "spin_round c turn b seen clock m \<noteq> None"
    "\<And>j. j < m \<Longrightarrow> spin_round c turn b seen clock j = None"
    using ex_least_nat_le [of "\<lambda>m. spin_round c turn b seen clock m \<noteq> None" k] by blast
  then obtain r where r: "spin_round c turn b seen clock m = Some r" by blast
  then have run: "rounds c turn b seen clock 0 = Some r" using rounds_return [of c turn b seen clock 0 m r] m(3) by simp
  have before: "(\<forall>i<MAX_SPIN_COUNT. \<not> fst (turn (seen j i))) \<and> clock j - b < ACQUIRE_TIMEOUT_TIC" if "j < m" for j
    using m(3) [OF that] by (auto simp: spin_round_def spin_None not_le split: option.splits if_splits)
  show thesis
  proof (cases "spin turn (seen m) 0 MAX_SPIN_COUNT")
    case None
    with r have "r = Inl (Crash c)" "ACQUIRE_TIMEOUT_TIC \<le> clock m - b"
      by (auto simp: spin_round_def split: if_splits)
    moreover from None before have "\<forall>j\<le>m. \<forall>i<MAX_SPIN_COUNT. \<not> fst (turn (seen j i))"
      by (auto simp: spin_None le_less)
    ultimately show thesis using run m(1) crash by blast
  next
    case (Some l)
    with r have "r = Inr l" by (simp add: spin_round_def)
    moreover from spin_Some [OF Some] obtain i where "i < MAX_SPIN_COUNT" "turn (seen m i) = (True, l)" by auto
    ultimately show thesis using run m(1) before locked by blast
  qed
qed

lemma no_writer: "lk_lockFlag l = lk_lockFlag l AND READ_COUNT_MASK \<longleftrightarrow> lock_owner l = 0"
proof -
  have "lk_lockFlag l = lk_lockFlag l AND READ_COUNT_MASK \<longleftrightarrow> unat (lk_lockFlag l) = unat (lk_lockFlag l) mod 2 ^ 16"
    by (simp only: word_unat_eq_iff unat_and_low)
  also have "\<dots> \<longleftrightarrow> unat (lk_lockFlag l) div 2 ^ 16 = 0"
    by (metis mod_eq_self_iff_div_eq_0)
  also have "\<dots> \<longleftrightarrow> lock_owner l = 0" by (simp only: unat_owner [symmetric] unat_eq_0)
  finally show ?thesis .
qed

lemma cas_turns:
  "cas_WriteLock t l = (True, l') \<longleftrightarrow> lk_lockFlag l = EMPTY_FLAG \<and>
     l' = l\<lparr>lk_lockFlag := push_bit 16 t AND WRITE_THREAD_MASK, lk_writeCount := lk_writeCount l + 1\<rparr>"
  "fst (cas_WriteLock t l) \<longleftrightarrow> lk_lockFlag l = EMPTY_FLAG"
  "cas_ReadLock (f, l) = (True, l') \<longleftrightarrow> lk_lockFlag l = f AND READ_COUNT_MASK \<and> l' = l\<lparr>lk_lockFlag := lk_lockFlag l + 1\<rparr>"
  "fst (cas_ReadLock (f, l)) \<longleftrightarrow> lk_lockFlag l = f AND READ_COUNT_MASK"
  by (auto simp: cas_WriteLock_def cas_ReadLock_def Let_def)

text \<open>The exchange of a reader succeeds when nobody writes and the number of readers is as loaded.\<close>

lemma read_count: "lk_lockFlag l = f AND READ_COUNT_MASK \<longleftrightarrow>
    lock_owner l = 0 \<and> lk_lockFlag l AND READ_COUNT_MASK = f AND READ_COUNT_MASK"
proof -
  have "(f AND READ_COUNT_MASK) AND READ_COUNT_MASK = f AND READ_COUNT_MASK" by (simp add: and.assoc)
  then show ?thesis unfolding no_writer [symmetric] by metis
qed

text \<open>A turn is what \<open>try_WriteLock\<close> and \<open>try_ReadLock\<close> do for a thread that does not write.\<close>

lemma cas_try:
  "lock_owner l \<noteq> t \<Longrightarrow> cas_WriteLock t l = try_WriteLock t l"
  "lock_owner l \<noteq> t \<Longrightarrow> cas_ReadLock (f, l) = try_ReadLock t f l"
  by (simp_all add: cas_WriteLock_def cas_ReadLock_def try_WriteLock_def try_ReadLock_def)

section \<open>Properties\<close>

text \<open>
  C24: No thread waits for ever for a lock: once ten seconds have passed after some round, each of
  \<^verbatim>\<open>WriteLock\<close> and \<^verbatim>\<open>ReadLock\<close> has come back with the lock or has crashed. A writer gets it at a turn
  at which nobody held the lock, and crashes after finding it held at every turn. A reader gets it at a
  turn whose exchange finds no writer and as many readers as the turn loaded, and crashes when every
  exchange so far found a writer or another number of readers than the load just before it: readers
  that come and go can make a turn fail although nobody writes.
\<close>

theorem lock_wait_bounded:
  assumes "lock_owner l \<noteq> t" and "ACQUIRE_TIMEOUT_TIC \<le> clock k - b"
  shows "((\<exists>m i. WriteLock t l b seen clock = Some (Inr ((seen m i)\<lparr>
            lk_lockFlag := push_bit 16 t AND WRITE_THREAD_MASK, lk_writeCount := lk_writeCount (seen m i) + 1\<rparr>)) \<and>
          m \<le> k \<and> i < MAX_SPIN_COUNT \<and> lk_lockFlag (seen m i) = EMPTY_FLAG) \<or>
        (\<exists>m\<le>k. WriteLock t l b seen clock = Some (Inl (Crash ''WRITE_LOCK_TIMEOUT'')) \<and>
          ACQUIRE_TIMEOUT_TIC \<le> clock m - b \<and> (\<forall>j\<le>m. \<forall>i<MAX_SPIN_COUNT. lk_lockFlag (seen j i) \<noteq> EMPTY_FLAG))) \<and>
    ((\<exists>m i. ReadLock t l b (\<lambda>j i. (loaded j i, at_cas j i)) clock =
            Some (Inr ((at_cas m i)\<lparr>lk_lockFlag := lk_lockFlag (at_cas m i) + 1\<rparr>)) \<and>
          m \<le> k \<and> i < MAX_SPIN_COUNT \<and> lock_owner (at_cas m i) = 0 \<and>
          lk_lockFlag (at_cas m i) AND READ_COUNT_MASK = loaded m i AND READ_COUNT_MASK) \<or>
        (\<exists>m\<le>k. ReadLock t l b (\<lambda>j i. (loaded j i, at_cas j i)) clock = Some (Inl (Crash ''READ_LOCK_TIMEOUT'')) \<and>
          ACQUIRE_TIMEOUT_TIC \<le> clock m - b \<and>
          (\<forall>j\<le>m. \<forall>i<MAX_SPIN_COUNT. lock_owner (at_cas j i) \<noteq> 0 \<or>
            lk_lockFlag (at_cas j i) AND READ_COUNT_MASK \<noteq> loaded j i AND READ_COUNT_MASK)))"
    (is "?W \<and> ?R")
proof
  show ?W
  proof (cases rule: rounds_late [where c = "''WRITE_LOCK_TIMEOUT''" and turn = "cas_WriteLock t" and seen = seen
        and clock = clock and k = k and b = b, OF assms(2), case_names crash locked])
    case (crash m)
    then have "WriteLock t l b seen clock = Some (Inl (Crash ''WRITE_LOCK_TIMEOUT''))"
      using assms(1) by (simp add: WriteLock_def)
    with crash show ?thesis by (auto simp: cas_turns)
  next
    case (locked m i l')
    then have "WriteLock t l b seen clock = Some (Inr l')" using assms(1) by (simp add: WriteLock_def)
    with locked show ?thesis unfolding cas_turns by blast
  qed
  let ?seen = "\<lambda>j i. (loaded j i, at_cas j i)"
  show ?R
  proof (cases rule: rounds_late [where c = "''READ_LOCK_TIMEOUT''" and turn = cas_ReadLock and seen = ?seen
        and clock = clock and k = k and b = b, OF assms(2), case_names crash locked])
    case (crash m)
    then have "ReadLock t l b ?seen clock = Some (Inl (Crash ''READ_LOCK_TIMEOUT''))"
      using assms(1) by (simp add: ReadLock_def)
    with crash show ?thesis unfolding cas_turns read_count by blast
  next
    case (locked m i l')
    then have "ReadLock t l b ?seen clock = Some (Inr l')" using assms(1) by (simp add: ReadLock_def)
    with locked show ?thesis unfolding cas_turns read_count by blast
  qed
qed

text \<open>
  Thread 2 waits while thread 1 writes; the clock shows more than ten seconds after the second round. As
  a reader it also crashes where nobody writes but another reader comes in after every load.
\<close>

theorem lock_wait_bounded_witness:
  "WriteLock 2 \<lparr>lk_lockFlag = 0x10000, lk_writeCount = 1\<rparr> 5
     (\<lambda>_ _. \<lparr>lk_lockFlag = 0x10000, lk_writeCount = 1\<rparr>) (\<lambda>k. if k = 0 then 6000 else 10100) =
   Some (Inl (Crash ''WRITE_LOCK_TIMEOUT'')) \<and>
   ReadLock 2 \<lparr>lk_lockFlag = 0x10000, lk_writeCount = 1\<rparr> 5
     (\<lambda>_ _. (1, \<lparr>lk_lockFlag = 2, lk_writeCount = 0\<rparr>)) (\<lambda>k. if k = 0 then 6000 else 10100) =
   Some (Inl (Crash ''READ_LOCK_TIMEOUT''))"
proof -
  let ?l = "\<lparr>lk_lockFlag = 0x10000, lk_writeCount = 1\<rparr> :: lock"
  have "unat (lock_owner ?l) \<noteq> unat (2 :: u32)" unfolding unat_owner by simp
  then have "lock_owner ?l \<noteq> 2" by metis
  then show ?thesis
    using lock_wait_bounded [of ?l 2 "\<lambda>k. if k = 0 then 6000 else 10100" 1 5 "\<lambda>_ _. ?l" "\<lambda>_ _. 1"
        "\<lambda>_ _. \<lparr>lk_lockFlag = 2, lk_writeCount = 0\<rparr>"]
    by (auto simp: ACQUIRE_TIMEOUT_TIC_def EMPTY_FLAG_def READ_COUNT_MASK_def)
qed

end
