(* ===== verification/DeadLockProfiler.thy ===== *)
theory DeadLockProfiler
  imports Prelude "HOL-Library.AList"
begin

text \<open>
  \<^verbatim>\<open>ServerCore/DeadLockProfiler\<close>: in debug builds every acquisition of a lock inside another adds an
  edge to a graph over the locks, and a depth-first search crashes the program when the graph has a
  cycle. A lock is known by the address of its name. A \<^verbatim>\<open>set<int32>\<close> is its sorted list, a \<^verbatim>\<open>map\<close> an
  association list; the identifiers are the numbers from 0 in the order of first use. The mutex
  makes every operation atomic, so the profiler is one state and each thread has its lock stack.
\<close>

type_synonym name_ptr = u64

type_synonym lock_history = "(nat \<times> nat list) list"

record profiler =
  dp_nameToId :: "(name_ptr \<times> nat) list"
  dp_idToName :: "(nat \<times> name_ptr) list"
  dp_lockHistory :: lock_history

record dfs_state =
  ds_discoveredOrder :: "int list"
  ds_discoveredCount :: int
  ds_finished :: "bool list"
  ds_parent :: "int list"

section \<open>The search\<close>

text \<open>
  \<^verbatim>\<open>Dfs\<close> and its loop over the successors. The first argument bounds the depth of the recursion, and
  \<^const>\<open>None\<close> says that it was too small; one more than the number of locks is always enough.
\<close>

fun Dfs :: "nat \<Rightarrow> lock_history \<Rightarrow> nat \<Rightarrow> dfs_state \<Rightarrow> dfs_state result option"
  and Dfs_next :: "nat \<Rightarrow> lock_history \<Rightarrow> nat \<Rightarrow> nat list \<Rightarrow> dfs_state \<Rightarrow> dfs_state result option" where
  "Dfs 0 E here s = None"
| "Dfs (Suc fuel) E here s =
     (if ds_discoveredOrder s ! here \<noteq> -1 then Some (Inr s)
      else
        let s = s\<lparr>ds_discoveredOrder := (ds_discoveredOrder s)[here := ds_discoveredCount s],
                  ds_discoveredCount := ds_discoveredCount s + 1\<rparr>
        in case map_of E here of
             None \<Rightarrow> Some (Inr (s\<lparr>ds_finished := (ds_finished s)[here := True]\<rparr>))
           | Some nextSet \<Rightarrow> Dfs_next fuel E here nextSet s)"
| "Dfs_next fuel E here [] s = Some (Inr (s\<lparr>ds_finished := (ds_finished s)[here := True]\<rparr>))"
| "Dfs_next fuel E here (there # ts) s =
     (if ds_discoveredOrder s ! there = -1
      then (case Dfs fuel E there (s\<lparr>ds_parent := (ds_parent s)[there := int here]\<rparr>) of
              Some (Inr s') \<Rightarrow> Dfs_next fuel E here ts s'
            | r \<Rightarrow> r)
      else if ds_discoveredOrder s ! here < ds_discoveredOrder s ! there then Dfs_next fuel E here ts s
      else if \<not> ds_finished s ! there then Some (Inl (Crash ''DEADLOCK_DETECTED''))
      else Dfs_next fuel E here ts s)"

fun Dfs_roots :: "nat \<Rightarrow> lock_history \<Rightarrow> nat list \<Rightarrow> dfs_state \<Rightarrow> dfs_state result option" where
  "Dfs_roots fuel E [] s = Some (Inr s)"
| "Dfs_roots fuel E (r # rs) s =
     (case Dfs fuel E r s of Some (Inr s') \<Rightarrow> Dfs_roots fuel E rs s' | x \<Rightarrow> x)"

definition dfs_init :: "nat \<Rightarrow> dfs_state" where
  "dfs_init n = \<lparr>ds_discoveredOrder = replicate n (-1), ds_discoveredCount = 0,
                 ds_finished = replicate n False, ds_parent = replicate n (-1)\<rparr>"

definition CheckCycle :: "profiler \<Rightarrow> unit result option" where
  "CheckCycle p =
     (let lockCount = length (dp_nameToId p)
      in map_option (\<lambda>r. bindr r (\<lambda>_. Inr ()))
           (Dfs_roots (Suc lockCount) (dp_lockHistory p) [0..<lockCount] (dfs_init lockCount)))"

section \<open>Locking and unlocking\<close>

text \<open>\<^verbatim>\<open>_lockHistory[id]\<close>.\<close>

definition successors :: "lock_history \<Rightarrow> nat \<Rightarrow> nat list" where
  "successors E i = (case map_of E i of None \<Rightarrow> [] | Some h \<Rightarrow> h)"

definition PushLock :: "name_ptr \<Rightarrow> nat list \<Rightarrow> profiler \<Rightarrow> (nat list \<times> profiler) result option" where
  "PushLock name stack p =
     (let (lockId, p) = (case map_of (dp_nameToId p) name of
            None \<Rightarrow> let i = length (dp_nameToId p)
              in (i, p\<lparr>dp_nameToId := (name, i) # dp_nameToId p, dp_idToName := (i, name) # dp_idToName p\<rparr>)
          | Some i \<Rightarrow> (i, p))
      in if stack \<noteq> [] \<and> lockId \<noteq> hd stack
         then
           let prevId = hd stack;
               history = successors (dp_lockHistory p) prevId
           in if lockId \<notin> set history
              then let p = p\<lparr>dp_lockHistory := AList.update prevId (insort lockId history) (dp_lockHistory p)\<rparr>
                in map_option (\<lambda>r. bindr r (\<lambda>_. Inr (lockId # stack, p))) (CheckCycle p)
              else Some (Inr (lockId # stack, p\<lparr>dp_lockHistory := AList.update prevId history (dp_lockHistory p)\<rparr>))
         else Some (Inr (lockId # stack, p)))"

definition PopLock :: "name_ptr \<Rightarrow> nat list \<Rightarrow> profiler \<Rightarrow> (nat list \<times> profiler) result" where
  "PopLock name stack p =
     (if stack = [] then Inl (Crash ''MULTIPLE_UNLOCK'')
      else let (lockId, p) = (case map_of (dp_nameToId p) name of
             None \<Rightarrow> (0, p\<lparr>dp_nameToId := (name, 0) # dp_nameToId p\<rparr>) | Some i \<Rightarrow> (i, p))
        in if hd stack \<noteq> lockId then Inl (Crash ''INVALID_UNLOCK'') else Inr (tl stack, p))"

section \<open>The search finds cycles\<close>

definition edges :: "lock_history \<Rightarrow> (nat \<times> nat) set" where
  "edges E = {(u, v). \<exists>ns. map_of E u = Some ns \<and> v \<in> set ns}"

definition discovered :: "dfs_state \<Rightarrow> nat set" where
  "discovered s = {v. v < length (ds_discoveredOrder s) \<and> ds_discoveredOrder s ! v \<noteq> -1}"

definition finished :: "dfs_state \<Rightarrow> nat set" where
  "finished s = {v. v < length (ds_finished s) \<and> ds_finished s ! v}"

definition undiscovered :: "dfs_state \<Rightarrow> nat" where
  "undiscovered s = card ({..<length (ds_discoveredOrder s)} - discovered s)"

text \<open>
  \<open>G\<close> is the stack of locks whose search is under way, innermost first: a path of the graph with
  falling discovery numbers. The finished locks are closed under edges and lie on no cycle.
\<close>

definition falling :: "lock_history \<Rightarrow> nat list \<Rightarrow> dfs_state \<Rightarrow> bool" where
  "falling E G s \<longleftrightarrow>
     sorted_wrt (\<lambda>u v. ds_discoveredOrder s ! v < ds_discoveredOrder s ! u \<and> (v, u) \<in> (edges E)\<^sup>+) G"

definition dfs_ok :: "nat \<Rightarrow> lock_history \<Rightarrow> nat list \<Rightarrow> dfs_state \<Rightarrow> bool" where
  "dfs_ok n E G s \<longleftrightarrow>
     length (ds_discoveredOrder s) = n \<and> length (ds_finished s) = n \<and>
     finished s \<subseteq> discovered s \<and> set G = discovered s - finished s \<and>
     0 \<le> ds_discoveredCount s \<and> (\<forall>v \<in> discovered s. ds_discoveredOrder s ! v < ds_discoveredCount s) \<and>
     falling E G s \<and> edges E `` finished s \<subseteq> finished s \<and> (\<forall>v \<in> finished s. (v, v) \<notin> (edges E)\<^sup>+)"

lemma dfs_okI:
  assumes "length (ds_discoveredOrder s) = n" "length (ds_finished s) = n"
    "finished s \<subseteq> discovered s" "set G = discovered s - finished s"
    "0 \<le> ds_discoveredCount s" "\<forall>v \<in> discovered s. ds_discoveredOrder s ! v < ds_discoveredCount s"
    "falling E G s" "edges E `` finished s \<subseteq> finished s" "\<forall>v \<in> finished s. (v, v) \<notin> (edges E)\<^sup>+"
  shows "dfs_ok n E G s"
  using assms unfolding dfs_ok_def by (intro conjI)

lemma dfs_okD:
  assumes "dfs_ok n E G s"
  shows "length (ds_discoveredOrder s) = n" "length (ds_finished s) = n"
    "finished s \<subseteq> discovered s" "set G = discovered s - finished s"
    "0 \<le> ds_discoveredCount s" "\<forall>v \<in> discovered s. ds_discoveredOrder s ! v < ds_discoveredCount s"
    "falling E G s" "edges E `` finished s \<subseteq> finished s" "\<forall>v \<in> finished s. (v, v) \<notin> (edges E)\<^sup>+"
  using assms unfolding dfs_ok_def by simp_all

definition keeps :: "dfs_state \<Rightarrow> dfs_state \<Rightarrow> bool" where
  "keeps s t \<longleftrightarrow>
     length (ds_discoveredOrder t) = length (ds_discoveredOrder s) \<and> discovered s \<subseteq> discovered t \<and> finished s \<subseteq> finished t"

lemma keeps_refl: "keeps s s" by (simp add: keeps_def)
lemma keeps_trans: "keeps s t \<Longrightarrow> keeps t u \<Longrightarrow> keeps s u" by (auto simp: keeps_def)

lemma keeps_undiscovered: "keeps s t \<Longrightarrow> undiscovered t \<le> undiscovered s"
  unfolding undiscovered_def keeps_def by (intro card_mono) auto

lemma parent_neutral [simp]:
  "discovered (s\<lparr>ds_parent := p\<rparr>) = discovered s" "finished (s\<lparr>ds_parent := p\<rparr>) = finished s"
  "dfs_ok n E G (s\<lparr>ds_parent := p\<rparr>) = dfs_ok n E G s" "undiscovered (s\<lparr>ds_parent := p\<rparr>) = undiscovered s"
  "keeps (s\<lparr>ds_parent := p\<rparr>) t = keeps s t"
  by (simp_all add: dfs_ok_def falling_def undiscovered_def discovered_def finished_def keeps_def)

definition discover :: "nat \<Rightarrow> dfs_state \<Rightarrow> dfs_state" where
  "discover here s = s\<lparr>ds_discoveredOrder := (ds_discoveredOrder s)[here := ds_discoveredCount s],
                  ds_discoveredCount := ds_discoveredCount s + 1\<rparr>"

definition finish :: "nat \<Rightarrow> dfs_state \<Rightarrow> dfs_state" where
  "finish here s = s\<lparr>ds_finished := (ds_finished s)[here := True]\<rparr>"

lemma falling_reaches:
  assumes "falling E G s" and "G = [] \<or> (hd G, here) \<in> edges E" and "g \<in> set G"
  shows "(g, here) \<in> (edges E)\<^sup>+"
proof (cases G)
  case (Cons h G')
  with assms(2) have e: "(h, here) \<in> edges E" by simp
  show ?thesis
  proof (cases "g = h")
    case False
    with assms(3) Cons have "g \<in> set G'" by simp
    with assms(1) Cons have "(g, h) \<in> (edges E)\<^sup>+" by (simp add: falling_def)
    with e show ?thesis by (rule trancl_into_trancl [rotated])
  qed (use e in auto)
qed (use assms(3) in simp)

lemma discover_effect:
  assumes "dfs_ok n E G s" and "here < n"
  shows "discovered (discover here s) = insert here (discovered s)" "finished (discover here s) = finished s"
    "ds_discoveredOrder (discover here s) ! v = (if v = here then ds_discoveredCount s else ds_discoveredOrder s ! v)"
  using dfs_okD(1,5) [OF assms(1)] assms(2)
  by (auto simp: discovered_def finished_def discover_def nth_list_update)

lemma dfs_ok_discover:
  assumes ok: "dfs_ok n E G s" and "here < n" "here \<notin> discovered s" and hd: "G = [] \<or> (hd G, here) \<in> edges E"
  shows "dfs_ok n E (here # G) (discover here s)" "keeps s (discover here s)"
    "undiscovered s = Suc (undiscovered (discover here s))"
proof -
  note d = discover_effect [OF ok assms(2)] and D = dfs_okD [OF ok]
  have g: "set G \<subseteq> discovered s" "here \<notin> finished s" using D(3,4) assms(3) by auto
  show "dfs_ok n E (here # G) (discover here s)"
  proof (rule dfs_okI)
    have "falling E G (discover here s)"
      unfolding falling_def by (rule sorted_wrt_mono_rel [OF _ D(7) [unfolded falling_def]]) (use g(1) assms(3) in \<open>auto simp: d\<close>)
    moreover have "\<forall>v \<in> set G. ds_discoveredOrder s ! v < ds_discoveredCount s" using g(1) D(6) by blast
    ultimately show "falling E (here # G) (discover here s)"
      using g(1) assms(3) falling_reaches [OF D(7) hd] by (auto simp: falling_def d)
    show "\<forall>v \<in> discovered (discover here s). ds_discoveredOrder (discover here s) ! v < ds_discoveredCount (discover here s)"
      using D(6) by (auto simp: d) (auto simp: discover_def)
    show "set (here # G) = discovered (discover here s) - finished (discover here s)" using D(4) g(2) by (auto simp: d)
  qed (use D in \<open>auto simp: d\<close>, auto simp: discover_def)
  show "keeps s (discover here s)" by (auto simp: keeps_def d) (simp add: discover_def)
  have "{..<n} - discovered s = insert here ({..<n} - insert here (discovered s))" using assms(2,3) by auto
  then have "card ({..<n} - discovered s) = card (insert here ({..<n} - insert here (discovered s)))" by (rule arg_cong)
  also have "\<dots> = Suc (card ({..<n} - insert here (discovered s)))" by (rule card_insert_disjoint) auto
  finally have "card ({..<n} - discovered s) = Suc (card ({..<n} - insert here (discovered s)))" .
  moreover have "length (ds_discoveredOrder (discover here s)) = n" using D(1) by (simp add: discover_def)
  ultimately show "undiscovered s = Suc (undiscovered (discover here s))"
    unfolding undiscovered_def D(1) d(1) by (simp only:)
qed

lemma dfs_ok_finish:
  assumes ok: "dfs_ok n E (here # G) s" and next_fin: "edges E `` {here} \<subseteq> finished s"
  shows "dfs_ok n E G (finish here s)" "keeps s (finish here s)" "here \<in> discovered (finish here s)"
proof -
  note D = dfs_okD [OF ok]
  have here: "here \<in> discovered s" "here \<notin> finished s" "here < n" using D(1,4) by (auto simp: discovered_def)
  have fin: "finished (finish here s) = insert here (finished s)"
    using here(3) D(2) by (auto simp: finished_def finish_def nth_list_update)
  have disc: "discovered (finish here s) = discovered s" by (simp add: discovered_def finish_def)
  have "v \<in> finished s" if "(u, v) \<in> (edges E)\<^sup>*" "u \<in> finished s" for u v
    using that D(8) by induction auto
  then have acyclic: "(here, here) \<notin> (edges E)\<^sup>+"
    using next_fin here(2) by (auto dest!: tranclD)
  have "here \<notin> set G" using D(7) by (auto simp: falling_def)
  then have set: "set G = discovered s - insert here (finished s)" using D(4) by auto
  show "dfs_ok n E G (finish here s)"
  proof (rule dfs_okI)
    show "falling E G (finish here s)" using D(7) by (simp add: falling_def finish_def)
    show "set G = discovered (finish here s) - finished (finish here s)" by (simp add: set disc fin)
    show "edges E `` finished (finish here s) \<subseteq> finished (finish here s)" using D(8) next_fin by (auto simp: fin)
    show "\<forall>v \<in> finished (finish here s). (v, v) \<notin> (edges E)\<^sup>+" using D(9) acyclic by (auto simp: fin)
  qed (use D here in \<open>simp_all add: fin disc\<close>, simp_all add: finish_def)
  show "keeps s (finish here s)" by (auto simp: keeps_def fin disc) (simp add: finish_def)
  show "here \<in> discovered (finish here s)" using here(1) by (simp add: disc)
qed


definition graph_ok :: "nat \<Rightarrow> lock_history \<Rightarrow> bool" where
  "graph_ok n E \<longleftrightarrow> edges E \<subseteq> {..<n} \<times> {..<n}"

text \<open>What a call of \<^verbatim>\<open>Dfs\<close> and of its loop leave behind.\<close>

definition dfs_result :: "nat \<Rightarrow> lock_history \<Rightarrow> nat list \<Rightarrow> nat \<Rightarrow> dfs_state \<Rightarrow> dfs_state result option \<Rightarrow> bool" where
  "dfs_result n E G here s r \<longleftrightarrow>
     (r = Some (Inl (Crash ''DEADLOCK_DETECTED'')) \<and> (\<exists>v. (v, v) \<in> (edges E)\<^sup>+)) \<or>
     (\<exists>t. r = Some (Inr t) \<and> dfs_ok n E G t \<and> here \<in> discovered t \<and> keeps s t)"

lemma discovered_iff: "dfs_ok n E G s \<Longrightarrow> v < n \<Longrightarrow> ds_discoveredOrder s ! v = -1 \<longleftrightarrow> v \<notin> discovered s"
  by (simp add: dfs_ok_def discovered_def)

lemma Dfs_correct:
  shows "dfs_ok n E G s \<Longrightarrow> graph_ok n E \<Longrightarrow> here < n \<Longrightarrow> here \<in> discovered s \<or> G = [] \<or> (hd G, here) \<in> edges E \<Longrightarrow>
      undiscovered s < fuel \<Longrightarrow> dfs_result n E G here s (Dfs fuel E here s)"
    and "dfs_ok n E (here # G) s \<Longrightarrow> graph_ok n E \<Longrightarrow> set ts \<subseteq> edges E `` {here} \<Longrightarrow>
      edges E `` {here} \<subseteq> finished s \<union> set ts \<Longrightarrow> undiscovered s < fuel \<Longrightarrow>
      dfs_result n E G here s (Dfs_next fuel E here ts s)"
proof (induction fuel E here s and fuel E here ts s arbitrary: G and G rule: Dfs_Dfs_next.induct)
  case (1 E here s)
  then show ?case by simp
next
  case (2 fuel E here s)
  show ?case
  proof (cases "here \<in> discovered s")
    case True
    then have "ds_discoveredOrder s ! here \<noteq> -1" using discovered_iff [OF "2.prems"(1,3)] by simp
    with True "2.prems"(1) show ?thesis by (auto simp: dfs_result_def keeps_refl)
  next
    case False
    then have o: "ds_discoveredOrder s ! here = -1" using discovered_iff [OF "2.prems"(1,3)] by simp
    from False "2.prems"(4) have hd: "G = [] \<or> (hd G, here) \<in> edges E" by simp
    note disc = dfs_ok_discover [OF "2.prems"(1,3) False hd]
    show ?thesis
    proof (cases "map_of E here")
      case None
      then have "edges E `` {here} \<subseteq> finished (discover here s)" by (auto simp: edges_def)
      from dfs_ok_finish [OF disc(1) this] have "dfs_result n E G here s (Some (Inr (finish here (discover here s))))"
        using disc(2) by (auto simp: dfs_result_def intro: keeps_trans)
      with None o show ?thesis by (simp add: finish_def discover_def)
    next
      case (Some nextSet)
      then have nx: "edges E `` {here} = set nextSet" by (auto simp: edges_def)
      have "dfs_result n E G here (discover here s) (Dfs_next fuel E here nextSet (discover here s))"
        using "2.IH" [of "discover here s" nextSet G] o Some disc "2.prems" nx by (simp add: discover_def)
      then have "dfs_result n E G here s (Dfs_next fuel E here nextSet (discover here s))"
        using disc(2) by (auto simp: dfs_result_def intro: keeps_trans)
      with Some o show ?thesis by (simp add: discover_def)
    qed
  qed
next
  case (3 fuel E here s)
  then have "edges E `` {here} \<subseteq> finished s" by simp
  from dfs_ok_finish [OF 3(1) this] show ?case
    by (auto simp: dfs_result_def simp flip: finish_def)
next
  case (4 fuel E here there ts s)
  note D = dfs_okD [OF "4.prems"(1)]
  have e: "(here, there) \<in> edges E" using "4.prems"(3) by auto
  then have n: "there < n" using "4.prems"(2) by (auto simp: graph_ok_def)
  have rest: "set ts \<subseteq> edges E `` {here}" using "4.prems"(3) by simp
  have in_G: "v \<in> finished t" if "dfs_ok n E (here # G) t" "v \<in> discovered t" "v \<notin> set (here # G)" for v t
    using dfs_okD(4) [OF that(1)] that(2,3) by auto
  show ?case
  proof (cases "there \<in> discovered s")
    case False
    then have o: "ds_discoveredOrder s ! there = -1" and out: "there \<notin> set (here # G)"
      using discovered_iff [OF "4.prems"(1) n] D(4) by auto
    let ?s = "s\<lparr>ds_parent := (ds_parent s)[there := int here]\<rparr>"
    have "dfs_result n E (here # G) there ?s (Dfs fuel E there ?s)"
      using "4.IH"(1) [OF o, of "here # G"] "4.prems" n e by simp
    then consider (crash) "Dfs fuel E there ?s = Some (Inl (Crash ''DEADLOCK_DETECTED''))" "\<exists>v. (v, v) \<in> (edges E)\<^sup>+"
      | (ret) t where "Dfs fuel E there ?s = Some (Inr t)" "dfs_ok n E (here # G) t" "there \<in> discovered t" "keeps s t"
      by (auto simp: dfs_result_def)
    then show ?thesis
    proof cases
      case crash
      with o show ?thesis by (simp add: dfs_result_def)
    next
      case ret
      have "there \<in> finished t" using in_G [OF ret(2,3) out] .
      then have "edges E `` {here} \<subseteq> finished t \<union> set ts" using "4.prems"(4) ret(4) by (auto simp: keeps_def)
      moreover have "undiscovered t < fuel" using keeps_undiscovered [OF ret(4)] "4.prems"(5) by simp
      ultimately have "dfs_result n E G here t (Dfs_next fuel E here ts t)"
        using "4.IH"(2) [OF o ret(1) refl, of G] ret(2) "4.prems"(2) rest by simp
      with o ret show ?thesis by (auto simp: dfs_result_def intro: keeps_trans)
    qed
  next
    case True
    then have o: "ds_discoveredOrder s ! there \<noteq> -1" using discovered_iff [OF "4.prems"(1) n] by simp
    show ?thesis
    proof (cases "there \<in> finished s")
      case fin: True
      then have "edges E `` {here} \<subseteq> finished s \<union> set ts" "ds_finished s ! there" using "4.prems"(4) by (auto simp: finished_def)
      with "4.IH"(3,4) [OF o, of G] o "4.prems"(1,2,5) rest show ?thesis by auto
    next
      case False
      then have "there \<in> set (here # G)" using D(4) True by simp
      then consider "there = here" | "there \<in> set G" "ds_discoveredOrder s ! there < ds_discoveredOrder s ! here"
          "(there, here) \<in> (edges E)\<^sup>+"
        using D(7) by (auto simp: falling_def)
      then have "\<not> ds_discoveredOrder s ! here < ds_discoveredOrder s ! there" "(here, here) \<in> (edges E)\<^sup>+"
        using e by (cases; auto intro: trancl_into_trancl2)+
      moreover have "\<not> ds_finished s ! there" using False n D(2) by (simp add: finished_def)
      ultimately show ?thesis using o by (auto simp: dfs_result_def)
    qed
  qed
qed


lemma Dfs_roots_correct:
  assumes "dfs_ok n E [] s" and "graph_ok n E" and "set rs \<subseteq> {..<n}" and "undiscovered s < fuel"
  shows "Dfs_roots fuel E rs s = Some (Inl (Crash ''DEADLOCK_DETECTED'')) \<and> \<not> acyclic (edges E) \<or>
    (\<exists>t. Dfs_roots fuel E rs s = Some (Inr t) \<and> dfs_ok n E [] t \<and> set rs \<union> discovered s \<subseteq> discovered t)"
  using assms
proof (induction rs arbitrary: s)
  case Nil
  then show ?case by simp
next
  case (Cons r rs)
  then have "dfs_result n E [] r s (Dfs fuel E r s)" by (intro Dfs_correct(1)) simp_all
  then consider (crash) "Dfs fuel E r s = Some (Inl (Crash ''DEADLOCK_DETECTED''))" "\<not> acyclic (edges E)"
    | (ret) t where "Dfs fuel E r s = Some (Inr t)" "dfs_ok n E [] t" "r \<in> discovered t" "keeps s t"
    by (auto simp: dfs_result_def acyclic_def)
  then show ?case
  proof cases
    case crash
    then show ?thesis by simp
  next
    case ret
    have "undiscovered t < fuel" using keeps_undiscovered [OF ret(4)] Cons.prems(4) by simp
    have sub: "insert r (discovered s) \<subseteq> discovered t" using ret(3,4) by (simp add: keeps_def)
    have "Dfs_roots fuel E (r # rs) s = Dfs_roots fuel E rs t" using ret(1) by simp
    moreover have "set rs \<subseteq> {..<n}" using Cons.prems(3) by simp
    note Cons.IH [OF ret(2) Cons.prems(2) this \<open>undiscovered t < fuel\<close>]
    ultimately show ?thesis using sub by fastforce
  qed
qed

lemma CheckCycle_correct:
  assumes "graph_ok (length (dp_nameToId p)) (dp_lockHistory p)"
  shows "CheckCycle p = Some (if acyclic (edges (dp_lockHistory p)) then Inr () else Inl (Crash ''DEADLOCK_DETECTED''))"
proof -
  let ?n = "length (dp_nameToId p)" and ?E = "dp_lockHistory p"
  have none: "discovered (dfs_init ?n) = {}" "finished (dfs_init ?n) = {}"
    by (simp_all add: discovered_def finished_def dfs_init_def)
  then have init: "dfs_ok ?n ?E [] (dfs_init ?n)"
    by (intro dfs_okI) (simp_all add: falling_def, simp_all add: dfs_init_def)
  have "undiscovered (dfs_init ?n) < Suc ?n" by (simp add: undiscovered_def none) (simp add: dfs_init_def)
  moreover have "set [0..<?n] \<subseteq> {..<?n}" by auto
  ultimately show ?thesis
    using Dfs_roots_correct [OF init assms, of "[0..<?n]" "Suc ?n"]
  proof (elim disjE exE conjE meta_impE)
    fix t
    assume t: "Dfs_roots (Suc ?n) ?E [0..<?n] (dfs_init ?n) = Some (Inr t)" "dfs_ok ?n ?E [] t"
      "set [0..<?n] \<union> discovered (dfs_init ?n) \<subseteq> discovered t"
    have "(v, v) \<notin> (edges ?E)\<^sup>+" for v
    proof
      assume c: "(v, v) \<in> (edges ?E)\<^sup>+"
      then obtain u where "(v, u) \<in> edges ?E" by (auto dest: tranclD)
      then have "v < ?n" using assms by (auto simp: graph_ok_def)
      then have "v \<in> finished t" using t(3) dfs_okD(4) [OF t(2)] by auto
      with c dfs_okD(9) [OF t(2)] show False by blast
    qed
    with t(1) show ?thesis by (simp add: CheckCycle_def acyclic_def)
  qed (auto simp: CheckCycle_def)
qed

section \<open>The profiler\<close>

definition profiler_ok :: "profiler \<Rightarrow> bool" where
  "profiler_ok p \<longleftrightarrow>
     (\<forall>name i. map_of (dp_nameToId p) name = Some i \<longrightarrow> i < length (dp_nameToId p)) \<and>
     graph_ok (length (dp_nameToId p)) (dp_lockHistory p) \<and> acyclic (edges (dp_lockHistory p))"

definition lock_id :: "name_ptr \<Rightarrow> profiler \<Rightarrow> nat" where
  "lock_id name p = (case map_of (dp_nameToId p) name of None \<Rightarrow> length (dp_nameToId p) | Some i \<Rightarrow> i)"

lemma edges_insert:
  "edges (AList.update u (insort v (successors E u)) E) = insert (u, v) (edges E)"
  "v \<in> set (successors E u) \<Longrightarrow>
   edges (AList.update u (successors E u) E) = edges E"
  by (auto simp: edges_def successors_def AList.update_conv' set_insort_key split: option.splits if_splits)

lemma edges_history: "v \<in> set (successors E u) \<longleftrightarrow> (u, v) \<in> edges E"
  by (cases "map_of E u") (simp_all add: edges_def successors_def)

lemma lock_id_history [simp]: "lock_id name (p\<lparr>dp_lockHistory := h\<rparr>) = lock_id name p"
  by (simp add: lock_id_def cong: option.case_cong)

lemma acyclic_empty: "acyclic {}"
proof (rule acyclicI, rule allI)
  show "(x, x) \<notin> {}\<^sup>+" for x by (auto dest: tranclD)
qed

lemma profiler_ok_init: "profiler_ok \<lparr>dp_nameToId = [], dp_idToName = [], dp_lockHistory = []\<rparr>"
  by (simp add: profiler_ok_def graph_ok_def edges_def acyclic_empty)

section \<open>Pushing a lock\<close>

text \<open>The profiler after the name has got its number.\<close>

definition named :: "u64 \<Rightarrow> profiler \<Rightarrow> profiler" where
  "named name p = (case map_of (dp_nameToId p) name of
      None \<Rightarrow> p\<lparr>dp_nameToId := (name, lock_id name p) # dp_nameToId p, dp_idToName := (lock_id name p, name) # dp_idToName p\<rparr>
    | Some _ \<Rightarrow> p)"

lemma named_facts:
  assumes "profiler_ok p"
  shows "dp_lockHistory (named name p) = dp_lockHistory p" "length (dp_nameToId p) \<le> length (dp_nameToId (named name p))"
    "lock_id name p < length (dp_nameToId (named name p))" "lock_id name (named name p) = lock_id name p"
    "profiler_ok (named name p)"
  using assms unfolding named_def lock_id_def profiler_ok_def graph_ok_def
  by (auto split: option.splits if_splits intro: less_SucI)

lemma PushLock_named:
  assumes "profiler_ok p" and "i = lock_id name p"
  shows "PushLock name stack p = (if stack \<noteq> [] \<and> i \<noteq> hd stack
     then let h = successors (dp_lockHistory p) (hd stack)
       in if i \<notin> set h
          then let p = (named name p)\<lparr>dp_lockHistory := AList.update (hd stack) (insort i h) (dp_lockHistory p)\<rparr>
            in map_option (\<lambda>r. bindr r (\<lambda>_. Inr (i # stack, p))) (CheckCycle p)
          else Some (Inr (i # stack, (named name p)\<lparr>dp_lockHistory := AList.update (hd stack) h (dp_lockHistory p)\<rparr>))
     else Some (Inr (i # stack, named name p)))"
  using named_facts(1) [OF assms(1), of name]
  by (simp add: PushLock_def named_def assms(2) lock_id_def Let_def split: option.split)

text \<open>A new edge is checked for a cycle.\<close>

lemma new_edge:
  assumes ok: "profiler_ok p" and "prev < length (dp_nameToId p)" "i < length (dp_nameToId p)" "i \<noteq> prev"
    and h: "h = successors (dp_lockHistory p) prev" "i \<notin> set h"
  defines "p' \<equiv> p\<lparr>dp_lockHistory := AList.update prev (insort i h) (dp_lockHistory p)\<rparr>"
  shows "edges (dp_lockHistory p') = insert (prev, i) (edges (dp_lockHistory p))"
    and "(i, prev) \<in> (edges (dp_lockHistory p))\<^sup>+ \<Longrightarrow> CheckCycle p' = Some (Inl (Crash ''DEADLOCK_DETECTED''))"
    and "(i, prev) \<notin> (edges (dp_lockHistory p))\<^sup>+ \<Longrightarrow> CheckCycle p' = Some (Inr ()) \<and> profiler_ok p'"
proof -
  show e: "edges (dp_lockHistory p') = insert (prev, i) (edges (dp_lockHistory p))"
    using h by (simp add: p'_def edges_insert(1))
  have g: "graph_ok (length (dp_nameToId p')) (dp_lockHistory p')"
    using ok assms(2,3) h by (simp add: p'_def profiler_ok_def graph_ok_def edges_insert(1))
  have a: "acyclic (edges (dp_lockHistory p')) \<longleftrightarrow> (i, prev) \<notin> (edges (dp_lockHistory p))\<^sup>+"
    using ok \<open>i \<noteq> prev\<close> by (simp add: e profiler_ok_def rtrancl_eq_or_trancl)
  note c = CheckCycle_correct [OF g, unfolded a]
  show "(i, prev) \<in> (edges (dp_lockHistory p))\<^sup>+ \<Longrightarrow> CheckCycle p' = Some (Inl (Crash ''DEADLOCK_DETECTED''))"
    using c by simp
  show "(i, prev) \<notin> (edges (dp_lockHistory p))\<^sup>+ \<Longrightarrow> CheckCycle p' = Some (Inr ()) \<and> profiler_ok p'"
    using c g a ok by (simp add: p'_def profiler_ok_def)
qed

section \<open>Properties\<close>

text \<open>
  From a graph without cycles \<^verbatim>\<open>PushLock\<close> always returns, and it crashes exactly when the new lock
  is taken inside another one that is, directly or through other locks, already known to be taken
  inside it; otherwise it records that one edge, pushes the lock, and the graph has no cycle again.
\<close>

theorem push_detects_deadlock:
  assumes "profiler_ok p" and "\<forall>i \<in> set stack. i < length (dp_nameToId p)" and "i = lock_id name p"
  shows "if stack \<noteq> [] \<and> i \<noteq> hd stack \<and> (i, hd stack) \<in> (edges (dp_lockHistory p))\<^sup>+
    then PushLock name stack p = Some (Inl (Crash ''DEADLOCK_DETECTED''))
    else \<exists>p'. PushLock name stack p = Some (Inr (i # stack, p')) \<and> profiler_ok p' \<and> i < length (dp_nameToId p') \<and>
      length (dp_nameToId p) \<le> length (dp_nameToId p') \<and> lock_id name p' = i \<and>
      edges (dp_lockHistory p') = edges (dp_lockHistory p) \<union>
        (if stack \<noteq> [] \<and> i \<noteq> hd stack then {(hd stack, i)} else {})"
proof (cases "stack \<noteq> [] \<and> i \<noteq> hd stack")
  case False
  then show ?thesis
    using PushLock_named [OF assms(1,3), of stack] named_facts [OF assms(1), of name, folded assms(3)] assms(3) by auto
next
  case nested: True
  let ?E = "dp_lockHistory p" and ?prev = "hd stack" and ?p = "named name p"
  note push = PushLock_named [OF assms(1,3), of stack] and p = named_facts [OF assms(1), of name, folded assms(3)]
  have prev: "?prev < length (dp_nameToId ?p)" using nested assms(2) p(2) by (cases stack) auto
  show ?thesis
  proof (cases "i \<in> set (successors ?E ?prev)")
    case h: True
    then have "(?prev, i) \<in> edges ?E" by (simp only: edges_history)
    moreover then have "(i, ?prev) \<notin> (edges ?E)\<^sup>+"
      using assms(1) by (auto simp: profiler_ok_def acyclic_def dest: trancl_into_trancl)
    moreover have "profiler_ok (?p\<lparr>dp_lockHistory := AList.update ?prev (successors ?E ?prev) ?E\<rparr>)"
      using p(1,5) by (simp add: profiler_ok_def graph_ok_def edges_insert(2) [OF h])
    ultimately show ?thesis
      using push nested h p assms(3) by (simp add: Let_def edges_insert(2) [OF h] insert_absorb)
  next
    case h: False
    note e = new_edge [OF p(5) prev p(3) _ refl, unfolded p(1), OF _ h]
    show ?thesis using push nested h e p assms(3) by (auto simp: Let_def)
  qed
qed

theorem push_detects_deadlock_witness:
  "PushLock 10 [1] \<lparr>dp_nameToId = [(10, 0), (20, 1)], dp_idToName = [(0, 10), (1, 20)], dp_lockHistory = [(0, [1])]\<rparr> =
     Some (Inl (Crash ''DEADLOCK_DETECTED''))"
proof -
  let ?p = "\<lparr>dp_nameToId = [(10, 0), (20, 1)], dp_idToName = [(0, 10), (1, 20)], dp_lockHistory = [(0, [1])]\<rparr> :: profiler"
  have e: "edges (dp_lockHistory ?p) = {(0, 1)}" by (auto simp: edges_def split: if_splits)
  have "profiler_ok ?p" unfolding profiler_ok_def graph_ok_def e by (auto simp: acyclic_empty split: if_splits)
  moreover have "0 = lock_id 10 ?p" by (simp add: lock_id_def)
  moreover have "\<forall>i \<in> set [1]. i < length (dp_nameToId ?p)" by simp
  moreover have "[1 :: nat] \<noteq> [] \<and> 0 \<noteq> hd [1 :: nat] \<and> (0, hd [1]) \<in> (edges (dp_lockHistory ?p))\<^sup>+" unfolding e by auto
  note pre = this
  ultimately show ?thesis
    using push_detects_deadlock [of ?p "[1]" 0 10] unfolding if_P [OF pre] by blast
qed

end
