(* ===== verification/LockOrder.thy ===== *)
theory LockOrder
  imports DeadLockProfiler
begin

text \<open>
  The deadlock profiler over a whole run of the program: the threads lock and unlock through guards,
  one profiler watches all of them, and each thread has its own stack. The profiler knows locks by
  numbers; the specification knows them by name and does not mention the graph or the search.
\<close>

section \<open>A run of the program under the profiler\<close>

datatype lock_event = Locked u32 name_ptr | Unlocked u32 name_ptr

definition no_profiler :: profiler where
  "no_profiler = \<lparr>dp_nameToId = [], dp_idToName = [], dp_lockHistory = []\<rparr>"

fun profile ::
  "lock_event list \<Rightarrow> profiler \<Rightarrow> (u32 \<Rightarrow> nat list) \<Rightarrow> (profiler \<times> (u32 \<Rightarrow> nat list)) result option" where
  "profile [] p LLockStack = Some (Inr (p, LLockStack))"
| "profile (Locked t name # es) p LLockStack =
     (case PushLock name (LLockStack t) p of
        None \<Rightarrow> None
      | Some (Inl e) \<Rightarrow> Some (Inl e)
      | Some (Inr (stack, p)) \<Rightarrow> profile es p (LLockStack(t := stack)))"
| "profile (Unlocked t name # es) p LLockStack =
     (case PopLock name (LLockStack t) p of
        Inl e \<Rightarrow> Some (Inl e)
      | Inr (stack, p) \<Rightarrow> profile es p (LLockStack(t := stack)))"

section \<open>The specification\<close>

text \<open>Guards nest: a thread unlocks the lock it has locked last.\<close>

fun guarded :: "lock_event list \<Rightarrow> (u32 \<Rightarrow> name_ptr list) \<Rightarrow> bool" where
  "guarded [] held \<longleftrightarrow> True"
| "guarded (Locked t name # es) held \<longleftrightarrow> guarded es (held(t := name # held t))"
| "guarded (Unlocked t name # es) held \<longleftrightarrow>
     held t \<noteq> [] \<and> hd (held t) = name \<and> guarded es (held(t := tl (held t)))"

definition nesting :: "name_ptr \<Rightarrow> name_ptr list \<Rightarrow> (name_ptr \<times> name_ptr) set" where
  "nesting name held = (if held \<noteq> [] \<and> name \<noteq> hd held then {(hd held, name)} else {})"

text \<open>Which lock some thread has locked directly inside which other one.\<close>

fun nestings :: "lock_event list \<Rightarrow> (u32 \<Rightarrow> name_ptr list) \<Rightarrow> (name_ptr \<times> name_ptr) set" where
  "nestings [] held = {}"
| "nestings (Locked t name # es) held = nesting name (held t) \<union> nestings es (held(t := name # held t))"
| "nestings (Unlocked t name # es) held = nestings es (held(t := tl (held t)))"

section \<open>Names and numbers\<close>

text \<open>The profiler \<open>p\<close> has seen the nestings \<open>G\<close>, and its names have different numbers.\<close>

definition knows :: "profiler \<Rightarrow> name_ptr set" where
  "knows p = dom (map_of (dp_nameToId p))"

definition tracks :: "profiler \<Rightarrow> (name_ptr \<times> name_ptr) set \<Rightarrow> bool" where
  "tracks p G \<longleftrightarrow> profiler_ok p \<and> inj_on (\<lambda>n. lock_id n p) (knows p) \<and> G \<subseteq> knows p \<times> knows p \<and>
     edges (dp_lockHistory p) = map_prod (\<lambda>n. lock_id n p) (\<lambda>n. lock_id n p) ` G"

lemma trancl_image:
  assumes "inj_on f A" and "G \<subseteq> A \<times> A" and "a \<in> A" and "b \<in> A"
  shows "(f a, f b) \<in> (map_prod f f ` G)\<^sup>+ \<longleftrightarrow> (a, b) \<in> G\<^sup>+"
proof
  have "\<exists>a b. x = f a \<and> y = f b \<and> (a, b) \<in> G\<^sup>+" if "(x, y) \<in> (map_prod f f ` G)\<^sup>+" for x y
    using that
  proof induction
    case (base y)
    then show ?case by auto
  next
    case (step y z)
    then obtain a b c d where "x = f a" "y = f b" "(a, b) \<in> G\<^sup>+" "y = f c" "z = f d" "(c, d) \<in> G" by auto
    moreover from this have "b \<in> A" "c \<in> A"
      using assms(2) by (auto dest: trancl_subset_Sigma [OF assms(2), THEN subsetD])
    ultimately have "b = c" using assms(1) by (auto dest: inj_onD)
    with \<open>(a, b) \<in> G\<^sup>+\<close> \<open>(c, d) \<in> G\<close> \<open>x = f a\<close> \<open>z = f d\<close> show ?case by (blast intro: trancl_into_trancl)
  qed
  moreover assume "(f a, f b) \<in> (map_prod f f ` G)\<^sup>+"
  ultimately obtain a' b' where "f a = f a'" "f b = f b'" "(a', b') \<in> G\<^sup>+" by blast
  moreover from this have "a' \<in> A" "b' \<in> A" by (auto dest: trancl_subset_Sigma [OF assms(2), THEN subsetD])
  ultimately show "(a, b) \<in> G\<^sup>+" using assms(1,3,4) by (auto dest: inj_onD)
next
  show "(a, b) \<in> G\<^sup>+ \<Longrightarrow> (f a, f b) \<in> (map_prod f f ` G)\<^sup>+"
  proof (induction rule: trancl_induct)
    case (base b)
    then show ?case by (auto intro!: r_into_trancl image_eqI [of _ _ "(a, b)"])
  next
    case (step b c)
    then have "(f b, f c) \<in> map_prod f f ` G" by (auto intro!: image_eqI [of _ _ "(b, c)"])
    with step.IH show ?case by (rule trancl_into_trancl)
  qed
qed

lemma lock_id_named:
  assumes "profiler_ok p"
  shows "knows (named name p) = insert name (knows p)"
    and "n \<in> knows p \<or> n = name \<Longrightarrow> lock_id n (named name p) = lock_id n p"
    and "inj_on (\<lambda>n. lock_id n p) (knows p) \<Longrightarrow> inj_on (\<lambda>n. lock_id n p) (insert name (knows p))"
    and "inj_on (\<lambda>n. lock_id n p) (knows p) \<Longrightarrow> inj_on (\<lambda>n. lock_id n (named name p)) (insert name (knows p))"
proof -
  show "knows (named name p) = insert name (knows p)"
    by (auto simp: knows_def named_def split: option.split)
  show same: "lock_id n (named name p) = lock_id n p" if "n \<in> knows p \<or> n = name" for n
    using that by (auto simp: knows_def named_def lock_id_def split: option.split)
  have below: "n \<in> knows p \<Longrightarrow> lock_id n p < length (dp_nameToId p)" for n
    using assms by (auto simp: knows_def lock_id_def profiler_ok_def)
  assume inj: "inj_on (\<lambda>n. lock_id n p) (knows p)"
  have "lock_id name p \<notin> (\<lambda>n. lock_id n p) ` knows p" if "name \<notin> knows p"
  proof
    assume "lock_id name p \<in> (\<lambda>n. lock_id n p) ` knows p"
    then obtain n where "n \<in> knows p" "lock_id name p = lock_id n p" by blast
    with below [of n] that show False by (auto simp: knows_def lock_id_def domIff)
  qed
  then have "inj_on (\<lambda>n. lock_id n p) (insert name (knows p))"
    using inj by (cases "name \<in> knows p") (simp_all add: insert_absorb)
  then show inj': "inj_on (\<lambda>n. lock_id n p) (insert name (knows p))" .
  then show "inj_on (\<lambda>n. lock_id n (named name p)) (insert name (knows p))"
    using same by (auto simp: inj_on_def)
qed

lemma PushLock_names:
  "PushLock name stack p = Some (Inr (stack', p')) \<Longrightarrow> profiler_ok p \<Longrightarrow> dp_nameToId p' = dp_nameToId (named name p)"
  by (auto simp: PushLock_named bindr_Inr_iff Let_def split: if_splits)

lemma lock_id_cong: "dp_nameToId p' = dp_nameToId p \<Longrightarrow> lock_id n p' = lock_id n p"
  by (simp add: lock_id_def cong: option.case_cong)

lemma tracks_acyclic:
  assumes "tracks p G"
  shows "acyclic G"
proof -
  have sub: "G \<subseteq> knows p \<times> knows p" and inj: "inj_on (\<lambda>n. lock_id n p) (knows p)"
    and acyc: "acyclic (map_prod (\<lambda>n. lock_id n p) (\<lambda>n. lock_id n p) ` G)"
    using assms by (auto simp: tracks_def profiler_ok_def)
  have "(n, n) \<notin> G\<^sup>+" for n
  proof
    assume n: "(n, n) \<in> G\<^sup>+"
    then have "n \<in> knows p" using trancl_subset_Sigma [OF sub] by blast
    with n have "(lock_id n p, lock_id n p) \<in> (map_prod (\<lambda>n. lock_id n p) (\<lambda>n. lock_id n p) ` G)\<^sup>+"
      using trancl_image [OF inj sub] by blast
    with acyc show False by (simp add: acyclic_def)
  qed
  then show ?thesis by (simp add: acyclic_def)
qed

lemma push_tracks:
  assumes T: "tracks p G" and stack: "stack = map (\<lambda>n. lock_id n p) held" and held: "set held \<subseteq> knows p"
  shows "if acyclic (G \<union> nesting name held)
    then \<exists>p'. PushLock name stack p = Some (Inr (lock_id name p # stack, p')) \<and> tracks p' (G \<union> nesting name held) \<and>
           knows p' = insert name (knows p) \<and> (\<forall>n \<in> insert name (knows p). lock_id n p' = lock_id n p)
    else PushLock name stack p = Some (Inl (Crash ''DEADLOCK_DETECTED''))"
proof -
  let ?f = "\<lambda>n. lock_id n p" and ?A = "insert name (knows p)"
  have ok: "profiler_ok p" and sub: "G \<subseteq> knows p \<times> knows p" and E: "edges (dp_lockHistory p) = map_prod ?f ?f ` G"
    and inj: "inj_on ?f (knows p)" using T by (simp_all add: tracks_def)
  note inj' = lock_id_named(3) [OF ok inj, of name]
  have sub': "G \<subseteq> ?A \<times> ?A" using sub by auto
  note acyc = tracks_acyclic [OF T]
  have below: "\<forall>i \<in> set stack. i < length (dp_nameToId p)"
    using ok held by (auto simp: stack knows_def lock_id_def profiler_ok_def)
  have hd: "held \<noteq> [] \<Longrightarrow> hd stack = ?f (hd held) \<and> hd held \<in> knows p" "stack \<noteq> [] \<longleftrightarrow> held \<noteq> []"
    using held by (cases held; simp add: stack)+
  have ne: "?f name \<noteq> hd stack \<longleftrightarrow> name \<noteq> hd held" if "held \<noteq> []"
    using hd(1) [OF that] inj' by (auto dest: inj_onD)
  have path: "(?f name, hd stack) \<in> (edges (dp_lockHistory p))\<^sup>+ \<longleftrightarrow> (name, hd held) \<in> G\<^sup>+" if "held \<noteq> []"
    unfolding E using hd(1) [OF that] trancl_image [OF inj' sub'] by simp
  have cyc: "acyclic (G \<union> nesting name held) \<longleftrightarrow>
      \<not> (stack \<noteq> [] \<and> ?f name \<noteq> hd stack \<and> (?f name, hd stack) \<in> (edges (dp_lockHistory p))\<^sup>+)"
    using acyc ne path hd(2) by (auto simp: nesting_def rtrancl_eq_or_trancl)
  note spec = push_detects_deadlock [OF ok below refl, of name]
  show ?thesis
  proof (cases "acyclic (G \<union> nesting name held)")
    case True
    then obtain p' where p': "PushLock name stack p = Some (Inr (?f name # stack, p'))" "profiler_ok p'"
      "edges (dp_lockHistory p') = edges (dp_lockHistory p) \<union> (if stack \<noteq> [] \<and> ?f name \<noteq> hd stack then {(hd stack, ?f name)} else {})"
      using spec cyc by (auto split: if_splits)
    have names: "dp_nameToId p' = dp_nameToId (named name p)" using PushLock_names [OF p'(1) ok] .
    note same = lock_id_cong [OF names]
    have k: "knows p' = ?A" using lock_id_named(1) [OF ok, of name] by (simp add: knows_def names)
    have f: "n \<in> ?A \<Longrightarrow> lock_id n p' = ?f n" for n using same lock_id_named(2) [OF ok] by auto
    have "map_prod (\<lambda>n. lock_id n p') (\<lambda>n. lock_id n p') ` (G \<union> nesting name held) = map_prod ?f ?f ` (G \<union> nesting name held)"
      using f sub hd(1) by (intro image_cong refl) (auto simp: nesting_def split: if_splits)
    also have "\<dots> = edges (dp_lockHistory p')"
      unfolding p'(3) E using hd ne by (auto simp: nesting_def)
    finally have "tracks p' (G \<union> nesting name held)"
      unfolding tracks_def k using p'(2) sub hd(1) f inj' by (auto simp: nesting_def inj_on_def)
    with True p'(1) k f show ?thesis by auto
  next
    case False
    with spec cyc show ?thesis by simp
  qed
qed

lemma pop_returns:
  assumes "stack = map (\<lambda>n. lock_id n p) (name # held)" and "name \<in> knows p"
  shows "PopLock name stack p = Inr (tl stack, p)"
  using assms by (auto simp: PopLock_def knows_def lock_id_def)

section \<open>Whole runs\<close>

lemma profile_exact:
  assumes "tracks p G" and "\<And>t. st t = map (\<lambda>n. lock_id n p) (held t)" and "\<And>t. set (held t) \<subseteq> knows p"
    and "guarded es held"
  shows "if acyclic (G \<union> nestings es held) then \<exists>r. profile es p st = Some (Inr r)
    else profile es p st = Some (Inl (Crash ''DEADLOCK_DETECTED''))"
  using assms
proof (induction es arbitrary: p G st held)
  case Nil
  then show ?case by (simp add: tracks_acyclic)
next
  case (Cons e es)
  show ?case
  proof (cases e)
    case (Locked t name)
    note push = push_tracks [OF Cons.prems(1,2,3), of name t]
    let ?G = "G \<union> nesting name (held t)" and ?held = "held(t := name # held t)"
    show ?thesis
    proof (cases "acyclic ?G")
      case True
      with push obtain p' where p': "PushLock name (st t) p = Some (Inr (lock_id name p # st t, p'))" "tracks p' ?G"
        "knows p' = insert name (knows p)" "\<And>n. n \<in> insert name (knows p) \<Longrightarrow> lock_id n p' = lock_id n p"
        by auto
      have st: "(st(t := lock_id name p # st t)) u = map (\<lambda>n. lock_id n p') (?held u)" for u
        using Cons.prems(2,3) p'(4) by (auto simp: subset_iff)
      have "set (?held u) \<subseteq> knows p'" for u using Cons.prems(3) p'(3) by auto
      from Cons.IH [of p' ?G "st(t := lock_id name p # st t)" ?held, OF p'(2) st this] Cons.prems(4) show ?thesis
        by (simp add: Locked p'(1) Un_assoc del: fun_upd_apply split_paired_Ex)
    next
      case False
      then have "\<not> acyclic (?G \<union> nestings es ?held)" by (auto dest: acyclic_subset)
      with False push show ?thesis by (simp add: Locked Un_assoc)
    qed
  next
    case (Unlocked t name)
    with Cons.prems(4) obtain hs where h: "held t = name # hs" "guarded es (held(t := hs))"
      by (cases "held t") auto
    have pop: "PopLock name (st t) p = Inr (tl (st t), p)"
      using pop_returns [of "st t" p name hs] Cons.prems(2,3) [of t] h(1) by simp
    have "(st(t := tl (st t))) u = map (\<lambda>n. lock_id n p) ((held(t := hs)) u)" "set ((held(t := hs)) u) \<subseteq> knows p" for u
      using Cons.prems(2,3) [of u] h(1) by (auto simp: map_tl)
    from Cons.IH [of p G "st(t := tl (st t))" "held(t := hs)", OF Cons.prems(1) this h(2)] show ?thesis by (simp add: Unlocked pop h(1) del: fun_upd_apply split_paired_Ex)
  qed
qed

lemma tracks_start: "tracks no_profiler {}"
  using profiler_ok_init by (simp add: tracks_def no_profiler_def knows_def edges_def)

section \<open>Properties\<close>

text \<open>
  C10: The profiler is exact: in every run of threads whose guards nest it crashes if some locks have
  been locked inside one another in a circle, by whichever threads and at whatever times, and
  it returns from every call when there is no such circle; no other failure occurs.
\<close>

theorem lock_order_exact:
  assumes "guarded es (\<lambda>_. [])"
  shows "if acyclic (nestings es (\<lambda>_. [])) then \<exists>p stacks. profile es no_profiler (\<lambda>_. []) = Some (Inr (p, stacks))
    else profile es no_profiler (\<lambda>_. []) = Some (Inl (Crash ''DEADLOCK_DETECTED''))"
  using profile_exact [OF tracks_start _ _ assms, of "\<lambda>_. []"] by (simp split: if_splits)

text \<open>Two threads that lock two locks in different orders, one after the other: no deadlock, but a circle.\<close>

theorem lock_order_exact_witness:
  "profile [Locked 1 10, Locked 1 20, Unlocked 1 20, Unlocked 1 10, Locked 2 20, Locked 2 10]
     no_profiler (\<lambda>_. []) = Some (Inl (Crash ''DEADLOCK_DETECTED''))"
proof -
  let ?es = "[Locked 1 10, Locked 1 20, Unlocked 1 20, Unlocked 1 10, Locked 2 20, Locked 2 10]"
  have "guarded ?es (\<lambda>_. [])" by simp
  moreover have "nestings ?es (\<lambda>_. []) = {(10, 20), (20, 10)}" by (auto simp: nesting_def)
  moreover have "\<not> acyclic {(10 :: name_ptr, 20), (20, 10)}"
    by (auto simp: acyclic_insert)
  ultimately show ?thesis using lock_order_exact by metis
qed

end
