(* ===== verification/LockUse.thy ===== *)
theory LockUse
  imports LockOrder
begin

text \<open>
  Which locks the program's own operations take, in the order of their guards, and that no
  interleaving of them makes the deadlock profiler crash. All locks of one class have one name,
  because \<^verbatim>\<open>WRITE_LOCK\<close> passes \<^verbatim>\<open>typeid(this).name()\<close>. The branches of an operation that decide
  about a lock are arguments; everything else of it is left out here.
\<close>

section \<open>Guards of the operations\<close>

datatype lock_class = Session_lock | Service_lock | GameSessionManager_lock | UdpService_lock

datatype guard = Enter lock_class | Leave lock_class

definition locked :: "lock_class \<Rightarrow> guard list \<Rightarrow> guard list" where
  "locked c body = Enter c # body @ [Leave c]"

definition RegisterSend_guards :: "bool \<Rightarrow> guard list" where
  "RegisterSend_guards connected = (if connected then locked Session_lock [] else [])"

text \<open>The second \<open>connected\<close> is what \<^verbatim>\<open>RegisterSend\<close> reads.\<close>

definition Send_guards :: "bool \<Rightarrow> bool \<Rightarrow> bool \<Rightarrow> guard list" where
  "Send_guards connected registerSend connected' =
     (if connected
      then locked Session_lock [] @ (if registerSend then RegisterSend_guards connected' else [])
      else [])"

definition ProcessSend_guards :: "bool \<Rightarrow> bool \<Rightarrow> bool \<Rightarrow> guard list" where
  "ProcessSend_guards zero queue_empty connected =
     (if zero then []
      else locked Session_lock (if queue_empty then [] else RegisterSend_guards connected))"

definition AddSession_guards :: "guard list" where
  "AddSession_guards = locked Service_lock []"

definition ReleaseSession_guards :: "guard list" where
  "ReleaseSession_guards = locked Service_lock []"

definition Manager_Add_guards :: "guard list" where
  "Manager_Add_guards = locked GameSessionManager_lock []"

definition Manager_Remove_guards :: "guard list" where
  "Manager_Remove_guards = locked GameSessionManager_lock []"

definition Manager_Broadcast_guards :: "(bool \<times> bool \<times> bool) list \<Rightarrow> guard list" where
  "Manager_Broadcast_guards sends =
     locked GameSessionManager_lock (concat (map (\<lambda>(c, r, c'). Send_guards c r c') sends))"

definition ProcessConnect_guards :: "guard list" where
  "ProcessConnect_guards = AddSession_guards @ Manager_Add_guards"

definition ProcessDisconnect_guards :: "guard list" where
  "ProcessDisconnect_guards = Manager_Remove_guards @ ReleaseSession_guards"

text \<open>
  The functions of \<^verbatim>\<open>UdpService\<close>; \<^verbatim>\<open>Tick\<close> removes the clients it found after it has left the read
  guard, and sending a datagram inside a guard takes no lock.
\<close>

definition RegisterClient_guards :: "guard list" where
  "RegisterClient_guards = locked UdpService_lock []"

definition RemoveClient_guards :: "guard list" where
  "RemoveClient_guards = locked UdpService_lock []"

definition FindByAddr_guards :: "guard list" where
  "FindByAddr_guards = locked UdpService_lock []"

definition FindById_guards :: "guard list" where
  "FindById_guards = locked UdpService_lock []"

definition SendTo_guards :: "guard list" where
  "SendTo_guards = FindById_guards"

definition Broadcast_guards :: "guard list" where
  "Broadcast_guards = locked UdpService_lock []"

definition BroadcastExcept_guards :: "guard list" where
  "BroadcastExcept_guards = locked UdpService_lock []"

definition Tick_guards :: "u64 list \<Rightarrow> guard list" where
  "Tick_guards expired = locked UdpService_lock [] @ concat (map (\<lambda>_. RemoveClient_guards) expired)"

lemmas UdpService_guards_defs =
  RegisterClient_guards_def RemoveClient_guards_def FindByAddr_guards_def FindById_guards_def SendTo_guards_def
  Broadcast_guards_def BroadcastExcept_guards_def Tick_guards_def

text \<open>What a thread of the program does, as far as its locks go: these calls, in any order.\<close>

inductive task :: "guard list \<Rightarrow> bool" where
  "task (Send_guards connected registerSend connected')"
| "task (ProcessSend_guards zero queue_empty connected)"
| "task (Manager_Broadcast_guards sends)"
| "task ProcessConnect_guards"
| "task ProcessDisconnect_guards"
| "task RegisterClient_guards"
| "task RemoveClient_guards"
| "task FindByAddr_guards"
| "task FindById_guards"
| "task SendTo_guards"
| "task Broadcast_guards"
| "task BroadcastExcept_guards"
| "task (Tick_guards expired)"

fun lock_event_of :: "(lock_class \<Rightarrow> name_ptr) \<Rightarrow> u32 \<Rightarrow> guard \<Rightarrow> lock_event" where
  "lock_event_of name t (Enter c) = Locked t (name c)"
| "lock_event_of name t (Leave c) = Unlocked t (name c)"

fun thread_of :: "lock_event \<Rightarrow> u32" where
  "thread_of (Locked t name) = t"
| "thread_of (Unlocked t name) = t"

text \<open>Every thread has come some way through a sequence of calls.\<close>

definition program_run :: "(lock_class \<Rightarrow> name_ptr) \<Rightarrow> lock_event list \<Rightarrow> bool" where
  "program_run name es \<longleftrightarrow> (\<forall>t. \<exists>calls rest. list_all task calls \<and>
     filter (\<lambda>e. thread_of e = t) es @ rest = map (lock_event_of name t) (concat calls))"

section \<open>One thread at a time\<close>

text \<open>One event: whether a guard may do it, the nesting it adds, and the locks held after it.\<close>

definition held_after :: "lock_event \<Rightarrow> (u32 \<Rightarrow> name_ptr list) \<Rightarrow> u32 \<Rightarrow> name_ptr list" where
  "held_after e held = (case e of Locked t name \<Rightarrow> held(t := name # held t) | Unlocked t name \<Rightarrow> held(t := tl (held t)))"

definition allowed :: "lock_event \<Rightarrow> name_ptr list \<Rightarrow> bool" where
  "allowed e h = (case e of Locked t name \<Rightarrow> True | Unlocked t name \<Rightarrow> h \<noteq> [] \<and> hd h = name)"

definition nesting_of :: "lock_event \<Rightarrow> name_ptr list \<Rightarrow> (name_ptr \<times> name_ptr) set" where
  "nesting_of e h = (case e of Locked t name \<Rightarrow> nesting name h | Unlocked t name \<Rightarrow> {})"

lemma guarded_Cons: "guarded (e # es) held \<longleftrightarrow> allowed e (held (thread_of e)) \<and> guarded es (held_after e held)"
  by (cases e) (simp_all add: allowed_def held_after_def)

lemma nestings_Cons: "nestings (e # es) held = nesting_of e (held (thread_of e)) \<union> nestings es (held_after e held)"
  by (cases e) (simp_all add: nesting_of_def held_after_def)

lemma held_after_other [simp]: "t \<noteq> thread_of e \<Longrightarrow> held_after e held t = held t"
  by (cases e) (simp_all add: held_after_def)

lemma held_after_same: "held (thread_of e) = held' (thread_of e) \<Longrightarrow> held_after e held (thread_of e) = held_after e held' (thread_of e)"
  by (cases e) (simp_all add: held_after_def)

lemmas event_simps = guarded_Cons nestings_Cons guarded.simps(1) nestings.simps(1)

lemma thread_local:
  assumes "\<forall>e \<in> set es. thread_of e = t" and "held t = held' t"
  shows "guarded es held \<longleftrightarrow> guarded es held'" and "nestings es held = nestings es held'"
  using assms
proof (induction es arbitrary: held held')
  case (Cons e es)
  { case 1
    with Cons.IH(1) [of "held_after e held" "held_after e held'"] held_after_same [of held e held'] show ?case
      by (simp add: event_simps del: guarded.simps) }
  { case 2
    with Cons.IH(2) [of "held_after e held" "held_after e held'"] held_after_same [of held e held'] show ?case
      by (simp add: event_simps del: nestings.simps) }
qed simp_all

abbreviation only :: "u32 \<Rightarrow> lock_event list \<Rightarrow> lock_event list" where
  "only t es \<equiv> filter (\<lambda>e. thread_of e = t) es"

lemma only_other:
  assumes "u \<noteq> thread_of e"
  shows "guarded (only u es) (held_after e held) \<longleftrightarrow> guarded (only u es) held"
    and "nestings (only u es) (held_after e held) = nestings (only u es) held"
  using assms by (intro thread_local [of _ u]; simp)+

lemma guarded_threads: "(\<And>t. guarded (only t es) held) \<Longrightarrow> guarded es held"
proof (induction es arbitrary: held)
  case (Cons e es)
  have e: "allowed e (held (thread_of e)) \<and> guarded (only (thread_of e) es) (held_after e held)"
    using Cons.prems [of "thread_of e"] by (simp add: guarded_Cons del: guarded.simps)
  have "guarded (only u es) (held_after e held)" for u
    using Cons.prems [of u] e only_other(1) [of u e es held] by (cases "u = thread_of e") simp_all
  with Cons.IH e show ?case by (simp add: guarded_Cons del: guarded.simps)
qed simp

lemma nestings_threads: "nestings es held \<subseteq> (\<Union>t. nestings (only t es) held)"
proof (induction es arbitrary: held)
  case (Cons e es)
  have e: "nestings (only (thread_of e) (e # es)) held =
      nesting_of e (held (thread_of e)) \<union> nestings (only (thread_of e) es) (held_after e held)"
    by (simp add: nestings_Cons del: nestings.simps)
  have "nestings (only u es) (held_after e held) \<subseteq> nestings (only u (e # es)) held" for u
    using e only_other(2) [of u e es held] by (cases "u = thread_of e") auto
  then have "(\<Union>t. nestings (only t es) (held_after e held)) \<subseteq> (\<Union>t. nestings (only t (e # es)) held)"
    by (intro UN_mono subset_refl)
  then have later: "nestings es (held_after e held) \<subseteq> (\<Union>t. nestings (only t (e # es)) held)"
    by (rule order_trans [OF Cons.IH])
  have "nesting_of e (held (thread_of e)) \<subseteq> (\<Union>t. nestings (only t (e # es)) held)"
    by (rule order_trans [OF _ UN_upper [of "thread_of e"]]) (simp_all add: nestings_Cons del: nestings.simps)
  with later show ?case unfolding nestings_Cons by (rule Un_least [rotated])
qed simp

lemma guarded_prefix: "guarded (xs @ ys) held \<Longrightarrow> guarded xs held"
  by (induction xs arbitrary: held) (simp_all add: guarded_Cons del: guarded.simps(2,3))

lemma nestings_prefix: "nestings xs held \<subseteq> nestings (xs @ ys) held"
proof (induction xs arbitrary: held)
  case (Cons e xs)
  then show ?case unfolding append_Cons nestings_Cons by (intro Un_mono subset_refl)
qed simp

section \<open>Sequences of guards\<close>

text \<open>Guards that leave the held locks as they were, and add only nestings of \<open>N\<close> when entered with \<open>h\<close> on top.\<close>

definition neutral :: "(name_ptr \<times> name_ptr) set \<Rightarrow> u32 \<Rightarrow> name_ptr list \<Rightarrow> lock_event list \<Rightarrow> bool" where
  "neutral N t h es \<longleftrightarrow> (\<forall>held rest. held t = h \<longrightarrow>
     guarded (es @ rest) held = guarded rest held \<and> nestings (es @ rest) held \<subseteq> N \<union> nestings rest held)"

lemma neutral_Nil [simp]: "neutral N t h []"
  by (simp add: neutral_def)

lemma neutral_append: "neutral N t h es \<Longrightarrow> neutral N t h fs \<Longrightarrow> neutral N t h (es @ fs)"
  unfolding neutral_def append_assoc by blast

lemma neutral_concat: "\<forall>es \<in> set ess. neutral N t h es \<Longrightarrow> neutral N t h (concat ess)"
  by (induction ess) (auto intro: neutral_append)

lemma neutral_locked:
  assumes "neutral N t (n # h) es" and "nesting n h \<subseteq> N"
  shows "neutral N t h (Locked t n # es @ [Unlocked t n])"
  unfolding neutral_def
proof (intro allI impI)
  fix held :: "u32 \<Rightarrow> name_ptr list" and rest
  assume h: "held t = h"
  let ?in = "held(t := n # held t)"
  have inside: "guarded (es @ Unlocked t n # rest) ?in = guarded (Unlocked t n # rest) ?in"
    "nestings (es @ Unlocked t n # rest) ?in \<subseteq> N \<union> nestings (Unlocked t n # rest) ?in"
    using assms(1) h unfolding neutral_def by (auto simp del: guarded.simps nestings.simps)
  have "guarded (Unlocked t n # rest) ?in = guarded rest held" "nestings (Unlocked t n # rest) ?in = nestings rest held"
    by simp_all
  then show "guarded ((Locked t n # es @ [Unlocked t n]) @ rest) held = guarded rest held \<and>
      nestings ((Locked t n # es @ [Unlocked t n]) @ rest) held \<subseteq> N \<union> nestings rest held"
    using inside assms(2) h by (simp del: fun_upd_apply) blast
qed

section \<open>The calls\<close>

abbreviation order :: "(lock_class \<Rightarrow> name_ptr) \<Rightarrow> (name_ptr \<times> name_ptr) set" where
  "order name \<equiv> {(name GameSessionManager_lock, name Session_lock)}"

abbreviation events_of :: "(lock_class \<Rightarrow> name_ptr) \<Rightarrow> u32 \<Rightarrow> guard list \<Rightarrow> lock_event list" where
  "events_of name t gs \<equiv> map (lock_event_of name t) gs"

lemma neutral_locked_class:
  assumes "neutral N t (name c # h) (events_of name t body)" and "nesting (name c) h \<subseteq> N"
  shows "neutral N t h (events_of name t (locked c body))"
  using neutral_locked [OF assms] by (simp add: locked_def)

lemma neutral_RegisterSend:
  "nesting (name Session_lock) h \<subseteq> N \<Longrightarrow> neutral N t h (events_of name t (RegisterSend_guards connected))"
  unfolding RegisterSend_guards_def by (auto intro!: neutral_locked_class)

lemma neutral_Send:
  "nesting (name Session_lock) h \<subseteq> N \<Longrightarrow> neutral N t h (events_of name t (Send_guards connected registerSend connected'))"
  unfolding Send_guards_def by (auto intro!: neutral_locked_class neutral_append neutral_RegisterSend)

lemma nesting_simps [simp]: "nesting n [] = {}" "nesting n (n # h) = {}" "nesting n (m # h) \<subseteq> {(m, n)}"
  by (auto simp: nesting_def)

lemma neutral_task:
  assumes "task gs"
  shows "neutral (order name) t [] (events_of name t gs)"
  using assms
proof cases
  case (1 connected registerSend connected')
  then show ?thesis by (simp add: neutral_Send)
next
  case (2 zero queue_empty connected)
  then show ?thesis by (auto simp: ProcessSend_guards_def intro!: neutral_locked_class neutral_RegisterSend)
next
  case (3 sends)
  have "neutral (order name) t [name GameSessionManager_lock]
      (events_of name t (concat (map (\<lambda>(c, r, c'). Send_guards c r c') sends)))"
    unfolding map_concat by (intro neutral_concat) (auto intro!: neutral_Send [OF nesting_simps(3)])
  then show ?thesis unfolding 3 Manager_Broadcast_guards_def by (intro neutral_locked_class) simp_all
next
  case 4
  then show ?thesis
    by (auto simp: ProcessConnect_guards_def AddSession_guards_def Manager_Add_guards_def intro!: neutral_append neutral_locked_class)
next
  case 5
  then show ?thesis
    by (auto simp: ProcessDisconnect_guards_def ReleaseSession_guards_def Manager_Remove_guards_def
        intro!: neutral_append neutral_locked_class)
qed (auto simp: UdpService_guards_defs map_concat intro!: neutral_append neutral_concat neutral_locked_class)

lemma program_run_thread:
  assumes "program_run name es"
  shows "guarded (only t es) (\<lambda>_. []) \<and> nestings (only t es) (\<lambda>_. []) \<subseteq> order name"
proof -
  obtain calls rest where c: "list_all task calls" "only t es @ rest = events_of name t (concat calls)"
    using assms [unfolded program_run_def, rule_format, of t] by blast
  have "neutral (order name) t [] (events_of name t (concat calls))"
    unfolding map_concat by (intro neutral_concat) (use c(1) neutral_task in \<open>auto simp: list_all_iff\<close>)
  then have n: "guarded (only t es @ rest) (\<lambda>_. [])" "nestings (only t es @ rest) (\<lambda>_. []) \<subseteq> order name"
    unfolding c(2) neutral_def by (metis append_Nil2 guarded.simps(1), metis append_Nil2 nestings.simps(1) sup_bot.right_neutral)
  from guarded_prefix [OF n(1)] order_trans [OF nestings_prefix n(2)] show ?thesis by blast
qed

section \<open>Properties\<close>

text \<open>
  C11: The locks of the program are taken in one order, the session manager's before a session's and no
  others inside each other: whatever the threads do and however their calls interleave, the
  profiler never reports a deadlock, and every call of it returns.
\<close>

theorem program_locks_ordered:
  assumes "inj name" and "program_run name es"
  shows "\<exists>p stacks. profile es no_profiler (\<lambda>_. []) = Some (Inr (p, stacks))"
proof -
  have g: "guarded es (\<lambda>_. [])" using guarded_threads program_run_thread [OF assms(2)] by blast
  have sub: "nestings es (\<lambda>_. []) \<subseteq> order name"
    by (rule order_trans [OF nestings_threads]) (use program_run_thread [OF assms(2)] in blast)
  have "name GameSessionManager_lock \<noteq> name Session_lock" using assms(1) by (simp add: inj_eq)
  then have "acyclic (order name)" by (simp add: acyclic_insert) (simp add: acyclic_def)
  then have "acyclic ({} \<union> nestings es (\<lambda>_. []))" using acyclic_subset [OF _ sub] by simp
  with profile_exact [OF tracks_start _ _ g, of "\<lambda>_. []"] show ?thesis by (fastforce split: if_splits)
qed

text \<open>One thread in the middle of a broadcast while another completes a send.\<close>

fun demo_name :: "lock_class \<Rightarrow> name_ptr" where
  "demo_name Session_lock = 10"
| "demo_name Service_lock = 20"
| "demo_name GameSessionManager_lock = 30"
| "demo_name UdpService_lock = 40"

theorem program_locks_ordered_witness:
  "\<exists>p stacks. profile [Locked 1 30, Locked 2 10, Unlocked 2 10, Locked 1 10] no_profiler (\<lambda>_. []) = Some (Inr (p, stacks))"
proof (rule program_locks_ordered)
  show "inj demo_name"
  proof (rule injI)
    fix a b show "demo_name a = demo_name b \<Longrightarrow> a = b" by (cases a; cases b) simp_all
  qed
  let ?es = "[Locked 1 30, Locked 2 10, Unlocked 2 10, Locked 1 10]"
  show "program_run demo_name ?es"
    unfolding program_run_def
  proof
    fix t :: u32
    consider "t = 1" | "t = 2" | "t \<noteq> 1" "t \<noteq> 2" by blast
    then show "\<exists>calls rest. list_all task calls \<and>
        filter (\<lambda>e. thread_of e = t) ?es @ rest = events_of demo_name t (concat calls)"
    proof cases
      case 1
      have "list_all task [Manager_Broadcast_guards [(True, False, False)]]" by (simp add: task.intros)
      moreover have "filter (\<lambda>e. thread_of e = t) ?es @ [Unlocked 1 10, Unlocked 1 30] =
          events_of demo_name t (concat [Manager_Broadcast_guards [(True, False, False)]])"
        by (simp add: 1 Manager_Broadcast_guards_def Send_guards_def locked_def)
      ultimately show ?thesis by blast
    next
      case 2
      have "list_all task [ProcessSend_guards False True False]" by (simp add: task.intros)
      moreover have "filter (\<lambda>e. thread_of e = t) ?es @ [] = events_of demo_name t (concat [ProcessSend_guards False True False])"
        by (simp add: 2 ProcessSend_guards_def locked_def)
      ultimately show ?thesis by blast
    next
      case 3
      then show ?thesis by (intro exI [of _ "[]"]) simp
    qed
  qed
qed

end
