(* ===== verification/Allocator.thy ===== *)
theory Allocator
  imports Prelude "HOL-Library.Signed_Division"
begin

text \<open>
  \<^verbatim>\<open>ServerCore/Allocator\<close>: the allocators. \<^verbatim>\<open>malloc\<close> and \<^verbatim>\<open>VirtualAlloc\<close> are parameters; addresses are
  64-bit words and 0 is the null pointer. \<open>StompAllocator_Release\<close> gives the address handed to
  \<^verbatim>\<open>VirtualFree\<close>. Integer division of the source truncates towards zero.
\<close>

definition BaseAllocator_Alloc :: "(u64 \<Rightarrow> u64) \<Rightarrow> i32 \<Rightarrow> u64" where
  "BaseAllocator_Alloc malloc bytes = malloc (scast bytes)"

definition PAGE_SIZE :: i32 where "PAGE_SIZE = 0x1000"

definition StompAllocator_Alloc :: "(u64 \<Rightarrow> u64 option) \<Rightarrow> i32 \<Rightarrow> u64" where
  "StompAllocator_Alloc VirtualAlloc bytes =
     (let pageCount = (word_of_int (sint (bytes + PAGE_SIZE - 1) sdiv sint PAGE_SIZE) :: i64);
          dataOffset = pageCount * scast PAGE_SIZE - scast bytes;
          baseAddress = (case VirtualAlloc (pageCount * scast PAGE_SIZE) of None \<Rightarrow> 0 | Some a \<Rightarrow> a)
      in baseAddress + dataOffset)"

definition StompAllocator_Release :: "u64 \<Rightarrow> u64" where
  "StompAllocator_Release ptr =
     (let address = sint ptr; baseAddress = address - address smod sint PAGE_SIZE in word_of_int baseAddress)"

text \<open>\<^verbatim>\<open>StlAllocator<T>::allocate\<close> for a type of \<open>sizeofT\<close> bytes: the size is cut to 32 bits.\<close>

definition StlAllocator_allocate :: "(i32 \<Rightarrow> u64) \<Rightarrow> u64 \<Rightarrow> u64 \<Rightarrow> u64" where
  "StlAllocator_allocate xxalloc sizeofT count = xxalloc (ucast (count * sizeofT))"

section \<open>Page arithmetic\<close>

definition pages :: "nat \<Rightarrow> nat" where
  "pages bytes = (bytes + 4095) div 4096 * 4096"

lemma pages_bounds: "0 < bytes \<Longrightarrow> bytes \<le> pages bytes \<and> pages bytes < bytes + 4096"
  by (simp add: pages_def) linarith

lemma pages_dvd: "4096 dvd pages bytes"
  by (simp add: pages_def)

text \<open>The documented behaviour of \<^verbatim>\<open>VirtualAlloc\<close>: whole pages of the user half of the address space.\<close>

definition virtual_alloc_ok :: "(u64 \<Rightarrow> u64 option) \<Rightarrow> bool" where
  "virtual_alloc_ok va \<longleftrightarrow> (\<forall>n a. va n = Some a \<longrightarrow> 4096 dvd unat a \<and> unat a + unat n < 2 ^ 63)"

lemma page_words:
  assumes "0 < bytes" "bytes \<le> 2147479551"
  shows "(word_of_int (sint (of_nat bytes + PAGE_SIZE - 1 :: i32) sdiv sint PAGE_SIZE) :: i64) * scast PAGE_SIZE = of_nat (pages bytes)"
    and "(scast (of_nat bytes :: i32) :: u64) = of_nat bytes"
proof -
  have s: "sint (of_nat bytes :: i32) = int bytes"
    using assms by (simp add: sint_uint signed_take_bit_int_eq_self uint_nat unat_of_nat)
  show "(scast (of_nat bytes :: i32) :: u64) = of_nat bytes"
    unfolding scast_eq s by simp
  have "sint (4095 + of_nat bytes :: i32) = int bytes + 4095"
    using assms s by (simp add: sint_word_ariths(1) signed_take_bit_int_eq_self)
  then have "sint (of_nat bytes + PAGE_SIZE - 1 :: i32) sdiv sint PAGE_SIZE = int ((bytes + 4095) div 4096)"
    by (simp add: PAGE_SIZE_def signed_divide_int_def zdiv_int sgn_if add.commute)
  moreover have "(scast PAGE_SIZE :: u64) = 4096" by (simp add: PAGE_SIZE_def)
  ultimately show "(word_of_int (sint (of_nat bytes + PAGE_SIZE - 1 :: i32) sdiv sint PAGE_SIZE) :: i64) * scast PAGE_SIZE = of_nat (pages bytes)"
    by (simp add: pages_def)
qed

lemma Alloc_eq:
  assumes "0 < bytes" "bytes \<le> 2147479551"
  shows "StompAllocator_Alloc va (of_nat bytes) =
    (case va (of_nat (pages bytes)) of None \<Rightarrow> 0 | Some a \<Rightarrow> a) + of_nat (pages bytes - bytes)"
  using pages_bounds [OF assms(1)]
  by (simp add: StompAllocator_Alloc_def page_words [OF assms] of_nat_diff)

lemma signed_small: "n < 2 ^ 63 \<Longrightarrow> signed_take_bit 63 (int n) = int n"
  by (simp add: signed_take_bit_int_eq_self)

lemma Release_eq:
  assumes "4096 dvd unat a" "d < 4096" "unat a + d < 2 ^ 63"
  shows "StompAllocator_Release (a + of_nat d) = a"
proof -
  have u: "unat (a + of_nat d) = unat a + d" using assms by (simp add: unat_word_ariths(1) unat_of_nat)
  have "uint (a + of_nat d) = int (unat a + d)" unfolding u [symmetric] by simp
  then have s: "sint (a + of_nat d) = int (unat a + d)"
    using signed_small [OF assms(3)] by (simp add: sint_uint)
  have "int (unat a + d) smod 4096 = int d"
  proof -
    have "(unat a + d) mod 4096 = d" using assms(1,2) by (metis dvd_eq_mod_eq_0 mod_add_left_eq add_0 mod_less)
    then have "int (unat a + d) mod 4096 = int d" by (metis of_nat_mod of_nat_numeral)
    then show ?thesis by (simp add: smod_mod_positive)
  qed
  then show ?thesis by (simp add: StompAllocator_Release_def s PAGE_SIZE_def uint_nat [symmetric])
qed

lemma stl_allocate_size:
  "unat count * unat sizeofT < 2 ^ 31 \<Longrightarrow>
   StlAllocator_allocate xxalloc sizeofT count = xxalloc (of_nat (unat count * unat sizeofT))"
proof -
  assume "unat count * unat sizeofT < 2 ^ 31"
  then have "(ucast (count * sizeofT) :: i32) = of_nat (unat count * unat sizeofT)"
    by (intro word_unat_eq_iff [THEN iffD2])
       (simp add: unsigned_ucast_eq unat_of_nat unat_word_ariths take_bit_eq_mod del: of_nat_mult)
  then show ?thesis by (simp add: StlAllocator_allocate_def)
qed

section \<open>Properties\<close>

text \<open>
  A block of the stomp allocator starts in its first page and ends exactly where its last page ends,
  so the first byte past it is outside the allocation, and \<^verbatim>\<open>Release\<close> finds the address that
  \<^verbatim>\<open>VirtualAlloc\<close> gave; when \<^verbatim>\<open>VirtualAlloc\<close> fails the result is the offset in the page instead of a
  null pointer.
\<close>

theorem stomp_allocation:
  assumes "0 < bytes" and "bytes \<le> 2147479551" and "virtual_alloc_ok va"
  shows "case va (of_nat (pages bytes)) of
      Some a \<Rightarrow> let p = StompAllocator_Alloc va (of_nat bytes) in
        unat a \<le> unat p \<and> unat p < unat a + 4096 \<and> unat p + bytes = unat a + pages bytes \<and> StompAllocator_Release p = a
    | None \<Rightarrow> StompAllocator_Alloc va (of_nat bytes) = of_nat (pages bytes - bytes)"
proof (cases "va (of_nat (pages bytes))")
  case (Some a)
  note b = pages_bounds [OF assms(1)]
  have "unat (of_nat (pages bytes) :: u64) = pages bytes" using b assms(2) by (simp add: unat_of_nat)
  then have a: "4096 dvd unat a" "unat a + pages bytes < 2 ^ 63"
    using assms(3) Some unfolding virtual_alloc_ok_def by metis+
  have d: "pages bytes - bytes < 4096" using b by linarith
  have u: "unat (a + of_nat (pages bytes - bytes)) = unat a + (pages bytes - bytes)"
    using a(2) d by (simp add: unat_word_ariths(1) unat_of_nat)
  have "StompAllocator_Release (a + of_nat (pages bytes - bytes)) = a"
    using a(2) by (intro Release_eq [OF a(1) d]) linarith
  then show ?thesis using Some b d u by (auto simp: Alloc_eq [OF assms(1,2)] Let_def)
qed (simp add: Alloc_eq [OF assms(1,2)])

definition one_region :: "u64 \<Rightarrow> u64 option" where
  "one_region n = (if n = 0x1000 then Some 0x10000 else None)"

theorem stomp_allocation_witness:
  "unat (StompAllocator_Alloc one_region 40) + 40 = 0x10000 + 0x1000 \<and>
   StompAllocator_Release (StompAllocator_Alloc one_region 40) = 0x10000 \<and> StompAllocator_Alloc one_region 5000 = 3192"
proof -
  have p: "pages 40 = 4096" "pages 5000 = 8192" by (simp_all add: pages_def)
  have ok: "virtual_alloc_ok one_region" by (auto simp: virtual_alloc_ok_def one_region_def split: if_splits)
  from stomp_allocation [OF _ _ ok, of 40] stomp_allocation [OF _ _ ok, of 5000] show ?thesis
    by (simp add: p one_region_def Let_def)
qed

end
