(* ===== verification/Memory.thy ===== *)
theory Memory
  imports Allocator
begin

text \<open>
  \<^verbatim>\<open>ServerCore/Memory.h\<close> in the debug build, where \<^verbatim>\<open>xxalloc\<close> and \<^verbatim>\<open>xxrelease\<close> are the stomp allocator:
  the objects made by \<^verbatim>\<open>xnew\<close> and destroyed by \<^verbatim>\<open>xdelete\<close> (the deleter of \<^verbatim>\<open>MakeShared\<close>), over the regions
  that \<^verbatim>\<open>VirtualAlloc\<close> has handed out. A constructor or a destructor touches the bytes of its object;
  an access outside every region is a fault.
\<close>

section \<open>Regions\<close>

type_synonym regions = "u64 \<rightharpoonup> nat"

text \<open>\<^verbatim>\<open>VirtualFree\<close> with \<^verbatim>\<open>MEM_RELEASE\<close> gives a whole region back and fails for any other address.\<close>

definition VirtualFree :: "u64 \<Rightarrow> regions \<Rightarrow> bool \<times> regions" where
  "VirtualFree a m = (if a \<in> dom m then (True, m(a := None)) else (False, m))"

definition accessible :: "regions \<Rightarrow> u64 \<Rightarrow> nat \<Rightarrow> bool" where
  "accessible m p n \<longleftrightarrow> (\<exists>a \<in> dom m. unat a \<le> unat p \<and> unat p + n \<le> unat a + the (m a))"

text \<open>What \<^verbatim>\<open>VirtualAlloc\<close> promises when \<open>m\<close> is allocated: whole pages, not at 0, apart from all other regions.\<close>

definition virtual_alloc_fresh :: "regions \<Rightarrow> (u64 \<Rightarrow> u64 option) \<Rightarrow> bool" where
  "virtual_alloc_fresh m va \<longleftrightarrow> virtual_alloc_ok va \<and> (\<forall>n a. va n = Some a \<longrightarrow> 0 < a \<and>
     (\<forall>b len. m b = Some len \<longrightarrow> unat a + unat n \<le> unat b \<or> unat b + len \<le> unat a))"

section \<open>Objects\<close>

record object_heap =
  oh_regions :: regions
  oh_objects :: "u64 \<rightharpoonup> nat"

definition xxalloc :: "(u64 \<Rightarrow> u64 option) \<Rightarrow> i32 \<Rightarrow> regions \<Rightarrow> u64 \<times> regions" where
  "xxalloc va bytes m =
     (let asked = word_of_int (sint (bytes + PAGE_SIZE - 1) sdiv sint PAGE_SIZE) * scast PAGE_SIZE
      in (StompAllocator_Alloc va bytes, case va asked of None \<Rightarrow> m | Some a \<Rightarrow> m(a \<mapsto> unat asked)))"

definition xxrelease :: "u64 \<Rightarrow> regions \<Rightarrow> bool \<times> regions" where
  "xxrelease ptr m = VirtualFree (StompAllocator_Release ptr) m"

definition xnew :: "(u64 \<Rightarrow> u64 option) \<Rightarrow> nat \<Rightarrow> object_heap \<Rightarrow> (u64 \<times> object_heap) result" where
  "xnew va sizeofT h =
     (let (memory, m) = xxalloc va (of_nat sizeofT) (oh_regions h)
      in if accessible m memory sizeofT
         then Inr (memory, h\<lparr>oh_regions := m, oh_objects := (oh_objects h)(memory \<mapsto> sizeofT)\<rparr>)
         else Inl OutOfBounds)"

definition xdelete :: "u64 \<Rightarrow> object_heap \<Rightarrow> object_heap result" where
  "xdelete obj h =
     (case oh_objects h obj of None \<Rightarrow> Inl OutOfBounds
      | Some sizeofT \<Rightarrow>
          if accessible (oh_regions h) obj sizeofT
          then let (ok, m) = xxrelease obj (oh_regions h)
               in Inr (h\<lparr>oh_regions := m, oh_objects := (oh_objects h)(obj := None)\<rparr>)
          else Inl OutOfBounds)"

inductive heap_step :: "object_heap \<Rightarrow> object_heap \<Rightarrow> bool" where
  made: "0 < sizeofT \<Longrightarrow> sizeofT \<le> 2147479551 \<Longrightarrow> virtual_alloc_fresh (oh_regions h) va \<Longrightarrow>
    xnew va sizeofT h = Inr (p, h') \<Longrightarrow> heap_step h h'"
| deleted: "p \<in> dom (oh_objects h) \<Longrightarrow> xdelete p h = Inr h' \<Longrightarrow> heap_step h h'"

inductive heap_run :: "object_heap \<Rightarrow> bool" where
  heap_empty: "heap_run \<lparr>oh_regions = Map.empty, oh_objects = Map.empty\<rparr>"
| heap_next: "heap_run h \<Longrightarrow> heap_step h h' \<Longrightarrow> heap_run h'"

section \<open>Invariant\<close>

text \<open>Every object is at the end of its own region, and every region has its object.\<close>

definition heap_ok :: "object_heap \<Rightarrow> bool" where
  "heap_ok h \<longleftrightarrow>
     bij_betw StompAllocator_Release (dom (oh_objects h)) (dom (oh_regions h)) \<and>
     (\<forall>p n. oh_objects h p = Some n \<longrightarrow> 0 < n \<and>
        oh_regions h (StompAllocator_Release p) = Some (pages n) \<and> unat p + n = unat (StompAllocator_Release p) + pages n) \<and>
     (\<forall>a b k l. oh_regions h a = Some k \<longrightarrow> oh_regions h b = Some l \<longrightarrow> a \<noteq> b \<longrightarrow>
        unat a + k \<le> unat b \<or> unat b + l \<le> unat a) \<and>
     (\<forall>a \<in> dom (oh_regions h). 4096 \<le> unat a)"

lemma heap_ok_object:
  assumes "heap_ok h" and "oh_objects h p = Some n"
  shows "accessible (oh_regions h) p n" and "StompAllocator_Release p \<in> dom (oh_regions h)"
proof -
  have o: "0 < n" "oh_regions h (StompAllocator_Release p) = Some (pages n)"
    "unat p + n = unat (StompAllocator_Release p) + pages n" using assms by (auto simp: heap_ok_def)
  with pages_bounds [OF o(1)] have "unat (StompAllocator_Release p) \<le> unat p" by linarith
  with o show "accessible (oh_regions h) p n" "StompAllocator_Release p \<in> dom (oh_regions h)"
    by (auto simp: accessible_def intro!: bexI [of _ "StompAllocator_Release p"])
qed

lemma xdelete_eq:
  assumes "heap_ok h" and "oh_objects h p = Some n"
  shows "xdelete p h = Inr (h\<lparr>oh_regions := (oh_regions h)(StompAllocator_Release p := None),
    oh_objects := (oh_objects h)(p := None)\<rparr>)"
  using heap_ok_object [OF assms] assms(2) by (simp add: xdelete_def xxrelease_def VirtualFree_def)

lemma xdelete_ok:
  assumes "heap_ok h" and "oh_objects h p = Some n" and "xdelete p h = Inr h'"
  shows "heap_ok h'"
proof -
  let ?R = StompAllocator_Release
  have h': "h' = h\<lparr>oh_regions := (oh_regions h)(?R p := None), oh_objects := (oh_objects h)(p := None)\<rparr>"
    using xdelete_eq [OF assms(1,2)] assms(3) by simp
  have bij: "bij_betw ?R (dom (oh_objects h)) (dom (oh_regions h))" using assms(1) by (simp add: heap_ok_def)
  then have "bij_betw ?R (dom (oh_objects h) - {p}) (dom (oh_regions h) - {?R p})"
    by (rule bij_betw_DiffI) (use assms(2) heap_ok_object(2) [OF assms(1,2)] in \<open>auto simp: bij_betw_def\<close>)
  moreover have "?R q \<noteq> ?R p" if "q \<noteq> p" "oh_objects h q = Some k" for q k
    using bij that assms(2) by (auto simp: bij_betw_def dest: inj_onD)
  ultimately show ?thesis
    using assms(1) unfolding h' heap_ok_def by auto
qed

lemma pages_asked:
  assumes "0 < n" and "n \<le> 2147479551"
  shows "unat (of_nat (pages n) :: u64) = pages n" and "n \<le> pages n" and "pages n - n < 4096"
    and "xxalloc va (of_nat n) m =
      (StompAllocator_Alloc va (of_nat n), case va (of_nat (pages n)) of None \<Rightarrow> m | Some a \<Rightarrow> m(a \<mapsto> pages n))"
proof -
  note b = pages_bounds [OF assms(1)]
  show u: "unat (of_nat (pages n) :: u64) = pages n" using b assms(2) by (simp add: unat_of_nat)
  show "n \<le> pages n" "pages n - n < 4096" using b by linarith+
  show "xxalloc va (of_nat n) m =
      (StompAllocator_Alloc va (of_nat n), case va (of_nat (pages n)) of None \<Rightarrow> m | Some a \<Rightarrow> m(a \<mapsto> pages n))"
    using page_words(1) [OF assms] u by (simp add: xxalloc_def Let_def split: option.split)
qed

lemma xnew_eq:
  assumes "heap_ok h" and n: "0 < n" "n \<le> 2147479551" and "virtual_alloc_fresh (oh_regions h) va"
  shows "case va (of_nat (pages n)) of
      None \<Rightarrow> xnew va n h = Inl OutOfBounds
    | Some a \<Rightarrow> \<exists>p. xnew va n h = Inr (p, h\<lparr>oh_regions := (oh_regions h)(a \<mapsto> pages n), oh_objects := (oh_objects h)(p \<mapsto> n)\<rparr>) \<and>
        StompAllocator_Release p = a \<and> unat p + n = unat a + pages n"
proof -
  have ok: "virtual_alloc_ok va" using assms(4) by (simp add: virtual_alloc_fresh_def)
  note stomp = stomp_allocation [OF n ok] and asked = pages_asked [OF n]
  show ?thesis
  proof (cases "va (of_nat (pages n))")
    case None
    have "\<not> accessible (oh_regions h) (of_nat (pages n - n)) n"
    proof
      assume "accessible (oh_regions h) (of_nat (pages n - n)) n"
      then obtain a where "a \<in> dom (oh_regions h)" "unat a \<le> unat (of_nat (pages n - n) :: u64)" by (auto simp: accessible_def)
      moreover have "unat (of_nat (pages n - n) :: u64) < 4096" using asked(3) by (simp add: unat_of_nat)
      moreover have "4096 \<le> unat a" using assms(1) \<open>a \<in> dom (oh_regions h)\<close> by (simp add: heap_ok_def)
      ultimately show False by linarith
    qed
    then show ?thesis using None stomp by (simp add: xnew_def asked(4))
  next
    case (Some a)
    let ?p = "StompAllocator_Alloc va (of_nat n)"
    have p: "unat a \<le> unat ?p" "unat ?p + n = unat a + pages n" "StompAllocator_Release ?p = a"
      using stomp Some by (simp_all add: Let_def)
    then have "accessible ((oh_regions h)(a \<mapsto> pages n)) ?p n" by (auto simp: accessible_def)
    with Some p show ?thesis by (simp add: xnew_def asked(4))
  qed
qed

lemma xnew_ok:
  assumes "heap_ok h" and n: "0 < n" "n \<le> 2147479551" and fresh: "virtual_alloc_fresh (oh_regions h) va"
    and "xnew va n h = Inr (p, h')"
  shows "heap_ok h'"
proof -
  note eq = xnew_eq [OF assms(1-4)] and asked = pages_asked [OF n]
  from eq assms(5) obtain a where a: "va (of_nat (pages n)) = Some a" by (cases "va (of_nat (pages n))") auto
  with eq assms(5) have h': "h' = h\<lparr>oh_regions := (oh_regions h)(a \<mapsto> pages n), oh_objects := (oh_objects h)(p \<mapsto> n)\<rparr>"
    and p: "StompAllocator_Release p = a" "unat p + n = unat a + pages n" by auto
  have new: "unat a + pages n \<le> unat b \<or> unat b + len \<le> unat a" if "oh_regions h b = Some len" for b len
    using fresh a that asked(1) unfolding virtual_alloc_fresh_def by metis
  have "4096 dvd unat a" "0 < a" using fresh a by (auto simp: virtual_alloc_fresh_def virtual_alloc_ok_def)
  then have low: "4096 \<le> unat a" by (auto dest: dvd_imp_le simp: word_less_nat_alt)
  let ?R = StompAllocator_Release
  have bij: "bij_betw ?R (dom (oh_objects h)) (dom (oh_regions h))" using assms(1) by (simp add: heap_ok_def)
  have "a \<notin> dom (oh_regions h)"
  proof
    assume "a \<in> dom (oh_regions h)"
    then have "a \<in> ?R ` dom (oh_objects h)" using bij by (simp add: bij_betw_def)
    then obtain q l where "oh_objects h q = Some l" "a = ?R q" by blast
    then have l: "0 < l" "oh_regions h a = Some (pages l)" using assms(1) by (auto simp: heap_ok_def)
    with new [OF l(2)] pages_bounds [OF l(1)] pages_bounds [OF n(1)] n(1) show False by linarith
  qed
  then have "p \<notin> dom (oh_objects h)" using bij p(1) by (auto simp: bij_betw_def)
  then have "bij_betw ?R (dom (oh_objects h) \<union> {p}) (dom (oh_regions h) \<union> {?R p})"
    using notIn_Un_bij_betw [OF _ _ bij] \<open>a \<notin> dom (oh_regions h)\<close> p(1) by blast
  then have bij': "bij_betw ?R (insert p (dom (oh_objects h))) (insert a (dom (oh_regions h)))"
    using p(1) by simp
  have old: "?R q \<noteq> a" if "oh_objects h q = Some k" for q k
    using that bij \<open>a \<notin> dom (oh_regions h)\<close> by (auto simp: bij_betw_def)
  have objects: "0 < k \<and> oh_regions h' (?R q) = Some (pages k) \<and> unat q + k = unat (?R q) + pages k"
    if "oh_objects h' q = Some k" for q k
    using that assms(1) n(1) p old by (cases "q = p") (auto simp: h' heap_ok_def)
  have apart: "unat b + k \<le> unat c \<or> unat c + l \<le> unat b"
    if "oh_regions h' b = Some k" "oh_regions h' c = Some l" "b \<noteq> c" for b c k l
  proof -
    note prems = that
    have regs: "oh_regions h' x = (if x = a then Some (pages n) else oh_regions h x)" for x by (simp add: h')
    consider "b = a" "k = pages n" "oh_regions h c = Some l" | "c = a" "l = pages n" "oh_regions h b = Some k"
      | "oh_regions h b = Some k" "oh_regions h c = Some l"
      using prems unfolding regs by (metis option.inject)
    then show ?thesis
    proof cases
      case 1
      with new [of c l] show ?thesis by simp
    next
      case 2
      with new [of b k] show ?thesis by blast
    next
      case 3
      with assms(1) prems(3) show ?thesis unfolding heap_ok_def by blast
    qed
  qed
  have "\<forall>b \<in> dom (oh_regions h'). 4096 \<le> unat b"
    using low assms(1) by (simp add: h' heap_ok_def)
  moreover have "bij_betw ?R (dom (oh_objects h')) (dom (oh_regions h'))" using bij' by (simp add: h')
  ultimately show ?thesis unfolding heap_ok_def using objects apart by blast
qed

lemma heap_run_ok: "heap_run h \<Longrightarrow> heap_ok h"
proof (induction rule: heap_run.induct)
  case heap_empty
  then show ?case by (simp add: heap_ok_def bij_betw_def)
next
  case (heap_next h h')
  from heap_next(2,3) show ?case by cases (auto intro: xnew_ok xdelete_ok)
qed

lemma ranges_apart:
  fixes p :: nat
  assumes "p + n = a + N" and "q + k = b + K" and "n \<le> N" and "k \<le> K" and "a + N \<le> b \<or> b + K \<le> a"
  shows "p + n \<le> q \<or> q + k \<le> p"
  using assms by linarith

section \<open>Properties\<close>

text \<open>
  C32: In the debug build, whatever objects are made and deleted in whatever order: the live objects
  do not overlap, each one ends exactly where its own region ends, there is one region for each
  object and no other (nothing leaks), any live object can be deleted and only its region is given
  back, and an object that gets no pages ends the process at once in its constructor.
\<close>

theorem objects_in_own_pages:
  assumes "heap_run h"
  shows "bij_betw StompAllocator_Release (dom (oh_objects h)) (dom (oh_regions h)) \<and>
    (\<forall>p n. oh_objects h p = Some n \<longrightarrow>
       unat p + n = unat (StompAllocator_Release p) + the (oh_regions h (StompAllocator_Release p)) \<and>
       xdelete p h = Inr (h\<lparr>oh_regions := (oh_regions h)(StompAllocator_Release p := None), oh_objects := (oh_objects h)(p := None)\<rparr>) \<and>
       (\<forall>q k. oh_objects h q = Some k \<longrightarrow> q \<noteq> p \<longrightarrow> unat p + n \<le> unat q \<or> unat q + k \<le> unat p)) \<and>
    (\<forall>n va. 0 < n \<longrightarrow> n \<le> 2147479551 \<longrightarrow> virtual_alloc_fresh (oh_regions h) va \<longrightarrow> va (of_nat (pages n)) = None \<longrightarrow>
       xnew va n h = Inl OutOfBounds)"
proof (intro conjI allI impI)
  note ok = heap_run_ok [OF assms]
  show bij: "bij_betw StompAllocator_Release (dom (oh_objects h)) (dom (oh_regions h))" using ok by (simp add: heap_ok_def)
  have o: "0 < n" "oh_regions h (StompAllocator_Release p) = Some (pages n)" "n \<le> pages n"
    "unat p + n = unat (StompAllocator_Release p) + pages n" if "oh_objects h p = Some n" for p n
    using ok that pages_bounds [of n] by (auto simp: heap_ok_def)
  fix p n
  assume p: "oh_objects h p = Some n"
  show "unat p + n = unat (StompAllocator_Release p) + the (oh_regions h (StompAllocator_Release p))" using o [OF p] by simp
  show "xdelete p h = Inr (h\<lparr>oh_regions := (oh_regions h)(StompAllocator_Release p := None), oh_objects := (oh_objects h)(p := None)\<rparr>)"
    by (rule xdelete_eq [OF ok p])
  fix q k
  assume q: "oh_objects h q = Some k" "q \<noteq> p"
  have "StompAllocator_Release p \<noteq> StompAllocator_Release q" using bij p q by (auto simp: bij_betw_def dest: inj_onD)
  then have "unat (StompAllocator_Release p) + pages n \<le> unat (StompAllocator_Release q) \<or>
      unat (StompAllocator_Release q) + pages k \<le> unat (StompAllocator_Release p)"
    using ok o(2) [OF p] o(2) [OF q(1)] unfolding heap_ok_def by blast
  then show "unat p + n \<le> unat q \<or> unat q + k \<le> unat p"
    by (rule ranges_apart [OF o(4) [OF p] o(4) [OF q(1)] o(3) [OF p] o(3) [OF q(1)]])
next
  fix n va
  assume n: "0 < n" "n \<le> 2147479551" "virtual_alloc_fresh (oh_regions h) va" and none: "va (of_nat (pages n)) = None"
  show "xnew va n h = Inl OutOfBounds" using xnew_eq [OF heap_run_ok [OF assms] n] unfolding none by simp
qed

theorem objects_in_own_pages_witness:
  "\<exists>h. oh_objects h = [0x10FD8 \<mapsto> 40] \<and> oh_regions h = [0x10000 \<mapsto> 4096] \<and>
     xdelete 0x10FD8 h = Inr \<lparr>oh_regions = Map.empty, oh_objects = Map.empty\<rparr>"
proof -
  let ?e = "\<lparr>oh_regions = Map.empty, oh_objects = Map.empty\<rparr>"
  let ?h = "\<lparr>oh_regions = [0x10000 \<mapsto> 4096], oh_objects = [0x10FD8 \<mapsto> 40 :: nat]\<rparr>"
  have p: "pages 40 = 4096" by (simp add: pages_def)
  have "virtual_alloc_fresh (oh_regions ?e) one_region"
    by (auto simp: virtual_alloc_fresh_def virtual_alloc_ok_def one_region_def split: if_splits)
  moreover have "xnew one_region 40 ?e = Inr (0x10FD8, ?h)"
    using pages_asked(4) [where n = 40 and va = one_region and m = Map.empty] Alloc_eq [where bytes = 40 and va = one_region]
    by (simp add: xnew_def p one_region_def accessible_def)
  ultimately have "heap_step ?e ?h" by (intro made [of 40]) simp_all
  then have run: "heap_run ?h" by (rule heap_next [OF heap_empty])
  have "StompAllocator_Release 0x10FD8 = 0x10000"
    using Release_eq [of "0x10000" "0xFD8"] by simp
  with objects_in_own_pages [OF run] show ?thesis by (intro exI [of _ ?h]) simp
qed

end
