(* ===== verification/RefCounting.thy ===== *)
theory RefCounting
  imports Prelude
begin

text \<open>
  \<^verbatim>\<open>ServerCore/RefCounting\<close>: reference-counted objects and the pointer class \<^verbatim>\<open>TSharedPtr\<close>. An object is
  the address of its counter; a counter that is not there belongs to no object or to a deleted one,
  and touching it is the fault \<open>OutOfBounds\<close>. A pointer variable that is not in use is null. The objects
  counted have no \<^verbatim>\<open>TSharedPtr\<close> members of their own, so deleting one changes no pointer.
\<close>

type_synonym object_ref = nat
type_synonym var = nat

record rc_state =
  rc_count :: "object_ref \<Rightarrow> i32 option"
  rc_ptr :: "var \<Rightarrow> object_ref option"

section \<open>RefCountable\<close>

definition RefCountable :: "object_ref \<Rightarrow> rc_state \<Rightarrow> rc_state" where
  "RefCountable a s = s\<lparr>rc_count := (rc_count s)(a := Some 1)\<rparr>"

definition AddRef :: "object_ref \<Rightarrow> rc_state \<Rightarrow> (i32 \<times> rc_state) result" where
  "AddRef a s = (case rc_count s a of None \<Rightarrow> Inl OutOfBounds
     | Some c \<Rightarrow> Inr (c + 1, s\<lparr>rc_count := (rc_count s)(a := Some (c + 1))\<rparr>))"

definition ReleaseRef :: "object_ref \<Rightarrow> rc_state \<Rightarrow> (i32 \<times> rc_state) result" where
  "ReleaseRef a s = (case rc_count s a of None \<Rightarrow> Inl OutOfBounds
     | Some c \<Rightarrow> let refCount = c - 1 in
         Inr (refCount, s\<lparr>rc_count := (rc_count s)(a := (if refCount = 0 then None else Some refCount))\<rparr>))"

section \<open>TSharedPtr\<close>

definition put_ptr :: "var \<Rightarrow> object_ref option \<Rightarrow> rc_state \<Rightarrow> rc_state" where
  "put_ptr v p s = s\<lparr>rc_ptr := (rc_ptr s)(v := p)\<rparr>"

definition SharedPtr_Set :: "var \<Rightarrow> object_ref option \<Rightarrow> rc_state \<Rightarrow> rc_state result" where
  "SharedPtr_Set v ptr s =
     (let s = put_ptr v ptr s
      in case ptr of None \<Rightarrow> Inr s | Some a \<Rightarrow> bindr (AddRef a s) (\<lambda>(_, s). Inr s))"

definition SharedPtr_Release :: "var \<Rightarrow> rc_state \<Rightarrow> rc_state result" where
  "SharedPtr_Release v s =
     (case rc_ptr s v of None \<Rightarrow> Inr s
      | Some a \<Rightarrow> bindr (ReleaseRef a s) (\<lambda>(_, s). Inr (put_ptr v None s)))"

definition SharedPtr_of_raw :: "var \<Rightarrow> object_ref option \<Rightarrow> rc_state \<Rightarrow> rc_state result" where
  "SharedPtr_of_raw v ptr s = SharedPtr_Set v ptr s"

definition SharedPtr_copy :: "var \<Rightarrow> var \<Rightarrow> rc_state \<Rightarrow> rc_state result" where
  "SharedPtr_copy v other s = SharedPtr_Set v (rc_ptr s other) s"

definition SharedPtr_move :: "var \<Rightarrow> var \<Rightarrow> rc_state \<Rightarrow> rc_state" where
  "SharedPtr_move v other s = put_ptr other None (put_ptr v (rc_ptr s other) s)"

definition SharedPtr_delete :: "var \<Rightarrow> rc_state \<Rightarrow> rc_state result" where
  "SharedPtr_delete v s = SharedPtr_Release v s"

definition SharedPtr_copy_assign :: "var \<Rightarrow> var \<Rightarrow> rc_state \<Rightarrow> rc_state result" where
  "SharedPtr_copy_assign v other s =
     (if rc_ptr s v \<noteq> rc_ptr s other
      then bindr (SharedPtr_Release v s) (\<lambda>s. SharedPtr_Set v (rc_ptr s other) s) else Inr s)"

definition SharedPtr_move_assign :: "var \<Rightarrow> var \<Rightarrow> rc_state \<Rightarrow> rc_state result" where
  "SharedPtr_move_assign v other s =
     bindr (SharedPtr_Release v s) (\<lambda>s. let s = put_ptr v (rc_ptr s other) s in Inr (put_ptr other None s))"

section \<open>Programs over such pointers\<close>

text \<open>\<open>rm_raw a\<close> is how many references to \<open>a\<close> are held by hand: the one of the creator and those of \<^verbatim>\<open>AddRef\<close>.\<close>

record rc_machine =
  rm_state :: rc_state
  rm_raw :: "object_ref \<Rightarrow> nat"

inductive rc_step :: "rc_machine \<Rightarrow> rc_machine \<Rightarrow> bool" where
  create: "rc_count s a = None \<Longrightarrow>
    rc_step \<lparr>rm_state = s, rm_raw = raw\<rparr> \<lparr>rm_state = RefCountable a s, rm_raw = raw(a := 1)\<rparr>"
| by_hand_add: "0 < raw a \<Longrightarrow> AddRef a s = Inr (c, s') \<Longrightarrow>
    rc_step \<lparr>rm_state = s, rm_raw = raw\<rparr> \<lparr>rm_state = s', rm_raw = raw(a := raw a + 1)\<rparr>"
| by_hand_release: "0 < raw a \<Longrightarrow> ReleaseRef a s = Inr (c, s') \<Longrightarrow>
    rc_step \<lparr>rm_state = s, rm_raw = raw\<rparr> \<lparr>rm_state = s', rm_raw = raw(a := raw a - 1)\<rparr>"
| of_raw: "0 < raw a \<Longrightarrow> rc_ptr s v = None \<Longrightarrow> SharedPtr_of_raw v (Some a) s = Inr s' \<Longrightarrow>
    rc_step \<lparr>rm_state = s, rm_raw = raw\<rparr> \<lparr>rm_state = s', rm_raw = raw\<rparr>"
| copies: "rc_ptr s v = None \<Longrightarrow> SharedPtr_copy v u s = Inr s' \<Longrightarrow>
    rc_step \<lparr>rm_state = s, rm_raw = raw\<rparr> \<lparr>rm_state = s', rm_raw = raw\<rparr>"
| moves_from: "rc_ptr s v = None \<Longrightarrow> v \<noteq> u \<Longrightarrow>
    rc_step \<lparr>rm_state = s, rm_raw = raw\<rparr> \<lparr>rm_state = SharedPtr_move v u s, rm_raw = raw\<rparr>"
| deletes: "SharedPtr_delete v s = Inr s' \<Longrightarrow>
    rc_step \<lparr>rm_state = s, rm_raw = raw\<rparr> \<lparr>rm_state = s', rm_raw = raw\<rparr>"
| copy_assigns: "SharedPtr_copy_assign v u s = Inr s' \<Longrightarrow>
    rc_step \<lparr>rm_state = s, rm_raw = raw\<rparr> \<lparr>rm_state = s', rm_raw = raw\<rparr>"
| move_assigns: "SharedPtr_move_assign v u s = Inr s' \<Longrightarrow>
    rc_step \<lparr>rm_state = s, rm_raw = raw\<rparr> \<lparr>rm_state = s', rm_raw = raw\<rparr>"

inductive rc_run :: "nat \<Rightarrow> rc_machine \<Rightarrow> rc_machine \<Rightarrow> bool" where
  rrun_refl: "rc_run 0 m m"
| rrun_step: "rc_run n m k \<Longrightarrow> rc_step k l \<Longrightarrow> rc_run (Suc n) m l"

definition rc_start :: rc_machine where
  "rc_start = \<lparr>rm_state = \<lparr>rc_count = (\<lambda>_. None), rc_ptr = (\<lambda>_. None)\<rparr>, rm_raw = (\<lambda>_. 0)\<rparr>"

section \<open>Counters and owners\<close>

definition owners :: "(var \<Rightarrow> object_ref option) \<Rightarrow> object_ref \<Rightarrow> nat" where
  "owners ptr a = card {v. ptr v = Some a}"

definition count_is :: "i32 option \<Rightarrow> nat \<Rightarrow> bool" where
  "count_is c n \<longleftrightarrow> (case c of None \<Rightarrow> n = 0 | Some w \<Rightarrow> 0 < n \<and> unat w = n)"

definition rc_ok :: "nat \<Rightarrow> (object_ref \<Rightarrow> nat) \<Rightarrow> rc_state \<Rightarrow> bool" where
  "rc_ok n raw s \<longleftrightarrow> finite {v. rc_ptr s v \<noteq> None} \<and>
     (\<forall>a. raw a + owners (rc_ptr s) a \<le> n \<and> count_is (rc_count s a) (raw a + owners (rc_ptr s) a))"

lemma count_add: "count_is (Some c) n \<Longrightarrow> n < 2 ^ 32 - 1 \<Longrightarrow> count_is (Some (c + 1)) (n + 1)"
  by (simp add: count_is_def unat_word_ariths(1))

lemma count_release: "count_is (Some c) n \<Longrightarrow> count_is (if c - 1 = 0 then None else Some (c - 1)) (n - 1)"
proof -
  assume n: "count_is (Some c) n"
  then have c: "c \<noteq> 0" "unat c = n" "0 < n" by (auto simp: count_is_def)
  then have "unat (c - 1) = n - 1" by (simp add: unat_minus_one)
  moreover have "c - 1 \<noteq> 0 \<Longrightarrow> 0 < unat (c - 1)" by (simp add: unat_gt_0)
  moreover have "c - 1 = 0 \<Longrightarrow> n - 1 = 0" using c(2) calculation(1) by simp
  ultimately show ?thesis unfolding count_is_def by (simp split: if_split)
qed

lemma count_pos: "count_is c n \<Longrightarrow> 0 < n \<Longrightarrow> \<exists>w. c = Some w"
  by (auto simp: count_is_def split: option.splits)

lemma owners_finite:
  assumes "finite {v. ptr v \<noteq> None}"
  shows "finite {v. ptr v = Some a}"
  by (rule finite_subset [OF _ assms]) auto

lemma finite_put: "finite {v. ptr v \<noteq> None} \<Longrightarrow> finite {w. (ptr(v := p)) w \<noteq> None}"
  by (rule finite_subset [of _ "insert v {v. ptr v \<noteq> None}"]) auto

lemma owners_gain:
  assumes "finite {v. ptr v \<noteq> None}" "ptr v = None"
  shows "owners (ptr(v := Some a)) b = owners ptr b + (if b = a then 1 else 0)"
proof -
  have "{w. (ptr(v := Some a)) w = Some b} = (if b = a then insert v {w. ptr w = Some b} else {w. ptr w = Some b})"
    using assms(2) by auto
  then show ?thesis using owners_finite [OF assms(1), of b] assms(2) by (cases "b = a") (simp_all add: owners_def)
qed

lemma owners_lose:
  assumes "finite {v. ptr v \<noteq> None}" "ptr v = Some a"
  shows "owners (ptr(v := None)) b = owners ptr b - (if b = a then 1 else 0)" and "0 < owners ptr a"
proof -
  have "{w. (ptr(v := None)) w = Some b} = {w. ptr w = Some b} - (if b = a then {v} else {})"
    using assms(2) by auto
  then show "owners (ptr(v := None)) b = owners ptr b - (if b = a then 1 else 0)"
    using owners_finite [OF assms(1), of b] assms(2) by (simp add: owners_def)
  show "0 < owners ptr a"
    using owners_finite [OF assms(1), of a] assms(2) by (auto simp: owners_def card_gt_0_iff)
qed

section \<open>Every operation keeps the counters exact\<close>

lemma AddRef_ok:
  assumes "rc_ok n raw s" "0 < raw a + owners (rc_ptr s) a" "n < 2 ^ 32 - 1"
  obtains c s' where "AddRef a s = Inr (c, s')" "rc_ptr s' = rc_ptr s"
    "\<And>b. count_is (rc_count s' b) (raw b + owners (rc_ptr s) b + (if b = a then 1 else 0))"
proof -
  have a: "count_is (rc_count s b) (raw b + owners (rc_ptr s) b)" "raw b + owners (rc_ptr s) b \<le> n" for b
    using assms(1) by (simp_all add: rc_ok_def)
  obtain c where c: "rc_count s a = Some c" using count_pos [OF a(1) assms(2)] by blast
  have "count_is (Some (c + 1)) (raw a + owners (rc_ptr s) a + 1)"
    using count_add [of c] a [of a] c assms(3) by simp
  then show thesis
    using that [of "c + 1" "s\<lparr>rc_count := (rc_count s)(a := Some (c + 1))\<rparr>"] a c by (simp add: AddRef_def)
qed

lemma ReleaseRef_ok:
  assumes "rc_ok n raw s" "0 < raw a + owners (rc_ptr s) a"
  obtains c s' where "ReleaseRef a s = Inr (c, s')" "rc_ptr s' = rc_ptr s"
    "\<And>b. count_is (rc_count s' b) (raw b + owners (rc_ptr s) b - (if b = a then 1 else 0))"
proof -
  have a: "count_is (rc_count s b) (raw b + owners (rc_ptr s) b)" for b
    using assms(1) by (simp add: rc_ok_def)
  obtain c where c: "rc_count s a = Some c" using count_pos [OF a assms(2)] by blast
  have "count_is (if c - 1 = 0 then None else Some (c - 1)) (raw a + owners (rc_ptr s) a - 1)"
    using count_release [of c] a [of a] c by simp
  then show thesis
    using that [of "c - 1" "s\<lparr>rc_count := (rc_count s)(a := (if c - 1 = 0 then None else Some (c - 1)))\<rparr>"] a c
    by (simp add: ReleaseRef_def Let_def)
qed

lemma Set_ok:
  assumes ok: "rc_ok n raw s" and v: "rc_ptr s v = None" and p: "\<And>a. p = Some a \<Longrightarrow> 0 < raw a + owners (rc_ptr s) a"
    and n: "n < 2 ^ 32 - 1"
  shows "\<exists>s'. SharedPtr_Set v p s = Inr s' \<and> rc_ok (Suc n) raw s'"
proof (cases p)
  case None
  have "(rc_ptr s)(v := None) = rc_ptr s" using v by auto
  with ok None show ?thesis by (auto simp: SharedPtr_Set_def put_ptr_def rc_ok_def le_SucI)
next
  case (Some a)
  have fin: "finite {v. rc_ptr s v \<noteq> None}" using ok by (simp add: rc_ok_def)
  obtain c s' where s': "AddRef a s = Inr (c, s')" "rc_ptr s' = rc_ptr s"
      "\<And>b. count_is (rc_count s' b) (raw b + owners (rc_ptr s) b + (if b = a then 1 else 0))"
    using AddRef_ok [OF ok p [OF Some] n] by blast
  have "AddRef a (put_ptr v p s) = Inr (c, put_ptr v p s')"
    using s'(1) by (auto simp: AddRef_def put_ptr_def split: option.splits)
  moreover have "rc_ok (Suc n) raw (put_ptr v p s')"
    using ok s'(2,3) owners_gain [OF fin v] finite_put [OF fin, of v p]
    by (simp add: rc_ok_def put_ptr_def Some le_SucI add.assoc)
  ultimately show ?thesis using Some by (simp add: SharedPtr_Set_def)
qed

lemma Release_ok:
  assumes ok: "rc_ok n raw s"
  shows "\<exists>s'. SharedPtr_Release v s = Inr s' \<and> rc_ok n raw s' \<and> rc_ptr s' = (rc_ptr s)(v := None)"
proof (cases "rc_ptr s v")
  case None
  then have "(rc_ptr s)(v := None) = rc_ptr s" by auto
  with ok None show ?thesis by (simp add: SharedPtr_Release_def)
next
  case (Some a)
  have fin: "finite {v. rc_ptr s v \<noteq> None}" using ok by (simp add: rc_ok_def)
  note o = owners_lose [OF fin Some]
  obtain c s' where s': "ReleaseRef a s = Inr (c, s')" "rc_ptr s' = rc_ptr s"
      "\<And>b. count_is (rc_count s' b) (raw b + owners (rc_ptr s) b - (if b = a then 1 else 0))"
    using ReleaseRef_ok [OF ok, of a] o(2) by auto
  have "raw b + owners ((rc_ptr s)(v := None)) b = raw b + owners (rc_ptr s) b - (if b = a then 1 else 0)" for b
    using o by auto
  then have "rc_ok n raw (put_ptr v None s')"
    using ok s'(2,3) finite_put [OF fin, of v None] by (auto simp: rc_ok_def put_ptr_def le_diff_conv trans_le_add1)
  then show ?thesis using Some s' by (simp add: SharedPtr_Release_def put_ptr_def)
qed

lemma rc_ok_owner: "rc_ok n raw s \<Longrightarrow> rc_ptr s v = Some a \<Longrightarrow> 0 < raw a + owners (rc_ptr s) a"
  using owners_lose(2) [of "rc_ptr s" v a] by (simp add: rc_ok_def)

lemma rc_ok_Suc: "rc_ok n raw s \<Longrightarrow> rc_ok (Suc n) raw s"
  by (auto simp: rc_ok_def le_SucI)

lemma move_ok:
  assumes ok: "rc_ok n raw s" and v: "rc_ptr s v = None" and "v \<noteq> u"
  shows "rc_ok n raw (SharedPtr_move v u s)"
proof (cases "rc_ptr s u")
  case None
  have "(rc_ptr s)(v := None, u := None) = rc_ptr s" using v None by auto
  with ok None show ?thesis by (simp add: SharedPtr_move_def put_ptr_def rc_ok_def)
next
  case (Some a)
  have fin: "finite {v. rc_ptr s v \<noteq> None}" using ok by (simp add: rc_ok_def)
  note fin' = finite_put [OF fin, of v "Some a"]
  have "((rc_ptr s)(v := Some a)) u = Some a" using Some assms(3) by simp
  note o = owners_lose [OF fin' this]
  have "owners ((rc_ptr s)(v := Some a, u := None)) b = owners (rc_ptr s) b" for b
    by (simp only: o(1) owners_gain [OF fin v])
  moreover have "rc_ptr (SharedPtr_move v u s) = (rc_ptr s)(v := Some a, u := None)"
    "rc_count (SharedPtr_move v u s) = rc_count s" by (simp_all add: SharedPtr_move_def put_ptr_def Some)
  ultimately show ?thesis
    using ok finite_put [OF fin', of u None] by (simp only: rc_ok_def simp_thms)
qed

lemma copy_assign_ok:
  assumes ok: "rc_ok n raw s" and n: "n < 2 ^ 32 - 1"
  shows "\<exists>s'. SharedPtr_copy_assign v u s = Inr s' \<and> rc_ok (Suc n) raw s'"
proof (cases "rc_ptr s v = rc_ptr s u")
  case False
  obtain s1 where s1: "SharedPtr_Release v s = Inr s1" "rc_ok n raw s1" "rc_ptr s1 = (rc_ptr s)(v := None)"
    using Release_ok [OF ok] by blast
  have u: "rc_ptr s1 u = rc_ptr s u" using s1(3) False by auto
  have "rc_ptr s1 v = None" by (simp add: s1(3))
  from Set_ok [OF s1(2) this _ n, of "rc_ptr s1 u"] rc_ok_owner [OF s1(2)] show ?thesis
    using False s1(1) by (simp add: SharedPtr_copy_assign_def)
qed (simp add: SharedPtr_copy_assign_def rc_ok_Suc [OF ok])

lemma move_assign_ok:
  assumes ok: "rc_ok n raw s"
  shows "\<exists>s'. SharedPtr_move_assign v u s = Inr s' \<and> rc_ok n raw s'"
proof -
  obtain s1 where s1: "SharedPtr_Release v s = Inr s1" "rc_ok n raw s1" "rc_ptr s1 = (rc_ptr s)(v := None)"
    using Release_ok [OF ok] by blast
  have v: "rc_ptr s1 v = None" by (simp add: s1(3))
  have eq: "SharedPtr_move_assign v u s = Inr (SharedPtr_move v u s1)"
    by (simp add: SharedPtr_move_assign_def s1(1) SharedPtr_move_def)
  show ?thesis
  proof (cases "v = u")
    case True
    then have "SharedPtr_move v u s1 = s1" using v by (simp add: SharedPtr_move_def put_ptr_def fun_upd_idem)
    with eq s1(2) show ?thesis by simp
  next
    case False
    from move_ok [OF s1(2) v False] eq show ?thesis by simp
  qed
qed

lemma rc_step_ok:
  assumes "rc_step m m'" and ok: "rc_ok n (rm_raw m) (rm_state m)" and n: "n < 2 ^ 32 - 1"
  shows "rc_ok (Suc n) (rm_raw m') (rm_state m')"
  using assms(1)
proof cases
  case (create s a raw)
  have "count_is (rc_count (rm_state m) a) (rm_raw m a + owners (rc_ptr (rm_state m)) a)"
    using ok unfolding rc_ok_def by blast
  then have "count_is (rc_count s a) (raw a + owners (rc_ptr s) a)" by (simp only: create(1) rc_machine.select_convs)
  then have "raw a = 0" "owners (rc_ptr s) a = 0" using create(3) by (simp_all add: count_is_def)
  then show ?thesis using ok create by (auto simp: rc_ok_def RefCountable_def count_is_def le_SucI)
next
  case (by_hand_add raw a s c s')
  obtain c1 s1 where s1: "AddRef a s = Inr (c1, s1)" "rc_ptr s1 = rc_ptr s"
      "\<And>b. count_is (rc_count s1 b) (raw b + owners (rc_ptr s) b + (if b = a then 1 else 0))"
    using AddRef_ok [of n raw s a] ok by_hand_add n by auto
  have "count_is (rc_count s1 b) ((raw(a := raw a + 1)) b + owners (rc_ptr s) b)" for b
    using s1(3) [of b] by (cases "b = a") simp_all
  then have "rc_ok (Suc n) (raw(a := raw a + 1)) s1"
    using ok s1(2) by_hand_add(1) by (auto simp: rc_ok_def le_SucI)
  then show ?thesis using s1(1) by_hand_add by simp
next
  case (by_hand_release raw a s c s')
  obtain c1 s1 where s1: "ReleaseRef a s = Inr (c1, s1)" "rc_ptr s1 = rc_ptr s"
      "\<And>b. count_is (rc_count s1 b) (raw b + owners (rc_ptr s) b - (if b = a then 1 else 0))"
    using ReleaseRef_ok [of n raw s a] ok by_hand_release by auto
  have "count_is (rc_count s1 b) ((raw(a := raw a - 1)) b + owners (rc_ptr s) b)" for b
    using s1(3) [of b] by_hand_release(3) by (cases "b = a") simp_all
  moreover have bound: "raw b + owners (rc_ptr s) b \<le> n" for b using ok by_hand_release(1) by (simp add: rc_ok_def)
  have "(raw(a := raw a - 1)) b + owners (rc_ptr s) b \<le> Suc n" for b
    using bound [of b] by (cases "b = a") simp_all
  with calculation have "rc_ok (Suc n) (raw(a := raw a - 1)) s1"
    using ok s1(2) by_hand_release(1) by (simp only: rc_ok_def rc_machine.select_convs simp_thms)
  then show ?thesis using s1(1) by_hand_release by simp
next
  case (of_raw raw a s v s')
  then show ?thesis using Set_ok [of n raw s v "Some a"] ok n by (auto simp: SharedPtr_of_raw_def)
next
  case (copies s v u s' raw)
  then show ?thesis using Set_ok [of n raw s v "rc_ptr s u"] rc_ok_owner [of n raw s u] ok n by (auto simp: SharedPtr_copy_def)
next
  case (moves_from s v u raw)
  then show ?thesis using rc_ok_Suc [OF move_ok [of n raw s v u]] ok by simp
next
  case (deletes v s s' raw)
  then show ?thesis using rc_ok_Suc Release_ok [of n raw s v] ok by (auto simp: SharedPtr_delete_def)
next
  case (copy_assigns v u s s' raw)
  then show ?thesis using copy_assign_ok [of n raw s v u] ok n by auto
next
  case (move_assigns v u s s' raw)
  then show ?thesis using rc_ok_Suc move_assign_ok [of n raw s v u] ok by auto
qed

lemma rc_run_ok: "rc_run n m m' \<Longrightarrow> rc_ok 0 (rm_raw m) (rm_state m) \<Longrightarrow> n < 2 ^ 32 \<Longrightarrow> rc_ok n (rm_raw m') (rm_state m')"
proof (induction rule: rc_run.induct)
  case (rrun_step n m k l)
  then show ?case using rc_step_ok [OF rrun_step.hyps(2), of n] by simp
qed simp

lemma rc_ok_start: "rc_ok 0 (rm_raw rc_start) (rm_state rc_start)"
  by (simp add: rc_ok_def rc_start_def owners_def count_is_def)

section \<open>Properties\<close>

text \<open>
  C15: In a program that works on reference-counted objects through \<^verbatim>\<open>TSharedPtr\<close> and through references held
  by hand, an object exists exactly as long as something refers to it and its counter is the number of
  those references, and no further copy, assignment or destruction of a pointer touches a deleted
  object. The counters have 32 bits, so this is for runs of fewer than 2^32 steps.
\<close>

theorem reference_counts_exact:
  assumes "rc_run n rc_start m" and "n < 2 ^ 32 - 1"
  shows "(\<forall>a. count_is (rc_count (rm_state m) a) (rm_raw m a + owners (rc_ptr (rm_state m)) a)) \<and>
     (\<forall>v u e. SharedPtr_delete v (rm_state m) \<noteq> Inl e \<and> SharedPtr_copy_assign v u (rm_state m) \<noteq> Inl e \<and>
        SharedPtr_move_assign v u (rm_state m) \<noteq> Inl e \<and>
        (rc_ptr (rm_state m) v = None \<longrightarrow> SharedPtr_copy v u (rm_state m) \<noteq> Inl e))"
proof -
  have ok: "rc_ok n (rm_raw m) (rm_state m)" using rc_run_ok [OF assms(1) rc_ok_start] assms(2) by simp
  have "SharedPtr_delete v (rm_state m) \<noteq> Inl e" for v e using Release_ok [OF ok, of v] by (auto simp: SharedPtr_delete_def)
  moreover have "SharedPtr_copy_assign v u (rm_state m) \<noteq> Inl e" for v u e using copy_assign_ok [OF ok assms(2), of v u] by auto
  moreover have "SharedPtr_move_assign v u (rm_state m) \<noteq> Inl e" for v u e using move_assign_ok [OF ok, of v u] by auto
  moreover have "rc_ptr (rm_state m) v = None \<longrightarrow> SharedPtr_copy v u (rm_state m) \<noteq> Inl e" for v u e
    using Set_ok [OF ok _ _ assms(2), of v "rc_ptr (rm_state m) u"] rc_ok_owner [OF ok, of u] by (auto simp: SharedPtr_copy_def)
  ultimately show ?thesis using ok by (simp add: rc_ok_def)
qed

text \<open>An object with the reference of its creator and one pointer.\<close>

definition one_object :: rc_machine where
  "one_object = \<lparr>rm_state = \<lparr>rc_count = [7 \<mapsto> 2], rc_ptr = [0 \<mapsto> 7]\<rparr>, rm_raw = (\<lambda>_. 0)(7 := 1)\<rparr>"

lemma one_object_run: "rc_run 2 rc_start one_object"
proof -
  let ?m = "\<lparr>rm_state = \<lparr>rc_count = [7 \<mapsto> 1], rc_ptr = (\<lambda>_. None)\<rparr>, rm_raw = (\<lambda>_. 0)(7 := 1)\<rparr>"
  have "rc_step rc_start ?m"
    using create [of "rm_state rc_start" 7 "\<lambda>_. 0"] by (simp add: rc_start_def RefCountable_def)
  moreover have "rc_step ?m one_object"
    unfolding one_object_def
    by (rule of_raw [of _ 7 _ 0]) (simp_all add: SharedPtr_of_raw_def SharedPtr_Set_def put_ptr_def AddRef_def)
  ultimately show ?thesis using rrun_step [OF rrun_step [OF rrun_refl]] by (simp add: numeral_2_eq_2)
qed

theorem reference_counts_exact_witness:
  "count_is (rc_count (rm_state one_object) 7) (rm_raw one_object 7 + owners (rc_ptr (rm_state one_object)) 7) \<and>
   SharedPtr_delete 0 (rm_state one_object) \<noteq> Inl OutOfBounds"
  using reference_counts_exact [OF one_object_run] by simp

end
