(* ===== verification/Sockets.thy ===== *)
theory Sockets
  imports Iocp NetAddress "HOL-Library.State_Monad"
begin

text \<open>
  \<^verbatim>\<open>ServerCore/SocketUtils\<close>, the completion port of \<^verbatim>\<open>ServerCore/IocpCore\<close>, and the socket handles of
  listeners and sessions. The Winsock functions are the fields of the parameter \<open>ws\<close>, which work on a
  world of the type \<open>'w\<close> in the state monad of the library. What the world guarantees for its
  handles is \<open>winsock_ok\<close>.
\<close>

section \<open>The Winsock functions\<close>

datatype guid = WSAID_CONNECTEX | WSAID_DISCONNECTEX | WSAID_ACCEPTEX

text \<open>\<^verbatim>\<open>WSAIoctl\<close> gives the address of a function, or \<^const>\<open>None\<close> with \<^verbatim>\<open>SOCKET_ERROR\<close>.\<close>

record 'w winsock =
  ws_WSAStartup :: "u16 \<Rightarrow> ('w, i32) state"
  ws_WSACleanup :: "('w, i32) state"
  ws_WSASocket :: "i32 \<Rightarrow> i32 \<Rightarrow> i32 \<Rightarrow> u32 \<Rightarrow> ('w, u64) state"
  ws_closesocket :: "u64 \<Rightarrow> ('w, i32) state"
  ws_WSAIoctl :: "u64 \<Rightarrow> guid \<Rightarrow> ('w, u64 option) state"
  ws_setsockopt :: "u64 \<Rightarrow> i32 \<Rightarrow> i32 \<Rightarrow> byte list \<Rightarrow> ('w, i32) state"
  ws_bind :: "u64 \<Rightarrow> sockaddr_in \<Rightarrow> ('w, i32) state"
  ws_listen :: "u64 \<Rightarrow> i32 \<Rightarrow> ('w, i32) state"
  ws_CreateIoCompletionPort :: "u64 \<Rightarrow> u64 \<Rightarrow> ('w, u64) state"

definition INVALID_SOCKET :: u64 where "INVALID_SOCKET = - 1"
definition INVALID_HANDLE_VALUE :: u64 where "INVALID_HANDLE_VALUE = - 1"
definition SOCKET_ERROR :: i32 where "SOCKET_ERROR = - 1"
definition SOL_SOCKET :: i32 where "SOL_SOCKET = 0xFFFF"
definition SO_REUSEADDR :: i32 where "SO_REUSEADDR = 4"
definition SO_LINGER :: i32 where "SO_LINGER = 0x80"
definition SO_SNDBUF :: i32 where "SO_SNDBUF = 0x1001"
definition SO_RCVBUF :: i32 where "SO_RCVBUF = 0x1002"
definition SO_UPDATE_ACCEPT_CONTEXT :: i32 where "SO_UPDATE_ACCEPT_CONTEXT = 0x700B"
definition TCP_NODELAY :: i32 where "TCP_NODELAY = 1"
definition IPPROTO_TCP :: i32 where "IPPROTO_TCP = 6"
definition IPPROTO_UDP :: i32 where "IPPROTO_UDP = 17"
definition SOCK_STREAM :: i32 where "SOCK_STREAM = 1"
definition SOCK_DGRAM :: i32 where "SOCK_DGRAM = 2"
definition WSA_FLAG_OVERLAPPED :: u32 where "WSA_FLAG_OVERLAPPED = 1"
definition SOMAXCONN :: i32 where "SOMAXCONN = 0x7FFFFFFF"

section \<open>SocketUtils\<close>

definition CreateSocket :: "'w winsock \<Rightarrow> ('w, u64) state" where
  "CreateSocket ws = ws_WSASocket ws (ucast AF_INET) SOCK_STREAM IPPROTO_TCP WSA_FLAG_OVERLAPPED"

text \<open>The handle is a reference parameter: the result is its new value.\<close>

definition Close :: "'w winsock \<Rightarrow> u64 \<Rightarrow> ('w, u64) state" where
  "Close ws socket = do {
     _ \<leftarrow> (if socket \<noteq> INVALID_SOCKET then ws_closesocket ws socket else State_Monad.return 0);
     State_Monad.return INVALID_SOCKET }"

text \<open>An option is passed as the bytes of its value.\<close>

definition SetSockOpt :: "'w winsock \<Rightarrow> u64 \<Rightarrow> i32 \<Rightarrow> i32 \<Rightarrow> byte list \<Rightarrow> ('w, bool) state" where
  "SetSockOpt ws socket level optName optVal = do {
     r \<leftarrow> ws_setsockopt ws socket level optName optVal;
     State_Monad.return (SOCKET_ERROR \<noteq> r) }"

definition enc_bool :: "bool \<Rightarrow> byte list" where "enc_bool b = [if b then 1 else 0]"

definition SetLinger :: "'w winsock \<Rightarrow> u64 \<Rightarrow> u16 \<Rightarrow> u16 \<Rightarrow> ('w, bool) state" where
  "SetLinger ws socket onoff linger = SetSockOpt ws socket SOL_SOCKET SO_LINGER (enc_u16 onoff @ enc_u16 linger)"

definition SetReuseAddress :: "'w winsock \<Rightarrow> u64 \<Rightarrow> bool \<Rightarrow> ('w, bool) state" where
  "SetReuseAddress ws socket flag = SetSockOpt ws socket SOL_SOCKET SO_REUSEADDR (enc_bool flag)"

definition SetReceiveBufferSize :: "'w winsock \<Rightarrow> u64 \<Rightarrow> i32 \<Rightarrow> ('w, bool) state" where
  "SetReceiveBufferSize ws socket n = SetSockOpt ws socket SOL_SOCKET SO_RCVBUF (enc_u32 n)"

definition SetSendBufferSize :: "'w winsock \<Rightarrow> u64 \<Rightarrow> i32 \<Rightarrow> ('w, bool) state" where
  "SetSendBufferSize ws socket n = SetSockOpt ws socket SOL_SOCKET SO_SNDBUF (enc_u32 n)"

definition SetNoDelay :: "'w winsock \<Rightarrow> u64 \<Rightarrow> bool \<Rightarrow> ('w, bool) state" where
  "SetNoDelay ws socket flag = SetSockOpt ws socket IPPROTO_TCP TCP_NODELAY (enc_bool flag)"

definition SetUpdateAcceptSocket :: "'w winsock \<Rightarrow> u64 \<Rightarrow> u64 \<Rightarrow> ('w, bool) state" where
  "SetUpdateAcceptSocket ws socket listenSocket =
     SetSockOpt ws socket SOL_SOCKET SO_UPDATE_ACCEPT_CONTEXT (enc_u64 listenSocket)"

definition Bind :: "'w winsock \<Rightarrow> u64 \<Rightarrow> sockaddr_in \<Rightarrow> ('w, bool) state" where
  "Bind ws socket netAddr = do { r \<leftarrow> ws_bind ws socket netAddr; State_Monad.return (SOCKET_ERROR \<noteq> r) }"

text \<open>\<^verbatim>\<open>htons\<close> takes 16 bits of the port; \<^verbatim>\<open>INADDR_ANY\<close> is 0.\<close>

definition BindAnyAddress :: "'w winsock \<Rightarrow> u64 \<Rightarrow> u32 \<Rightarrow> ('w, bool) state" where
  "BindAnyAddress ws socket port =
     (let myAddr = \<lparr>sin_family = AF_INET, sin_port = htons (ucast port), sin_addr = 0\<rparr>
      in do { r \<leftarrow> ws_bind ws socket myAddr; State_Monad.return (SOCKET_ERROR \<noteq> r) })"

definition Listen :: "'w winsock \<Rightarrow> u64 \<Rightarrow> i32 \<Rightarrow> ('w, bool) state" where
  "Listen ws socket backlog = do { r \<leftarrow> ws_listen ws socket backlog; State_Monad.return (SOCKET_ERROR \<noteq> r) }"

text \<open>The extension functions: their addresses, 0 before \<^verbatim>\<open>Init\<close>.\<close>

record extensions =
  ConnectEx :: u64
  DisconnectEx :: u64
  AcceptEx :: u64

definition no_extensions :: extensions where
  "no_extensions = \<lparr>ConnectEx = 0, DisconnectEx = 0, AcceptEx = 0\<rparr>"

text \<open>The result and the new value of \<^verbatim>\<open>*fn\<close>.\<close>

definition BindWindowsFunction :: "'w winsock \<Rightarrow> u64 \<Rightarrow> guid \<Rightarrow> u64 \<Rightarrow> ('w, bool \<times> u64) state" where
  "BindWindowsFunction ws socket g fn = do {
     r \<leftarrow> ws_WSAIoctl ws socket g;
     State_Monad.return (case r of None \<Rightarrow> (False, fn) | Some p \<Rightarrow> (True, p)) }"

abbreviation assert_crash :: "('w, 'a result) state" where
  "assert_crash \<equiv> State_Monad.return (Inl (Crash ''ASSERT_CRASH''))"

definition SocketUtils_Init :: "'w winsock \<Rightarrow> extensions \<Rightarrow> ('w, extensions result) state" where
  "SocketUtils_Init ws ext = do {
     started \<leftarrow> ws_WSAStartup ws 0x0202;
     if started \<noteq> 0 then assert_crash else do {
       dummySocket \<leftarrow> CreateSocket ws;
       (ok, p) \<leftarrow> BindWindowsFunction ws dummySocket WSAID_CONNECTEX (ConnectEx ext);
       if \<not> ok then assert_crash else do {
         let ext = ext\<lparr>ConnectEx := p\<rparr>;
         (ok, p) \<leftarrow> BindWindowsFunction ws dummySocket WSAID_DISCONNECTEX (DisconnectEx ext);
         if \<not> ok then assert_crash else do {
           let ext = ext\<lparr>DisconnectEx := p\<rparr>;
           (ok, p) \<leftarrow> BindWindowsFunction ws dummySocket WSAID_ACCEPTEX (AcceptEx ext);
           if \<not> ok then assert_crash else do {
             let ext = ext\<lparr>AcceptEx := p\<rparr>;
             _ \<leftarrow> Close ws dummySocket;
             State_Monad.return (Inr ext) } } } } }"

definition SocketUtils_Clear :: "'w winsock \<Rightarrow> ('w, unit) state" where
  "SocketUtils_Clear ws = do { _ \<leftarrow> ws_WSACleanup ws; State_Monad.return () }"

section \<open>The completion port\<close>

text \<open>\<^verbatim>\<open>CreateIoCompletionPort\<close> with the handle of a file and of a port, of which 0 stands for no port.\<close>

definition IocpCore :: "'w winsock \<Rightarrow> ('w, u64 result) state" where
  "IocpCore ws = do {
     iocpHandle \<leftarrow> ws_CreateIoCompletionPort ws INVALID_HANDLE_VALUE 0;
     if iocpHandle = INVALID_HANDLE_VALUE then assert_crash else State_Monad.return (Inr iocpHandle) }"

definition IocpCore_Register :: "'w winsock \<Rightarrow> u64 \<Rightarrow> u64 \<Rightarrow> ('w, bool) state" where
  "IocpCore_Register ws iocpHandle handle = do {
     r \<leftarrow> ws_CreateIoCompletionPort ws handle iocpHandle;
     State_Monad.return (r \<noteq> 0) }"

section \<open>The sockets of listeners and sessions\<close>

definition UdpSession :: "'w winsock \<Rightarrow> ('w, u64 result) state" where
  "UdpSession ws = do {
     socket \<leftarrow> ws_WSASocket ws (ucast AF_INET) SOCK_DGRAM IPPROTO_UDP WSA_FLAG_OVERLAPPED;
     if socket = INVALID_SOCKET then assert_crash else State_Monad.return (Inr socket) }"

text \<open>\<^verbatim>\<open>Listener::StartAccept\<close> up to the accepts: whether it goes on, and the new \<^verbatim>\<open>_socket\<close>.\<close>

definition Listener_open :: "'w winsock \<Rightarrow> u64 \<Rightarrow> sockaddr_in \<Rightarrow> ('w, bool \<times> u64) state" where
  "Listener_open ws port netAddress = do {
     socket \<leftarrow> CreateSocket ws;
     if socket = INVALID_SOCKET then State_Monad.return (False, socket) else do {
     ok \<leftarrow> IocpCore_Register ws port socket;
     if \<not> ok then State_Monad.return (False, socket) else do {
     ok \<leftarrow> SetReuseAddress ws socket True;
     if \<not> ok then State_Monad.return (False, socket) else do {
     ok \<leftarrow> SetLinger ws socket 1 0;
     if \<not> ok then State_Monad.return (False, socket) else do {
     ok \<leftarrow> Bind ws socket netAddress;
     if \<not> ok then State_Monad.return (False, socket) else do {
     ok \<leftarrow> Listen ws socket SOMAXCONN;
     State_Monad.return (ok, socket) } } } } } }"

text \<open>\<^verbatim>\<open>UdpService::Start\<close> up to the first receive, on the socket of the session.\<close>

definition UdpService_open :: "'w winsock \<Rightarrow> u64 \<Rightarrow> sockaddr_in \<Rightarrow> u64 \<Rightarrow> ('w, bool) state" where
  "UdpService_open ws port bindAddr sock = do {
     ok \<leftarrow> SetReuseAddress ws sock True;
     if \<not> ok then State_Monad.return False else do {
     ok \<leftarrow> Bind ws sock bindAddr;
     if \<not> ok then State_Monad.return False else IocpCore_Register ws port sock } }"

text \<open>The part of \<^verbatim>\<open>Session::RegisterConnect\<close> that prepares the socket.\<close>

definition connect_prepare :: "'w winsock \<Rightarrow> u64 \<Rightarrow> ('w, bool) state" where
  "connect_prepare ws socket = do {
     ok \<leftarrow> SetReuseAddress ws socket True;
     if \<not> ok then State_Monad.return False else BindAnyAddress ws socket 0 }"

text \<open>\<^verbatim>\<open>main\<close> from the completion port to the start of the service.\<close>

definition server_open :: "'w winsock \<Rightarrow> sockaddr_in \<Rightarrow> ('w, (u64 \<times> u64) result) state" where
  "server_open ws addr = do {
     core \<leftarrow> IocpCore ws;
     case core of Inl e \<Rightarrow> State_Monad.return (Inl e) | Inr port \<Rightarrow> do {
       session \<leftarrow> UdpSession ws;
       case session of Inl e \<Rightarrow> State_Monad.return (Inl e) | Inr sock \<Rightarrow> do {
         started \<leftarrow> UdpService_open ws port addr sock;
         if \<not> started then assert_crash else State_Monad.return (Inr (port, sock)) } } }"

text \<open>
  The process: the world, and for each live listener and session its \<^verbatim>\<open>_socket\<close>. A step runs a
  constructor, the start of a listener, a call on the socket of an object, or a destructor, which
  for all three classes is \<^verbatim>\<open>SocketUtils::Close\<close>; the world may change by itself.
\<close>

datatype socket_owner = TcpListener | TcpSession | UdpSocket

record 'w net_state =
  nt_world :: 'w
  nt_sockets :: "nat \<Rightarrow> (socket_owner \<times> u64) option"

definition set_socket :: "nat \<Rightarrow> socket_owner \<Rightarrow> u64 \<Rightarrow> 'w \<Rightarrow> 'w net_state \<Rightarrow> 'w net_state" where
  "set_socket r k h w n = n\<lparr>nt_world := w, nt_sockets := (nt_sockets n)(r \<mapsto> (k, h))\<rparr>"

definition keeps_handles :: "('w \<Rightarrow> u64 set) \<Rightarrow> ('w, 'a) state \<Rightarrow> bool" where
  "keeps_handles open_handles = state_io_rel (\<lambda>w w'. open_handles w' = open_handles w)"

inductive socket_step ::
  "('w \<Rightarrow> u64 set) \<Rightarrow> 'w winsock \<Rightarrow> 'w net_state \<Rightarrow> 'w net_state \<Rightarrow> bool"
  for open_handles ws where
  new_session: "nt_sockets n r = None \<Longrightarrow> run_state (CreateSocket ws) (nt_world n) = (h, w') \<Longrightarrow>
    socket_step open_handles ws n (set_socket r TcpSession h w' n)"
| new_udp: "nt_sockets n r = None \<Longrightarrow> run_state (UdpSession ws) (nt_world n) = (Inr h, w') \<Longrightarrow>
    socket_step open_handles ws n (set_socket r UdpSocket h w' n)"
| new_listener: "nt_sockets n r = None \<Longrightarrow>
    socket_step open_handles ws n (set_socket r TcpListener INVALID_SOCKET (nt_world n) n)"
| start_accept: "nt_sockets n r = Some (TcpListener, INVALID_SOCKET) \<Longrightarrow>
    run_state (Listener_open ws port addr) (nt_world n) = ((ok, h), w') \<Longrightarrow>
    socket_step open_handles ws n (set_socket r TcpListener h w' n)"
| close_listener: "nt_sockets n r = Some (TcpListener, h) \<Longrightarrow> run_state (Close ws h) (nt_world n) = (h', w') \<Longrightarrow>
    socket_step open_handles ws n (set_socket r TcpListener h' w' n)"
| udp_start: "nt_sockets n r = Some (UdpSocket, h) \<Longrightarrow>
    run_state (UdpService_open ws port addr h) (nt_world n) = (ok, w') \<Longrightarrow>
    socket_step open_handles ws n (n\<lparr>nt_world := w'\<rparr>)"
| connecting: "nt_sockets n r = Some (TcpSession, h) \<Longrightarrow> run_state (connect_prepare ws h) (nt_world n) = (ok, w') \<Longrightarrow>
    socket_step open_handles ws n (n\<lparr>nt_world := w'\<rparr>)"
| accepting: "nt_sockets n r = Some (TcpSession, h) \<Longrightarrow> nt_sockets n l = Some (TcpListener, h') \<Longrightarrow>
    run_state (SetUpdateAcceptSocket ws h h') (nt_world n) = (ok, w') \<Longrightarrow>
    socket_step open_handles ws n (n\<lparr>nt_world := w'\<rparr>)"
| destroyed: "nt_sockets n r = Some (k, h) \<Longrightarrow> run_state (Close ws h) (nt_world n) = (h', w') \<Longrightarrow>
    socket_step open_handles ws n (n\<lparr>nt_world := w', nt_sockets := (nt_sockets n)(r := None)\<rparr>)"
| elsewhere: "open_handles w' = open_handles (nt_world n) \<Longrightarrow>
    socket_step open_handles ws n (n\<lparr>nt_world := w'\<rparr>)"

inductive socket_run :: "('w \<Rightarrow> u64 set) \<Rightarrow> 'w winsock \<Rightarrow> 'w net_state \<Rightarrow> 'w net_state \<Rightarrow> bool"
  for open_handles ws n where
  srun_refl: "socket_run open_handles ws n n"
| srun_step: "socket_run open_handles ws n m \<Longrightarrow> socket_step open_handles ws m k \<Longrightarrow> socket_run open_handles ws n k"

section \<open>What Winsock guarantees for handles\<close>

text \<open>
  A new socket has a handle that was not in use, a closed one is not in use any more, and no other
  call changes which handles are in use.
\<close>

definition opened :: "('w \<Rightarrow> u64 set) \<Rightarrow> u64 \<Rightarrow> 'w \<Rightarrow> 'w \<Rightarrow> bool" where
  "opened open_handles h w w' \<longleftrightarrow>
     (if h = INVALID_SOCKET then open_handles w' = open_handles w
      else h \<notin> open_handles w \<and> open_handles w' = insert h (open_handles w))"

definition winsock_ok :: "('w \<Rightarrow> u64 set) \<Rightarrow> 'w winsock \<Rightarrow> bool" where
  "winsock_ok open_handles ws \<longleftrightarrow>
     (\<forall>w. INVALID_SOCKET \<notin> open_handles w) \<and>
     (\<forall>af ty pr fl w h w'. run_state (ws_WSASocket ws af ty pr fl) w = (h, w') \<longrightarrow> opened open_handles h w w') \<and>
     (\<forall>h w r w'. run_state (ws_closesocket ws h) w = (r, w') \<longrightarrow> open_handles w' = open_handles w - {h}) \<and>
     (\<forall>v. keeps_handles open_handles (ws_WSAStartup ws v)) \<and>
     (\<forall>s g. keeps_handles open_handles (ws_WSAIoctl ws s g)) \<and>
     (\<forall>s l opt v. keeps_handles open_handles (ws_setsockopt ws s l opt v)) \<and>
     (\<forall>s a. keeps_handles open_handles (ws_bind ws s a)) \<and>
     (\<forall>s b. keeps_handles open_handles (ws_listen ws s b)) \<and>
     (\<forall>h p. keeps_handles open_handles (ws_CreateIoCompletionPort ws h p))"

text \<open>The handles the live objects hold.\<close>

definition holds :: "'w net_state \<Rightarrow> nat \<Rightarrow> u64 \<Rightarrow> bool" where
  "holds n r h \<longleftrightarrow> h \<noteq> INVALID_SOCKET \<and> map_option snd (nt_sockets n r) = Some h"

definition held :: "'w net_state \<Rightarrow> u64 set" where
  "held n = {h. \<exists>r. holds n r h}"

definition sockets_ok :: "('w \<Rightarrow> u64 set) \<Rightarrow> u64 set \<Rightarrow> 'w net_state \<Rightarrow> bool" where
  "sockets_ok open_handles others n \<longleftrightarrow>
     open_handles (nt_world n) = others \<union> held n \<and> others \<inter> held n = {} \<and>
     (\<forall>r r' h. holds n r h \<longrightarrow> holds n r' h \<longrightarrow> r = r')"

section \<open>Calls that open and close no handle\<close>

named_theorems keeps_intros \<open>calls that open and close no handle\<close>

lemma keepsD: "keeps_handles open_handles m \<Longrightarrow> run_state m w = (x, w') \<Longrightarrow> open_handles w' = open_handles w"
  unfolding keeps_handles_def by (rule state_io_relD)

lemma keeps_return [keeps_intros]: "keeps_handles open_handles (State_Monad.return x)"
  by (auto simp: keeps_handles_def)

lemma keeps_bind [keeps_intros]:
  "keeps_handles open_handles m \<Longrightarrow> (\<And>x. keeps_handles open_handles (f x)) \<Longrightarrow> keeps_handles open_handles (State_Monad.bind m f)"
  unfolding keeps_handles_def by (rule state_io_relI) (auto split: prod.splits dest!: state_io_relD)

lemma keeps_if [keeps_intros]:
  "(b \<Longrightarrow> keeps_handles open_handles m) \<Longrightarrow> (\<not> b \<Longrightarrow> keeps_handles open_handles m') \<Longrightarrow> keeps_handles open_handles (if b then m else m')"
  by simp

lemma keeps_prod [keeps_intros]:
  "(\<And>a b. x = (a, b) \<Longrightarrow> keeps_handles open_handles (f a b)) \<Longrightarrow> keeps_handles open_handles (case x of (a, b) \<Rightarrow> f a b)"
  by (cases x) simp

lemma winsock_keeps [keeps_intros]:
  assumes "winsock_ok open_handles ws"
  shows "keeps_handles open_handles (ws_WSAStartup ws v)" "keeps_handles open_handles (ws_WSAIoctl ws s g)"
    "keeps_handles open_handles (ws_setsockopt ws s l opt u)" "keeps_handles open_handles (ws_bind ws s a)"
    "keeps_handles open_handles (ws_listen ws s b)" "keeps_handles open_handles (ws_CreateIoCompletionPort ws h p)"
  using assms by (simp_all add: winsock_ok_def)

lemmas option_defs = SetReuseAddress_def SetLinger_def SetUpdateAcceptSocket_def SetSockOpt_def

lemma utils_keep [keeps_intros]:
  assumes "winsock_ok open_handles ws"
  shows "keeps_handles open_handles (SetReuseAddress ws s b)" "keeps_handles open_handles (SetLinger ws s x y)"
    "keeps_handles open_handles (SetUpdateAcceptSocket ws s s')" "keeps_handles open_handles (Bind ws s a)"
    "keeps_handles open_handles (BindAnyAddress ws s p)" "keeps_handles open_handles (Listen ws s n)"
    "keeps_handles open_handles (IocpCore_Register ws q s)" "keeps_handles open_handles (BindWindowsFunction ws s g fn)"
  unfolding option_defs Bind_def BindAnyAddress_def Listen_def IocpCore_Register_def BindWindowsFunction_def Let_def
  by (intro keeps_intros assms)+

lemma start_keep [keeps_intros]:
  assumes "winsock_ok open_handles ws"
  shows "keeps_handles open_handles (UdpService_open ws port addr s)" "keeps_handles open_handles (connect_prepare ws s)"
  unfolding UdpService_open_def connect_prepare_def by (intro keeps_intros assms)+

lemma WSASocket_opens:
  "winsock_ok open_handles ws \<Longrightarrow> run_state (ws_WSASocket ws af ty pr fl) w = (h, w') \<Longrightarrow> opened open_handles h w w'"
  by (simp add: winsock_ok_def)

lemma winsock_invalid: "winsock_ok open_handles ws \<Longrightarrow> INVALID_SOCKET \<notin> open_handles w"
  by (simp add: winsock_ok_def)

lemma CreateSocket_opens:
  "winsock_ok open_handles ws \<Longrightarrow> run_state (CreateSocket ws) w = (h, w') \<Longrightarrow> opened open_handles h w w'"
  unfolding CreateSocket_def by (rule WSASocket_opens)

lemma UdpSession_opens:
  assumes "winsock_ok open_handles ws" and "run_state (UdpSession ws) w = (Inr h, w')"
  shows "opened open_handles h w w'"
  using assms(2) by (auto simp: UdpSession_def intro: WSASocket_opens [OF assms(1)] split: prod.splits if_splits)

lemma Listener_open_opens:
  assumes ok: "winsock_ok open_handles ws" and run: "run_state (Listener_open ws port addr) w = ((b, h), w')"
  shows "opened open_handles h w w'"
proof -
  obtain s v where s: "run_state (CreateSocket ws) w = (s, v)" by (cases "run_state (CreateSocket ws) w")
  have "h = s \<and> open_handles w' = open_handles v"
    using run s unfolding Listener_open_def
    by (auto split: if_splits prod.splits dest!: utils_keep [OF ok, THEN keepsD])
  then show ?thesis using CreateSocket_opens [OF ok s] by (simp add: opened_def)
qed

lemma Close_closes:
  assumes "winsock_ok open_handles ws" and "run_state (Close ws h) w = (h', w')"
  shows "h' = INVALID_SOCKET" and "open_handles w' = open_handles w - {h}"
  using assms by (auto simp: winsock_ok_def Close_def split: prod.splits if_splits)

section \<open>Steps\<close>

lemma holds_simps [simp]:
  "holds (n\<lparr>nt_world := w\<rparr>) = holds n"
  "holds (set_socket r k h w n) r' x \<longleftrightarrow> (if r' = r then x = h \<and> h \<noteq> INVALID_SOCKET else holds n r' x)"
  "holds (n\<lparr>nt_world := w, nt_sockets := (nt_sockets n)(r := None)\<rparr>) r' x \<longleftrightarrow> r' \<noteq> r \<and> holds n r' x"
  by (auto simp: holds_def set_socket_def fun_eq_iff)

lemma world_set_socket [simp]: "nt_world (set_socket r k h w n) = w"
  by (simp add: set_socket_def)

lemma holds_unique: "sockets_ok open_handles others n \<Longrightarrow> holds n r h \<Longrightarrow> holds n r' h \<Longrightarrow> r' = r"
  unfolding sockets_ok_def by blast

lemma sockets_ok_opened:
  assumes ok: "sockets_ok open_handles others n" and free: "\<And>x. \<not> holds n r x"
    and "opened open_handles h (nt_world n) w'"
  shows "sockets_ok open_handles others (set_socket r k h w' n)"
proof -
  have "held (set_socket r k h w' n) = held n \<union> (if h = INVALID_SOCKET then {} else {h})"
    using free by (auto simp: held_def) (metis)+
  moreover have "h \<noteq> INVALID_SOCKET \<Longrightarrow> h \<notin> others \<union> held n"
    using assms(1,3) by (simp add: sockets_ok_def opened_def)
  ultimately show ?thesis
    using ok assms(3) unfolding sockets_ok_def opened_def by (auto simp: held_def split: if_splits)
qed

text \<open>The owner of a handle gives it up, and the handle is closed.\<close>

lemma sockets_ok_closed:
  assumes ok: "sockets_ok open_handles others n" and "map_option snd (nt_sockets n r) = Some h"
    and "open_handles w' = open_handles (nt_world n) - {h}"
    and m: "nt_world m = w'" "\<And>r' x. holds m r' x \<longleftrightarrow> r' \<noteq> r \<and> holds n r' x"
    and "INVALID_SOCKET \<notin> open_handles (nt_world n)"
  shows "sockets_ok open_handles others m"
proof -
  have r: "holds n r x \<longleftrightarrow> x = h \<and> h \<noteq> INVALID_SOCKET" for x using assms(2) by (auto simp: holds_def)
  have hr: "r' = r" if "holds n r' h" for r'
  proof -
    from that have "h \<noteq> INVALID_SOCKET" by (simp add: holds_def)
    then have "holds n r h" by (simp add: r)
    from holds_unique [OF ok this that] show ?thesis .
  qed
  have "holds m r' x \<longleftrightarrow> holds n r' x \<and> x \<noteq> h" for r' x
  proof (cases "r' = r")
    case True
    then show ?thesis using r [of x] by (simp add: m(2))
  next
    case False
    then have "\<not> holds n r' h" using hr by blast
    with False show ?thesis by (auto simp: m(2))
  qed
  then have "held m = held n - {h}" by (auto simp: held_def)
  moreover have "h \<notin> others"
    using ok assms(6) r [of h] unfolding sockets_ok_def held_def by blast
  ultimately show ?thesis
    using ok assms(3) m unfolding sockets_ok_def by auto
qed

lemma sockets_ok_kept:
  "sockets_ok open_handles others n \<Longrightarrow> open_handles w' = open_handles (nt_world n) \<Longrightarrow>
   sockets_ok open_handles others (n\<lparr>nt_world := w'\<rparr>)"
  by (simp add: sockets_ok_def held_def)

lemma socket_step_ok:
  assumes ws: "winsock_ok open_handles ws" and "socket_step open_handles ws n m" and ok: "sockets_ok open_handles others n"
  shows "sockets_ok open_handles others m"
  using assms(2)
proof cases
  case (new_session r h w')
  then show ?thesis
    by (auto intro!: sockets_ok_opened [OF ok] CreateSocket_opens [OF ws] simp: holds_def)
next
  case (new_udp r h w')
  then show ?thesis
    by (auto intro!: sockets_ok_opened [OF ok] UdpSession_opens [OF ws] simp: holds_def)
next
  case (new_listener r)
  then show ?thesis
    by (auto intro!: sockets_ok_opened [OF ok] simp: holds_def opened_def)
next
  case (start_accept r port addr b h w')
  then show ?thesis
    by (auto intro!: sockets_ok_opened [OF ok] intro: Listener_open_opens [OF ws] simp: holds_def)
next
  case (close_listener r h h' w')
  then show ?thesis
    using Close_closes [OF ws close_listener(3)] winsock_invalid [OF ws]
    by (auto intro!: sockets_ok_closed [OF ok, of r h w'] split: if_splits)
next
  case (destroyed r k h h' w')
  then show ?thesis
    using Close_closes [OF ws destroyed(3)] winsock_invalid [OF ws]
    by (auto intro!: sockets_ok_closed [OF ok, of r h w'])
qed (auto intro!: sockets_ok_kept [OF ok] dest: keepsD [OF start_keep(1) [OF ws]] keepsD [OF start_keep(2) [OF ws]]
    keepsD [OF utils_keep(3) [OF ws]])

lemma socket_run_ok:
  assumes "socket_run open_handles ws n m" and ws: "winsock_ok open_handles ws" and ok: "sockets_ok open_handles others n"
  shows "sockets_ok open_handles others m"
  using assms(1) by induction (auto intro: ok socket_step_ok [OF ws])

lemma Init_keeps:
  assumes ok: "winsock_ok open_handles ws" and run: "run_state (SocketUtils_Init ws ext) w = (Inr ext', w')"
  shows "open_handles w' = open_handles w"
proof -
  obtain r u where u: "run_state (ws_WSAStartup ws 0x0202) w = (r, u)" by (cases "run_state (ws_WSAStartup ws 0x0202) w")
  obtain s v where s: "run_state (CreateSocket ws) u = (s, v)" by (cases "run_state (CreateSocket ws) u")
  have "open_handles w' = open_handles v - {s}"
    using run u s unfolding SocketUtils_Init_def
    by (auto split: if_splits prod.splits dest!: utils_keep(8) [OF ok, THEN keepsD] dest: Close_closes [OF ok])
  then show ?thesis
    using CreateSocket_opens [OF ok s] keepsD [OF winsock_keeps(1) [OF ok] u] winsock_invalid [OF ok, of u]
    by (auto simp: opened_def split: if_splits)
qed

section \<open>Starting the server\<close>

lemma run_bind_iff:
  "run_state (State_Monad.bind m f) w = (y, w') \<longleftrightarrow> (\<exists>x v. run_state m w = (x, v) \<and> run_state (f x) v = (y, w'))"
  by (cases "run_state m w") simp

lemma run_if_False: "run_state (if \<not> ok then State_Monad.return False else m) w = (True, w') \<longleftrightarrow> ok \<and> run_state m w = (True, w')"
  by simp

lemma UdpService_open_registers:
  assumes "run_state (UdpService_open ws port addr sock) w = (True, w')"
  shows "\<exists>v other. run_state (ws_CreateIoCompletionPort ws sock port) v = (other, w') \<and> other \<noteq> 0"
proof -
  obtain v where v: "run_state (IocpCore_Register ws port sock) v = (True, w')"
    using assms unfolding UdpService_open_def run_bind_iff run_if_False by blast
  then show ?thesis
    by (cases "run_state (ws_CreateIoCompletionPort ws sock port) v") (auto simp: IocpCore_Register_def)
qed

lemma server_open_port:
  assumes "run_state (IocpCore ws) w = (Inr p, v)" and "run_state (server_open ws addr) w = (Inr (port, sock), w')"
  shows "port = p \<and> (\<exists>u. run_state (UdpService_open ws p addr sock) u = (True, w'))"
proof -
  obtain x u where x: "run_state (UdpSession ws) v = (x, u)"
    and rest: "run_state (case x of Inl e \<Rightarrow> State_Monad.return (Inl e) | Inr sock \<Rightarrow>
      State_Monad.bind (UdpService_open ws p addr sock) (\<lambda>started.
        if \<not> started then assert_crash else State_Monad.return (Inr (p, sock)))) u = (Inr (port, sock), w')"
    using assms by (cases "run_state (UdpSession ws) v") (simp add: server_open_def)
  show ?thesis
  proof (cases x)
    case (Inr a)
    with rest show ?thesis
      by (cases "run_state (UdpService_open ws p addr a) u") (auto split: if_splits)
  qed (use rest in simp)
qed

section \<open>A small Winsock\<close>

text \<open>The world lists the handles in use; a new socket gets the first of four that is free.\<close>

definition small_open :: "u64 list \<Rightarrow> u64 set" where
  "small_open w = set w - {INVALID_SOCKET}"

definition small_winsock :: "u64 \<Rightarrow> u64 list winsock" where
  "small_winsock port =
     \<lparr>ws_WSAStartup = \<lambda>_. State_Monad.return 0, ws_WSACleanup = State_Monad.return 0,
      ws_WSASocket = \<lambda>_ _ _ _. State (\<lambda>w. case List.find (\<lambda>h. h \<notin> set w) [4, 8, 12, 16] of
          None \<Rightarrow> (INVALID_SOCKET, w) | Some h \<Rightarrow> (h, h # w)),
      ws_closesocket = \<lambda>h. State (\<lambda>w. (0, removeAll h w)),
      ws_WSAIoctl = \<lambda>_ g. State_Monad.return (Some (case g of WSAID_CONNECTEX \<Rightarrow> 100 | WSAID_DISCONNECTEX \<Rightarrow> 200 | WSAID_ACCEPTEX \<Rightarrow> 300)),
      ws_setsockopt = \<lambda>_ _ _ _. State_Monad.return 0, ws_bind = \<lambda>_ _. State_Monad.return 0,
      ws_listen = \<lambda>_ _. State_Monad.return 0,
      ws_CreateIoCompletionPort = \<lambda>h p. State_Monad.return (if h = INVALID_HANDLE_VALUE then port else 60)\<rparr>"

lemma small_winsock_ok: "winsock_ok small_open (small_winsock port)"
  unfolding winsock_ok_def
  by (auto simp: small_winsock_def small_open_def opened_def INVALID_SOCKET_def find_Some_iff
      intro!: keeps_return split: option.splits)

section \<open>Properties\<close>

text \<open>
  C16: After \<^verbatim>\<open>SocketUtils::Init\<close> every socket the live listeners and sessions hold is an open handle that
  no second object holds and that was not open before the program, so no \<^verbatim>\<open>Close\<close> closes a handle
  twice or closes one of somebody else; and when all objects are destroyed no handle is left open.
\<close>

theorem sockets_closed_once:
  assumes "winsock_ok open_handles ws"
    and "run_state (SocketUtils_Init ws no_extensions) w = (Inr ext, nt_world n)" and "nt_sockets n = (\<lambda>_. None)"
    and "socket_run open_handles ws n m"
  shows "open_handles (nt_world m) = open_handles w \<union> held m \<and> open_handles w \<inter> held m = {} \<and>
    (\<forall>r r' h. holds m r h \<longrightarrow> holds m r' h \<longrightarrow> r = r') \<and>
    (nt_sockets m = (\<lambda>_. None) \<longrightarrow> open_handles (nt_world m) = open_handles w)"
proof -
  have "sockets_ok open_handles (open_handles w) n"
    using Init_keeps [OF assms(1,2)] assms(3) by (simp add: sockets_ok_def held_def holds_def)
  then have "sockets_ok open_handles (open_handles w) m" by (rule socket_run_ok [OF assms(4,1)])
  then show ?thesis by (auto simp: sockets_ok_def held_def holds_def)
qed

definition demo_net :: "u64 list net_state" where
  "demo_net = \<lparr>nt_world = [4, 8],
     nt_sockets = [0 \<mapsto> (TcpListener, 8), 2 \<mapsto> (TcpSession, 4)]\<rparr>"

text \<open>A session gets handle 4, a listener handle 8; the session is destroyed, and the next one gets 4 again.\<close>

lemma demo_net_run:
  "socket_run small_open (small_winsock 50) \<lparr>nt_world = [], nt_sockets = (\<lambda>_. None)\<rparr> demo_net"
proof -
  let ?ws = "small_winsock 50" and ?s = "\<lambda>w f. \<lparr>nt_world = w, nt_sockets = f\<rparr>"
  note sim = CreateSocket_def Close_def Listener_open_def IocpCore_Register_def option_defs Bind_def Listen_def
    small_winsock_def INVALID_SOCKET_def INVALID_HANDLE_VALUE_def SOCKET_ERROR_def set_socket_def
  have s1: "socket_step small_open ?ws (?s [] (\<lambda>_. None)) (?s [4] [1 \<mapsto> (TcpSession, 4)])"
    using new_session [of "?s [] (\<lambda>_. None)" 1 ?ws 4 "[4]" small_open] by (simp add: sim)
  have s2: "socket_step small_open ?ws (?s [4] [1 \<mapsto> (TcpSession, 4)])
      (?s [4] [1 \<mapsto> (TcpSession, 4), 0 \<mapsto> (TcpListener, INVALID_SOCKET)])"
    using new_listener [of "?s [4] [1 \<mapsto> (TcpSession, 4)]" 0 small_open ?ws] by (simp add: set_socket_def)
  have s3: "socket_step small_open ?ws (?s [4] [1 \<mapsto> (TcpSession, 4), 0 \<mapsto> (TcpListener, INVALID_SOCKET)])
      (?s [8, 4] [1 \<mapsto> (TcpSession, 4), 0 \<mapsto> (TcpListener, 8)])"
    using start_accept [of "?s [4] [1 \<mapsto> (TcpSession, 4), 0 \<mapsto> (TcpListener, INVALID_SOCKET)]" 0 ?ws 50
      "\<lparr>sin_family = AF_INET, sin_port = 0, sin_addr = 0\<rparr>" True 8 "[8, 4]" small_open]
    by (simp add: sim)
  have s4: "socket_step small_open ?ws (?s [8, 4] [1 \<mapsto> (TcpSession, 4), 0 \<mapsto> (TcpListener, 8)])
      (?s [8] [0 \<mapsto> (TcpListener, 8)])"
    using destroyed [of "?s [8, 4] [1 \<mapsto> (TcpSession, 4), 0 \<mapsto> (TcpListener, 8)]" 1 TcpSession 4 ?ws
      INVALID_SOCKET "[8]" small_open] by (simp add: sim fun_upd_twist)
  have s5: "socket_step small_open ?ws (?s [8] [0 \<mapsto> (TcpListener, 8)]) demo_net"
    using new_session [of "?s [8] [0 \<mapsto> (TcpListener, 8)]" 2 ?ws 4 "[4, 8]" small_open]
    by (simp add: sim demo_net_def)
  show ?thesis
    by (rule srun_step [OF srun_step [OF srun_step [OF srun_step [OF srun_step [OF srun_refl s1] s2] s3] s4] s5])
qed

lemma demo_init:
  "run_state (SocketUtils_Init (small_winsock 50) no_extensions) [] =
     (Inr \<lparr>ConnectEx = 100, DisconnectEx = 200, AcceptEx = 300\<rparr>, [])"
  by (simp add: SocketUtils_Init_def CreateSocket_def Close_def BindWindowsFunction_def small_winsock_def
      INVALID_SOCKET_def no_extensions_def)

theorem sockets_closed_once_witness:
  "small_open (nt_world demo_net) = held demo_net \<and> holds demo_net 2 4"
proof -
  have e: "small_open [] = {}" by (simp add: small_open_def)
  have "small_open (nt_world demo_net) = small_open [] \<union> held demo_net"
    using sockets_closed_once [OF small_winsock_ok _ _ demo_net_run, of "[]"] demo_init by simp
  then show ?thesis by (simp add: e holds_def demo_net_def INVALID_SOCKET_def)
qed

text \<open>
  When the completion port cannot be created the server does not notice: \<^verbatim>\<open>CreateIoCompletionPort\<close>
  gives 0 but the check is against another value, and the server may start; its socket is then
  registered with a new port that nobody polls, and the first worker thread that waits on the port 0
  gets an error without an event and dereferences a null pointer.
\<close>

theorem failed_port_unnoticed:
  assumes "fst (run_state (ws_CreateIoCompletionPort ws INVALID_HANDLE_VALUE 0) w) = 0"
    and "\<not> cp_success c" and "cp_iocpEvent c = None" and "cp_errCode c \<noteq> WAIT_TIMEOUT"
  shows "fst (run_state (IocpCore ws) w) = Inr 0 \<and>
    (\<forall>port sock w'. run_state (server_open ws addr) w = (Inr (port, sock), w') \<longrightarrow>
       port = 0 \<and> (\<exists>v other. run_state (ws_CreateIoCompletionPort ws sock 0) v = (other, w') \<and> other \<noteq> 0)) \<and>
    IocpCore_Dispatch disp c s = Some (Inl NullDeref)"
proof (intro conjI allI impI)
  obtain v where v: "run_state (IocpCore ws) w = (Inr 0, v)"
    using assms(1) by (cases "run_state (ws_CreateIoCompletionPort ws INVALID_HANDLE_VALUE 0) w")
      (simp add: IocpCore_def INVALID_HANDLE_VALUE_def)
  then show "fst (run_state (IocpCore ws) w) = Inr 0" by simp
  fix port sock w'
  assume run: "run_state (server_open ws addr) w = (Inr (port, sock), w')"
  from server_open_port [OF v run] obtain u where u: "port = 0" "run_state (UdpService_open ws 0 addr sock) u = (True, w')"
    by blast
  then show "port = 0" by simp
  from u(2) show "\<exists>v other. run_state (ws_CreateIoCompletionPort ws sock 0) v = (other, w') \<and> other \<noteq> 0"
    by (rule UdpService_open_registers)
qed (rule Dispatch_null [OF assms(3,2,4)])

theorem failed_port_unnoticed_witness:
  "run_state (server_open (small_winsock 0) \<lparr>sin_family = AF_INET, sin_port = htons 7777, sin_addr = 0\<rparr>) [] =
     (Inr (0, 4), [4]) \<and>
   IocpCore_Dispatch (\<lambda>(o' :: unit) _ _ s. Some (Inr s))
     \<lparr>cp_success = False, cp_iocpEvent = None, cp_numOfBytes = 0, cp_errCode = 6\<rparr> () = Some (Inl NullDeref)"
proof -
  let ?ws = "small_winsock 0" and ?a = "\<lparr>sin_family = AF_INET, sin_port = htons 7777, sin_addr = 0\<rparr>"
  let ?c = "\<lparr>cp_success = False, cp_iocpEvent = None, cp_numOfBytes = 0, cp_errCode = 6\<rparr> :: unit completion"
  have port: "fst (run_state (ws_CreateIoCompletionPort ?ws INVALID_HANDLE_VALUE 0) []) = 0"
    by (simp add: small_winsock_def)
  have run: "run_state (server_open ?ws ?a) [] = (Inr (0, 4), [4])"
    by (simp add: server_open_def IocpCore_def UdpSession_def UdpService_open_def IocpCore_Register_def option_defs
        Bind_def small_winsock_def INVALID_HANDLE_VALUE_def INVALID_SOCKET_def SOCKET_ERROR_def)
  have "cp_errCode ?c \<noteq> WAIT_TIMEOUT" by (simp add: WAIT_TIMEOUT_def)
  with run show ?thesis
    using failed_port_unnoticed [OF port, of ?c ?a "\<lambda>_ _ _ s. Some (Inr s)" "()"] by simp
qed

end
