(* ===== verification/Spec2Isabelle.thy ===== *)
theory Spec2Isabelle
  imports ServerProgram Duplicates TickCollect ClientConnect SessionReuse SendProgress SendLifetime TestPacket Threads LockWait LockUse Memory RefCounting Sockets
begin

text \<open>
  A model of the Cowboy Poker server: \<^verbatim>\<open>GameServer/\<close>, the UDP lobby server with its Redis store, and
  \<^verbatim>\<open>ServerCore/\<close>, the network library below it.

  \<^bold>\<open>The program.\<close> \<^verbatim>\<open>main\<close> connects to Redis, starts a \<^verbatim>\<open>UdpService\<close> on one socket, launches worker
  threads that dispatch the completions of an I/O completion port, and ticks once a second. A datagram
  goes from \<^verbatim>\<open>UdpSession::ProcessRecv\<close> to \<^verbatim>\<open>UdpGameSession::OnRecvPacket\<close>, which registers or finds
  the client and drops duplicates, and on to a handler of \<^verbatim>\<open>UdpServerPacketHandler\<close>, which reads and
  writes Redis and sends packets through the service. The tick removes silent clients and announces
  them. The library also has a TCP service (listener, sessions, session manager) that the game does
  not start yet, and locks, a deadlock profiler, allocators, reference counts and threads.

  \<^bold>\<open>Conventions.\<close> A struct or class is a record with a prefix for its fields, a function keeps the name
  of the source (with its class in front where two classes share one), and takes and returns the state
  it reads and writes. Integers are words of the width of the source; a \<^verbatim>\<open>float\<close> is its bit pattern. A
  result \<open>Inl\<close> is a crash of the program, an access outside a buffer or to a null pointer, or an
  exception nobody catches; \<^const>\<open>None\<close> is a call that does not return (\<open>OnRecv_loop\<close>,
  \<open>UdpSession_RegisterRecv\<close>, \<open>RegisterAccept\<close>, declared with \<^theory_text>\<open>partial_function\<close>). The operating
  system, hiredis and the C library are inputs: results of Winsock calls, clock values, what arrives,
  the function that runs a Redis command. What a proof needs of them is a hypothesis
  of the theorem, for example \<open>virtual_alloc_ok\<close>, or \<open>redis_hashes\<close>, which says that Redis is connected
  and its player keys hold hashes, so that no reply is null or an error.

  \<^bold>\<open>Theories.\<close>
  \<^item> \<open>Prelude\<close>: machine integers, results, byte encodings (the locale \<open>wire_field\<close>), memory blocks.
  \<^item> \<open>Buffers\<close> (\<^verbatim>\<open>SendBuffer\<close>, \<^verbatim>\<open>BufferReader\<close>, \<^verbatim>\<open>BufferWriter\<close>), \<open>NetAddress\<close>, \<open>Packets\<close> (the packet
    builders of \<^verbatim>\<open>UdpServerPacketHandler\<close> with their exact bytes), \<open>Decimal\<close> (the text of integers),
    \<open>Weapons\<close> (\<^verbatim>\<open>WeaponData.h\<close>), \<open>RedisClient\<close> (the commands, and which stored players the info packet can
    hold, \<open>presentable\<close>).
  \<^item> \<open>UdpService\<close>: the table of clients, its consistency \<open>registry_ok\<close>, sending, \<^verbatim>\<open>Tick\<close>. A
    \<^verbatim>\<open>shared_ptr\<close> to a client context is an index into a store, because the two maps share it.
  \<^item> \<open>LobbyHandler\<close>, \<open>UdpGameSession\<close>: the handlers and the receive path.
  \<^item> \<open>ClientTable\<close>: what a step may do to the table, and the locale \<open>table_machine\<close> of the step relations
    that keep to it, with their invariants over whole runs.
  \<^item> \<open>GameServer\<close>: the step relation of the server, whole datagrams interleaved with the parts of the
    tick that are atomic. A run has fewer than \<open>2 ^ 64 - 1\<close> steps, because the counter of session ids
    has 64 bits.
  \<^item> \<open>SentPackets\<close>: the packets the server sends as a datatype with their bytes, and the typing of what
    each operation sends.
  \<^item> \<open>Interleaving\<close>, \<open>ServerTurns\<close>: the same server with a datagram cut at its critical sections into
    phases. The phases in sequence are the function \<open>ProcessRecv\<close> of \<open>UdpGameSession\<close>, every run of \<open>GameServer\<close> is one of
    these, and the consistency of the table, the use of session ids and the typing of what is sent
    are proved for all interleavings, with \<open>table_machine\<close> interpreted a second time.
  \<^item> \<open>ServerProgress\<close>: which stored players and which lengths of datagrams keep the server from failing
    (\<open>presentable\<close>, \<open>small_event\<close>), and that in every interleaving the next step can then be taken.
  \<^item> \<open>Duplicates\<close>: a datagram passes the check of its number at most once, in every interleaving of the
    phases; \<open>table_machine\<close> is interpreted on the relation restricted to numbered datagrams.
  \<^item> \<open>TickCollect\<close>: the collecting loop of \<^verbatim>\<open>Tick\<close> client by client beside the worker, which stores the times
    without a lock, against the collection in one step that the other theories use.
  \<^item> \<open>Iocp\<close>, \<open>UdpReceive\<close>: completion events and their dispatch, the receive that is registered again
    after each datagram, and the program of workers and main thread with whole datagrams.
  \<^item> \<open>ServerProgram\<close>: that program with the datagrams in phases. That one worker at a time has a datagram,
    which the step relations above take for granted, is proved here, so what is proved of them holds of
    the program; and the receive comes back to the operating system within six steps of the worker.
  \<^item> \<open>RecvBuffer\<close> (the locale \<open>byte_queue\<close>), \<open>Framing\<close>, \<open>TcpSession\<close>, \<open>SendProgress\<close>, \<open>SendLifetime\<close>: one
    TCP session, receiving into the memory posted and cutting the stream into packets, sending in order
    by several threads, progress, and what the send event keeps alive: \<open>reading_run\<close> follows, from
    outside the session, which buffers the operating system reads, and the event holds exactly those.
  \<^item> \<open>Service\<close> (the locale \<open>session_table\<close>, with both tables of sessions as instances), \<open>TcpServer\<close>,
    \<open>TcpTables\<close>, \<open>TcpDispatch\<close>: the listener, connecting and leaving as steps of several threads, the
    invariant of the tables and its consequences. Runs have fewer than \<open>2 ^ 31\<close> steps, because the
    session counter is an \<^verbatim>\<open>int32\<close>.
  \<^item> \<open>SessionReuse\<close>: sessions that nothing refers to are destroyed and their addresses used again; the tables
    still agree.
  \<^item> \<open>ClientConnect\<close>: \<^verbatim>\<open>ClientService::Start\<close> and the connects it posts under interleaving. Each step is one
    of the server's with the accept events renamed (\<open>as_server\<close>), so the invariant of the tables is used
    again; the service of a client is also shown to keep to its maximum number of sessions.
  \<^item> \<open>TestPacket\<close>: the TCP packets of \<^verbatim>\<open>ServerPacketHandler\<close>, end to end over a segmented stream.
  \<^item> \<open>Lock\<close>, \<open>LockWait\<close>, \<open>Threads\<close>: the spin lock under interleaving, the rounds of waiting with their
    crash after ten seconds, and the identifiers the locks rely on. A turn of a reader is the load of the
    flag and the exchange, with any steps of other threads between them: in \<open>Lock\<close> the value loaded may
    be of any age, in \<open>LockWait\<close> it is part of what a turn sees.
  \<^item> \<open>DeadLockProfiler\<close>: the depth-first search is a function with fuel; one more than the number of
    locks is enough, and it is proved to find a cycle exactly when there is one. \<open>LockOrder\<close>: one
    profiler under all threads; it is exact for whole runs. \<open>LockUse\<close>: the guards of the program's own
    operations and their order.
  \<^item> \<open>Allocator\<close>, \<open>Memory\<close>: page arithmetic of the stomp allocator, and the objects of \<^verbatim>\<open>xnew\<close> and
    \<^verbatim>\<open>xdelete\<close> over it. What \<^verbatim>\<open>VirtualAlloc\<close> promises is the hypothesis \<open>virtual_alloc_fresh\<close>.
  \<^item> \<open>RefCounting\<close>: \<^verbatim>\<open>TSharedPtr\<close>.
  \<^item> \<open>Sockets\<close>: \<^verbatim>\<open>SocketUtils\<close> and the completion port over a record of Winsock functions, in the state
    monad of the library, and the socket handles of listeners and sessions. What the library promises
    of handles is the hypothesis \<open>winsock_ok\<close>. The other theories take the results of these calls as
    inputs.

  \<^bold>\<open>Atomicity.\<close> An operation that holds a lock throughout is one step. Where the source releases the lock
  in between or takes none, the steps are cut there: the halves of \<^verbatim>\<open>Tick\<close>, \<^verbatim>\<open>Session::Send\<close> and
  \<^verbatim>\<open>RegisterSend\<close>, the parts of \<^verbatim>\<open>ProcessConnect\<close> and \<^verbatim>\<open>ProcessDisconnect\<close>, the atomic operations of a turn of a
  spin loop, and in \<open>Interleaving\<close> the lookup, the stores, the first packet and the second packet of a datagram.
  In \<open>GameServer\<close> the handling of one datagram is one step. The loops of \<^verbatim>\<open>Tick\<close> and \<^verbatim>\<open>Broadcast\<close>, which
  hold the read lock, are one step in both; \<open>TickCollect\<close> says what the first leaves out. In \<^verbatim>\<open>Session::Send\<close>
  the look at \<^verbatim>\<open>IsConnected\<close> and the push under the lock are one step: a disconnect between them changes
  nothing that the push reads or writes, so it has the same effect right after the push.

  \<^bold>\<open>Not modelled.\<close> Console output; the lifetime of services and listeners under \<^verbatim>\<open>shared_ptr\<close>,
  and of sessions except in \<open>SessionReuse\<close> (\<open>ClientConnect\<close> and \<open>TcpDispatch\<close> use no address twice, in
  \<open>Sockets\<close> a destructor is a step that may happen at any time); precompiled headers and type aliases; the \<^verbatim>\<open>Protocol\<close>
  submodule, which is empty; of the debug build the printing of a cycle.
\<close>

section \<open>The global objects\<close>

text \<open>\<^verbatim>\<open>CoreGlobal\<close>, which is constructed before \<^verbatim>\<open>main\<close> and destroyed after it.\<close>

record core_global =
  cg_GThreadManager :: thread_manager
  cg_GDeadLockProfiler :: profiler
  cg_extensions :: extensions

definition CoreGlobal :: "'w winsock \<Rightarrow> ('w, core_global result) state" where
  "CoreGlobal ws = do {
     ext \<leftarrow> SocketUtils_Init ws no_extensions;
     State_Monad.return (case ext of Inl e \<Rightarrow> Inl e
       | Inr ext \<Rightarrow> Inr \<lparr>cg_GThreadManager = ThreadManager,
           cg_GDeadLockProfiler = \<lparr>dp_nameToId = [], dp_idToName = [], dp_lockHistory = []\<rparr>,
           cg_extensions = ext\<rparr>) }"

definition CoreGlobal_delete :: "'w winsock \<Rightarrow> ('w, unit) state" where
  "CoreGlobal_delete ws = SocketUtils_Clear ws"

text \<open>What the other components start from holds when \<^verbatim>\<open>main\<close> begins.\<close>

lemma CoreGlobal_starts:
  assumes "winsock_ok open_handles ws" and "run_state (CoreGlobal ws) w = (Inr g, w')"
  shows "threads_ok 0 (cg_GThreadManager g)" "profiler_ok (cg_GDeadLockProfiler g)"
    "open_handles w' = open_handles w"
  using assms(2) Init_keeps [OF assms(1)] threads_ok_start profiler_ok_init
  by (auto simp: CoreGlobal_def split: prod.splits sum.splits)

section \<open>Registrations that call themselves\<close>

text \<open>
  Both registrations that call themselves again after a failure, of the UDP receive and of an accept,
  return exactly when the operating system does not refuse for ever; an accept whose new session
  cannot be registered with the completion port ends in the dereference of a null pointer.
\<close>

theorem registrations_return_iff:
  "(UdpSession_RegisterRecv os k u = None \<longleftrightarrow> (\<forall>j\<ge>k. failed (os j))) \<and>
   (RegisterAccept tries i w = None \<longleftrightarrow> (\<forall>j\<ge>i. at_registered (tries j) \<and> failed (at_acceptEx (tries j)))) \<and>
   (\<not> at_registered (tries i) \<longrightarrow> RegisterAccept tries i w = Some (Inl NullDeref))"
  using RegisterAccept_returns [of tries i w] RegisterAccept_null [of 0 tries i w] by (auto simp: RegisterRecv_eq)

theorem registrations_return_iff_witness:
  "UdpSession_RegisterRecv (\<lambda>_. Some 10054) 0 new_udp_socket = None \<and>
   RegisterAccept (\<lambda>_. \<lparr>at_address = 0, at_registered = False, at_acceptEx = None\<rparr>) 0 demo_listener = Some (Inl NullDeref)"
proof -
  have "failed (Some 10054)" by (simp add: failed_def WSA_IO_PENDING_def)
  then show ?thesis
    using registrations_return_iff [of "\<lambda>_. Some 10054" 0 new_udp_socket
      "\<lambda>_. \<lparr>at_address = 0, at_registered = False, at_acceptEx = None\<rparr>" 0 demo_listener] by simp
qed

end
